(* ===== verification/Etcd_Prelude.thy ===== *)
theory Etcd_Prelude
  imports Main "HOL-Library.Monad_Syntax" "HOL-Library.AList"
begin

text \<open>
  Shared vocabulary of the development.

  \<^item> Machine integers. A Go \<^verbatim>\<open>uint64\<close> is a \<^typ>\<open>nat\<close>; sums and differences that the
    source computes go through \<open>add64\<close> and \<open>sub64\<close>, which wrap modulo \<open>2 ^ 64\<close>.
  \<^item> Panics. A function that may panic returns an \<open>option\<close>; \<^term>\<open>None\<close> is the panic
    (\<^verbatim>\<open>panic\<close>, \<^verbatim>\<open>log.Panicf\<close>, \<^verbatim>\<open>log.Fatalf\<close>, a slice or array access out of range).
    Go's error results are values of a sum type, \<^term>\<open>Inl\<close> the error.
  \<^item> Slices. \<open>idx\<close> and \<open>subslice\<close> are Go's \<^verbatim>\<open>xs[i]\<close> and \<^verbatim>\<open>xs[lo:hi]\<close>.
  \<^item> A Go map is an association list with distinct keys, whose order stands for the order
    in which a \<^verbatim>\<open>range\<close> loop visits it; no property fixes that order.
\<close>

type_synonym u64 = nat
type_synonym bytes = string

abbreviation two64 :: nat where
  "two64 \<equiv> 18446744073709551616"

abbreviation max_u64 :: u64 where
  "max_u64 \<equiv> 18446744073709551615"

definition add64 :: "u64 \<Rightarrow> u64 \<Rightarrow> u64" where
  "add64 a b = (a + b) mod two64"

definition sub64 :: "u64 \<Rightarrow> u64 \<Rightarrow> u64" where
  "sub64 a b = (a + (two64 - b mod two64)) mod two64"

definition idx :: "'a list \<Rightarrow> nat \<Rightarrow> 'a option" where
  "idx xs i = (if i < length xs then Some (xs ! i) else None)"

definition subslice :: "'a list \<Rightarrow> nat \<Rightarrow> nat \<Rightarrow> 'a list option" where
  "subslice xs lo hi =
     (if lo \<le> hi \<and> hi \<le> length xs then Some (take (hi - lo) (drop lo xs)) else None)"

definition panic_unless :: "bool \<Rightarrow> unit option" where
  "panic_unless b = (if b then Some () else None)"

text \<open>A loop over a list that threads a state and may panic.\<close>

fun ofold :: "('a \<Rightarrow> 's \<Rightarrow> 's option) \<Rightarrow> 'a list \<Rightarrow> 's \<Rightarrow> 's option" where
  "ofold f [] s = Some s"
| "ofold f (x # xs) s = Option.bind (f x s) (ofold f xs)"

section \<open>Wrap-around arithmetic\<close>

named_theorems u64_simps \<open>wrap-around sums and differences that stay in range\<close>

lemma add64_small [u64_simps]: "a + b < two64 \<Longrightarrow> add64 a b = a + b"
  by (simp add: add64_def)

lemma add64_bound: "add64 a b < two64"
  by (simp add: add64_def)

lemma sub64_small [u64_simps]: "b \<le> a \<Longrightarrow> a < two64 \<Longrightarrow> sub64 a b = a - b"
proof -
  assume "b \<le> a" "a < two64"
  then have "a + (two64 - b mod two64) = (a - b) + two64" by simp
  then have "sub64 a b = ((a - b) + two64) mod two64"
    unfolding sub64_def by (rule arg_cong)
  also have "\<dots> = a - b" using \<open>a < two64\<close> by (simp only: mod_add_self2) simp
  finally show ?thesis .
qed

lemma sub64_bound: "sub64 a b < two64"
  by (simp add: sub64_def)

lemma sub64_zero_one: "sub64 0 1 = max_u64"
  by (simp add: sub64_def)

section \<open>Slices and panics\<close>

lemma idx_Some [simp]: "i < length xs \<Longrightarrow> idx xs i = Some (xs ! i)"
  by (simp add: idx_def)

lemma idx_None [simp]: "length xs \<le> i \<Longrightarrow> idx xs i = None"
  by (simp add: idx_def)

lemma idx_eq_Some: "idx xs i = Some x \<longleftrightarrow> i < length xs \<and> x = xs ! i"
  by (auto simp: idx_def)

lemma subslice_Some [simp]:
  "lo \<le> hi \<Longrightarrow> hi \<le> length xs \<Longrightarrow> subslice xs lo hi = Some (take (hi - lo) (drop lo xs))"
  by (simp add: subslice_def)

lemma subslice_eq_Some:
  "subslice xs lo hi = Some ys \<longleftrightarrow>
     lo \<le> hi \<and> hi \<le> length xs \<and> ys = take (hi - lo) (drop lo xs)"
  by (auto simp: subslice_def)

lemma panic_unless_eq [simp]:
  "panic_unless True = Some ()" "panic_unless False = None"
  by (simp_all add: panic_unless_def)

lemma panic_unless_Some [simp]: "panic_unless b = Some u \<longleftrightarrow> b"
  by (simp add: panic_unless_def)

lemma panic_unless_bind [simp]: "Option.bind (panic_unless b) f = (if b then f () else None)"
  by (simp add: panic_unless_def)

lemma ofold_append: "ofold f (xs @ ys) s = Option.bind (ofold f xs s) (ofold f ys)"
  by (induction xs arbitrary: s) (auto split: Option.bind_split)

text \<open>An invariant that every iteration keeps holds after the loop.\<close>

lemma ofold_invariant:
  assumes "ofold f xs s = Some t" and "P s"
    and "\<And>x s t. x \<in> set xs \<Longrightarrow> P s \<Longrightarrow> f x s = Some t \<Longrightarrow> P t"
  shows "P t"
  using assms
proof (induction xs arbitrary: s)
  case (Cons x xs)
  from Cons.prems(1) obtain u where u: "f x s = Some u" and t: "ofold f xs u = Some t"
    by (auto simp: bind_eq_Some_conv)
  show ?case
    by (rule Cons.IH [OF t]) (use Cons.prems u in auto)
qed simp

lemma ofold_total:
  assumes "P s"
    and "\<And>x s. x \<in> set xs \<Longrightarrow> P s \<Longrightarrow> \<exists>t. f x s = Some t \<and> P t"
  shows "\<exists>t. ofold f xs s = Some t \<and> P t"
  using assms
proof (induction xs arbitrary: s)
  case (Cons x xs)
  from Cons.prems obtain u where u: "f x s = Some u" and "P u" by auto
  with Cons.IH [of u] Cons.prems(2) show ?case by auto
qed simp

section \<open>Association lists\<close>

lemma inr_Some: "(case y of Inl _ \<Rightarrow> None | Inr b \<Rightarrow> f b) = Some z \<longleftrightarrow> (\<exists>b. y = Inr b \<and> f b = Some z)"
  by (cases y) auto

lemma cons_Some: "(case xs of [] \<Rightarrow> None | x # ys \<Rightarrow> f x ys) = Some z \<longleftrightarrow> (\<exists>x ys. xs = x # ys \<and> f x ys = Some z)"
  by (cases xs) auto

lemma map_of_in_keys: "map_of m k = Some v \<Longrightarrow> k \<in> fst ` set m"
  by (metis map_of_SomeD fst_conv imageI)

lemma keys_update: "fst ` set (AList.update k v m) = insert k (fst ` set m)"
  by (induction m) auto

lemma distinct_keys_update [simp]:
  "distinct (map fst m) \<Longrightarrow> distinct (map fst (AList.update k v m))"
  by (rule distinct_update)

end
