(* ===== verification/Raft_Types.thy ===== *)
theory Raft_Types
  imports Etcd_Prelude
begin

text \<open>
  The wire types of the raft package (\<^verbatim>\<open>raft/raftpb\<close>), the size of an entry as the generated
  code computes it, \<^verbatim>\<open>limitSize\<close> of \<^verbatim>\<open>raft/util.go\<close>, and the abstract log that the storage,
  the unstable part and the raft log are views of.  The protobuf field for unrecognised
  bytes, which only the decoder sets, is left out.
\<close>

section \<open>Messages and entries\<close>

text \<open>
  The enumerations are 32-bit integers in Go; a value that has no name is kept as its bit
  pattern.
\<close>

datatype EntryType = EntryNormal | EntryConfChange | EntryTypeOther nat

record Entry =
  EType :: EntryType
  ETerm :: u64
  EIndex :: u64
  EData :: "bytes option"

record SnapshotMetadata =
  SConf :: "u64 list"
  SIndex :: u64
  STerm :: u64

record Snapshot =
  SData :: "bytes option"
  SMetadata :: SnapshotMetadata

datatype MessageType = MsgHup | MsgBeat | MsgProp | MsgApp | MsgAppResp | MsgVote
  | MsgVoteResp | MsgSnap | MsgHeartbeat | MsgHeartbeatResp | MsgUnreachable
  | MsgSnapStatus | MsgCheckQuorum | MsgTypeOther nat

record Message =
  MType :: MessageType
  MTo :: u64
  MFrom :: u64
  MTerm :: u64
  MLogTerm :: u64
  MIndex :: u64
  MEntries :: "Entry list"
  MCommit :: u64
  MSnapshot :: Snapshot
  MReject :: bool
  MRejectHint :: u64

record HardState =
  HTerm :: u64
  HVote :: u64
  HCommit :: u64

datatype ConfChangeType = ConfChangeAddNode | ConfChangeRemoveNode | ConfChangeUpdateNode
  | ConfChangeTypeOther nat

record ConfChange =
  CCID :: u64
  CCType :: ConfChangeType
  CCNodeID :: u64
  CCContext :: "bytes option"

text \<open>Zero values of the structs.\<close>

definition zero_entry :: Entry where
  "zero_entry = \<lparr>EType = EntryNormal, ETerm = 0, EIndex = 0, EData = None\<rparr>"

definition zero_snapshot :: Snapshot where
  "zero_snapshot = \<lparr>SData = None, SMetadata = \<lparr>SConf = [], SIndex = 0, STerm = 0\<rparr>\<rparr>"

definition zero_message :: Message where
  "zero_message = \<lparr>MType = MsgHup, MTo = 0, MFrom = 0, MTerm = 0, MLogTerm = 0, MIndex = 0,
     MEntries = [], MCommit = 0, MSnapshot = zero_snapshot, MReject = False, MRejectHint = 0\<rparr>"

definition emptyState :: HardState where
  "emptyState = \<lparr>HTerm = 0, HVote = 0, HCommit = 0\<rparr>"

abbreviation snap_index :: "Snapshot \<Rightarrow> u64" where
  "snap_index s \<equiv> SIndex (SMetadata s)"

abbreviation snap_term :: "Snapshot \<Rightarrow> u64" where
  "snap_term s \<equiv> STerm (SMetadata s)"

abbreviation snap_nodes :: "Snapshot \<Rightarrow> u64 list" where
  "snap_nodes s \<equiv> SConf (SMetadata s)"

section \<open>Sizes\<close>

fun sovRaft :: "u64 \<Rightarrow> nat" where
  "sovRaft x = (if x div 128 = 0 then 1 else Suc (sovRaft (x div 128)))"

declare sovRaft.simps [simp del]

text \<open>The conversion of a 32-bit integer to \<^verbatim>\<open>uint64\<close>, which extends its sign.\<close>

definition int32_u64 :: "nat \<Rightarrow> u64" where
  "int32_u64 n = (let n = n mod 4294967296 in if n < 2147483648 then n else n + (two64 - 4294967296))"

fun entry_type_num :: "EntryType \<Rightarrow> u64" where
  "entry_type_num EntryNormal = 0"
| "entry_type_num EntryConfChange = 1"
| "entry_type_num (EntryTypeOther n) = int32_u64 n"

definition entry_Size :: "Entry \<Rightarrow> nat" where
  "entry_Size e =
     1 + sovRaft (entry_type_num (EType e)) + (1 + sovRaft (ETerm e)) + (1 + sovRaft (EIndex e)) +
     (case EData e of None \<Rightarrow> 0 | Some d \<Rightarrow> 1 + length d + sovRaft (length d))"

definition noLimit :: u64 where
  "noLimit = max_u64"

text \<open>The loop of \<^verbatim>\<open>limitSize\<close> from the second entry on, with the size so far.\<close>

fun limit_rest :: "nat \<Rightarrow> u64 \<Rightarrow> Entry list \<Rightarrow> Entry list" where
  "limit_rest sz maxSize [] = []"
| "limit_rest sz maxSize (e # es) =
     (if sz + entry_Size e > maxSize then []
      else e # limit_rest (sz + entry_Size e) maxSize es)"

fun limitSize :: "Entry list \<Rightarrow> u64 \<Rightarrow> Entry list" where
  "limitSize [] maxSize = []"
| "limitSize (e # es) maxSize = e # limit_rest (entry_Size e) maxSize es"

definition total_size :: "Entry list \<Rightarrow> nat" where
  "total_size es = sum_list (map entry_Size es)"

lemma limit_rest_prefix: "\<exists>k \<le> length es. limit_rest sz m es = take k es"
proof (induction es arbitrary: sz)
  case (Cons e es)
  show ?case
  proof (cases "sz + entry_Size e > m")
    case True
    then show ?thesis by (intro exI [of _ 0]) simp
  next
    case False
    from Cons.IH [of "sz + entry_Size e"] obtain k
      where "k \<le> length es" "limit_rest (sz + entry_Size e) m es = take k es" by auto
    with False show ?thesis by (intro exI [of _ "Suc k"]) simp
  qed
qed simp

lemma limitSize_prefix: "\<exists>k \<le> length es. limitSize es m = take k es"
proof (cases es)
  case (Cons e es')
  from limit_rest_prefix [of es' "entry_Size e" m] obtain k
    where "k \<le> length es'" "limit_rest (entry_Size e) m es' = take k es'" by auto
  with Cons show ?thesis by (intro exI [of _ "Suc k"]) simp
qed simp

lemma limitSize_take: "limitSize es m = take (length (limitSize es m)) es"
  using limitSize_prefix [of es m] by auto

lemma limitSize_length_le: "length (limitSize es m) \<le> length es"
  using limitSize_prefix [of es m] by auto

lemma limitSize_full: "length es \<le> length (limitSize es m) \<Longrightarrow> limitSize es m = es"
  using limitSize_take [of es m] by simp

lemma limitSize_eq_Nil [simp]: "limitSize es m = [] \<longleftrightarrow> es = []"
  by (cases es) auto

lemma limit_rest_total:
  "limit_rest sz m es = [] \<or> sz + total_size (limit_rest sz m es) \<le> m"
proof (induction es arbitrary: sz)
  case (Cons e es)
  show ?case
  proof (cases "sz + entry_Size e > m")
    case False
    with Cons.IH [of "sz + entry_Size e"] show ?thesis by (auto simp: total_size_def)
  qed simp
qed simp

text \<open>More than one entry is returned only within the size limit.\<close>

lemma limitSize_total:
  "length (limitSize es m) \<le> 1 \<or> total_size (limitSize es m) \<le> m"
proof (cases es)
  case (Cons e es')
  with limit_rest_total [of "entry_Size e" m es'] show ?thesis
    by (auto simp: total_size_def)
qed simp

text \<open>
  Limiting a prefix first does not change the result: if the prefix is cut, so is the
  whole at the same place; if it is not, the whole is limited as one.
\<close>

lemma limit_rest_append:
  "length (limit_rest sz m xs) < length xs \<Longrightarrow> limit_rest sz m (xs @ ys) = limit_rest sz m xs"
  by (induction xs arbitrary: sz) auto

lemma limitSize_append_cut:
  "length (limitSize xs m) < length xs \<Longrightarrow> limitSize (xs @ ys) m = limitSize xs m"
  by (cases xs) (auto simp: limit_rest_append)

section \<open>Contiguous entries\<close>

fun contig :: "u64 \<Rightarrow> Entry list \<Rightarrow> bool" where
  "contig n [] = True"
| "contig n (e # es) = (EIndex e = n \<and> contig (Suc n) es)"

lemma contig_append [simp]: "contig n (xs @ ys) \<longleftrightarrow> contig n xs \<and> contig (n + length xs) ys"
  by (induction xs arbitrary: n) auto

lemma contig_take: "contig n es \<Longrightarrow> contig n (take k es)"
  by (metis append_take_drop_id contig_append)

lemma contig_drop: "contig n es \<Longrightarrow> k \<le> length es \<Longrightarrow> contig (n + k) (drop k es)"
  by (metis append_take_drop_id contig_append length_take min.absorb2)

lemma contig_nth: "contig n es \<Longrightarrow> i < length es \<Longrightarrow> EIndex (es ! i) = n + i"
  by (induction es arbitrary: n i) (auto simp: less_Suc_eq_0_disj)

lemma contig_hd: "contig n es \<Longrightarrow> es \<noteq> [] \<Longrightarrow> EIndex (hd es) = n"
  by (cases es) auto

lemma contig_last: "contig n es \<Longrightarrow> es \<noteq> [] \<Longrightarrow> EIndex (last es) = n + length es - 1"
  using contig_nth [of n es "length es - 1"] by (cases es) (auto simp: last_conv_nth)

lemma contig_limitSize: "contig n es \<Longrightarrow> contig n (limitSize es m)"
  by (metis limitSize_take contig_take)

lemma contig_index_bound:
  "contig n es \<Longrightarrow> e \<in> set es \<Longrightarrow> n \<le> EIndex e \<and> EIndex e < n + length es"
  by (induction es arbitrary: n) force+

section \<open>The abstract log\<close>

text \<open>
  A log is the index and term of the entry before its first one (the dummy entry) and the
  entries after it.
\<close>

record alog =
  al_base :: u64
  al_bterm :: u64
  al_ents :: "Entry list"

definition al_last :: "alog \<Rightarrow> u64" where
  "al_last a = al_base a + length (al_ents a)"

definition al_ok :: "alog \<Rightarrow> bool" where
  "al_ok a \<longleftrightarrow> contig (Suc (al_base a)) (al_ents a)"

definition al_term :: "alog \<Rightarrow> u64 \<Rightarrow> u64" where
  "al_term a i =
     (if i < al_base a \<or> al_last a < i then 0
      else if i = al_base a then al_bterm a
      else ETerm (al_ents a ! (i - Suc (al_base a))))"

definition al_slice :: "alog \<Rightarrow> u64 \<Rightarrow> u64 \<Rightarrow> Entry list" where
  "al_slice a lo hi = take (hi - lo) (drop (lo - Suc (al_base a)) (al_ents a))"

definition al_append :: "alog \<Rightarrow> Entry list \<Rightarrow> alog" where
  "al_append a es =
     (if es = [] then a
      else a\<lparr>al_ents := take (EIndex (hd es) - Suc (al_base a)) (al_ents a) @ es\<rparr>)"

definition al_compact :: "alog \<Rightarrow> u64 \<Rightarrow> alog" where
  "al_compact a i = \<lparr>al_base = i, al_bterm = al_term a i,
     al_ents = drop (i - al_base a) (al_ents a)\<rparr>"

text \<open>Two logs agree up to an index when the entries both hold there are the same.\<close>

definition al_agree :: "alog \<Rightarrow> alog \<Rightarrow> u64 \<Rightarrow> bool" where
  "al_agree a b n \<longleftrightarrow> al_base a = al_base b \<and> al_bterm a = al_bterm b \<and>
     take (n - al_base a) (al_ents a) = take (n - al_base a) (al_ents b)"

lemma al_agree_refl [simp]: "al_agree a a n"
  by (simp add: al_agree_def)

lemma al_agree_trans: "al_agree a b n \<Longrightarrow> al_agree b c n \<Longrightarrow> al_agree a c n"
  by (auto simp: al_agree_def)

lemma al_agree_mono: "al_agree a b n \<Longrightarrow> m \<le> n \<Longrightarrow> al_agree a b m"
  unfolding al_agree_def by (metis diff_le_mono min.absorb1 take_take)

lemma al_ok_append:
  assumes "al_ok a" "es \<noteq> []" "contig k es" "al_base a < k" "k \<le> Suc (al_last a)"
  shows "al_ok (al_append a es)" and "al_last (al_append a es) = k + length es - 1"
    and "al_agree a (al_append a es) (k - 1)"
proof -
  have h: "EIndex (hd es) = k" using assms by (simp add: contig_hd)
  have l: "length (take (k - Suc (al_base a)) (al_ents a)) = k - Suc (al_base a)"
    using assms by (simp add: al_last_def)
  show "al_ok (al_append a es)"
    using assms h l by (simp add: al_ok_def al_append_def contig_take)
  show "al_last (al_append a es) = k + length es - 1"
    using assms h l by (simp add: al_last_def al_append_def)
  show "al_agree a (al_append a es) (k - 1)"
    using assms h l by (simp add: al_agree_def al_append_def)
qed

lemma al_agree_nth:
  assumes "al_agree a b n" "al_base a < i" "i \<le> n"
  shows "al_ents a ! (i - Suc (al_base a)) = al_ents b ! (i - Suc (al_base a))"
proof -
  from assms have "i - Suc (al_base a) < n - al_base a" by simp
  with assms(1) show ?thesis
    unfolding al_agree_def by (metis nth_take)
qed

lemma al_term_agree:
  assumes "al_agree a b n" "i \<le> n" "i \<le> al_last a" "i \<le> al_last b"
  shows "al_term a i = al_term b i"
proof (cases "al_base a < i")
  case True
  with al_agree_nth [OF assms(1) True assms(2)] assms show ?thesis
    by (auto simp: al_agree_def al_term_def)
next
  case False
  with assms show ?thesis by (auto simp: al_agree_def al_term_def)
qed

text \<open>A slice of a log is a run of entries with the terms of the log.\<close>

lemma al_slice_run:
  assumes "al_ok a" "al_base a \<le> b" "b \<le> c" "c \<le> al_last a"
  shows "contig (Suc b) (al_slice a (Suc b) (Suc c))" "length (al_slice a (Suc b) (Suc c)) = c - b"
    "\<forall>e \<in> set (al_slice a (Suc b) (Suc c)). al_term a (EIndex e) = ETerm e"
proof -
  let ?s = "al_slice a (Suc b) (Suc c)"
  have len: "b - al_base a + (c - b) \<le> length (al_ents a)" using assms by (simp add: al_last_def)
  have s: "?s = take (c - b) (drop (b - al_base a) (al_ents a))" by (simp add: al_slice_def)
  show c: "contig (Suc b) ?s"
    using contig_drop [of "Suc (al_base a)" "al_ents a" "b - al_base a"] assms len
    by (simp add: s contig_take al_ok_def)
  show l: "length ?s = c - b" using len by (simp add: s)
  show "\<forall>e \<in> set ?s. al_term a (EIndex e) = ETerm e"
  proof
    fix e assume "e \<in> set ?s"
    then obtain j where j: "j < length ?s" "e = ?s ! j" by (metis in_set_conv_nth)
    then have n: "EIndex e = Suc b + j" using contig_nth [OF c] by simp
    have e: "al_ents a ! (b - al_base a + j) = e" using j l len by (simp add: s)
    have "EIndex e - Suc (al_base a) = b - al_base a + j" using n assms(2) by simp
    moreover have "al_base a < EIndex e" "EIndex e \<le> al_last a" using n j(1) l assms(2,4) by simp_all
    ultimately have "al_term a (EIndex e) = ETerm (al_ents a ! (b - al_base a + j))"
      by (simp add: al_term_def)
    then show "al_term a (EIndex e) = ETerm e" by (simp only: e)
  qed
qed

lemma al_compact_term:
  assumes "al_base a < i" "i \<le> al_last a" "i \<le> j"
  shows "al_term (al_compact a i) j = al_term a j"
proof -
  have l: "al_last (al_compact a i) = al_last a" using assms by (simp add: al_compact_def al_last_def)
  show ?thesis
  proof (cases "j = i")
    case False
    then have "i - al_base a + (j - Suc i) = j - Suc (al_base a)" using assms by simp
    moreover have "i - al_base a \<le> length (al_ents a)" using assms by (simp add: al_last_def)
    ultimately show ?thesis using False assms l by (simp add: al_term_def) (simp add: al_compact_def)
  qed (use assms l in \<open>simp add: al_term_def\<close>, simp add: al_compact_def al_term_def)
qed

end
