(* ===== verification/Raft_Storage.thy ===== *)
theory Raft_Storage
  imports Raft_Types
begin

text \<open>
  The storage interface of the raft package (\<^verbatim>\<open>raft/storage.go\<close>) as the locale
  \<open>log_store\<close>, and \<^verbatim>\<open>MemoryStorage\<close>, its implementation.  \<open>ms_view\<close> reads a storage as an
  abstract log; every operation is shown to refine the operation of that log.
\<close>

datatype storage_err = ErrCompacted | ErrSnapOutOfDate | ErrUnavailable
  | ErrSnapshotTemporarilyUnavailable

record MemoryStorage =
  ms_hardState :: HardState
  ms_snapshot :: Snapshot
  ms_ents :: "Entry list"

section \<open>Operations\<close>

definition NewMemoryStorage :: MemoryStorage where
  "NewMemoryStorage = \<lparr>ms_hardState = emptyState, ms_snapshot = zero_snapshot,
     ms_ents = [zero_entry]\<rparr>"

definition ms_InitialState :: "MemoryStorage \<Rightarrow> HardState \<times> u64 list" where
  "ms_InitialState ms = (ms_hardState ms, snap_nodes (ms_snapshot ms))"

definition ms_SetHardState :: "HardState \<Rightarrow> MemoryStorage \<Rightarrow> MemoryStorage" where
  "ms_SetHardState st ms = ms\<lparr>ms_hardState := st\<rparr>"

definition ms_offset :: "MemoryStorage \<Rightarrow> u64 option" where
  "ms_offset ms = map_option EIndex (idx (ms_ents ms) 0)"

definition ms_lastIndex :: "MemoryStorage \<Rightarrow> u64 option" where
  "ms_lastIndex ms = do {
     offset \<leftarrow> ms_offset ms;
     Some (sub64 (add64 offset (length (ms_ents ms))) 1)
   }"

definition ms_firstIndex :: "MemoryStorage \<Rightarrow> u64 option" where
  "ms_firstIndex ms = do {
     offset \<leftarrow> ms_offset ms;
     Some (add64 offset 1)
   }"

definition ms_Entries :: "MemoryStorage \<Rightarrow> u64 \<Rightarrow> u64 \<Rightarrow> u64 \<Rightarrow> (storage_err + Entry list) option" where
  "ms_Entries ms lo hi maxSize = do {
     offset \<leftarrow> ms_offset ms;
     if lo \<le> offset then Some (Inl ErrCompacted)
     else do {
       li \<leftarrow> ms_lastIndex ms;
       _ \<leftarrow> panic_unless (\<not> add64 li 1 < hi);
       if length (ms_ents ms) = 1 then Some (Inl ErrUnavailable)
       else do {
         es \<leftarrow> subslice (ms_ents ms) (sub64 lo offset) (sub64 hi offset);
         Some (Inr (limitSize es maxSize))
       }
     }
   }"

definition ms_Term :: "MemoryStorage \<Rightarrow> u64 \<Rightarrow> (storage_err + u64) option" where
  "ms_Term ms i = do {
     offset \<leftarrow> ms_offset ms;
     if i < offset then Some (Inl ErrCompacted)
     else do {
       e \<leftarrow> idx (ms_ents ms) (sub64 i offset);
       Some (Inr (ETerm e))
     }
   }"

definition ms_Snapshot :: "MemoryStorage \<Rightarrow> storage_err + Snapshot" where
  "ms_Snapshot ms = Inr (ms_snapshot ms)"

definition ms_ApplySnapshot :: "Snapshot \<Rightarrow> MemoryStorage \<Rightarrow> MemoryStorage" where
  "ms_ApplySnapshot snap ms = ms\<lparr>ms_snapshot := snap,
     ms_ents := [zero_entry\<lparr>ETerm := snap_term snap, EIndex := snap_index snap\<rparr>]\<rparr>"

definition ms_CreateSnapshot ::
  "u64 \<Rightarrow> u64 list option \<Rightarrow> bytes option \<Rightarrow> MemoryStorage \<Rightarrow>
     ((storage_err + Snapshot) \<times> MemoryStorage) option" where
  "ms_CreateSnapshot i cs data ms =
     (if i \<le> snap_index (ms_snapshot ms) then Some (Inl ErrSnapOutOfDate, ms)
      else do {
        offset \<leftarrow> ms_offset ms;
        li \<leftarrow> ms_lastIndex ms;
        _ \<leftarrow> panic_unless (\<not> li < i);
        e \<leftarrow> idx (ms_ents ms) (sub64 i offset);
        let md = SMetadata (ms_snapshot ms);
        let md = md\<lparr>SIndex := i, STerm := ETerm e\<rparr>;
        let md = (case cs of None \<Rightarrow> md | Some ns \<Rightarrow> md\<lparr>SConf := ns\<rparr>);
        let snap = \<lparr>SData = data, SMetadata = md\<rparr>;
        Some (Inr snap, ms\<lparr>ms_snapshot := snap\<rparr>)
      })"

definition ms_Compact :: "u64 \<Rightarrow> MemoryStorage \<Rightarrow> ((storage_err + unit) \<times> MemoryStorage) option" where
  "ms_Compact compactIndex ms = do {
     offset \<leftarrow> ms_offset ms;
     if compactIndex \<le> offset then Some (Inl ErrCompacted, ms)
     else do {
       li \<leftarrow> ms_lastIndex ms;
       _ \<leftarrow> panic_unless (\<not> li < compactIndex);
       let i = sub64 compactIndex offset;
       e \<leftarrow> idx (ms_ents ms) i;
       rest \<leftarrow> subslice (ms_ents ms) (i + 1) (length (ms_ents ms));
       let dummy = zero_entry\<lparr>EIndex := EIndex e, ETerm := ETerm e\<rparr>;
       Some (Inr (), ms\<lparr>ms_ents := dummy # rest\<rparr>)
     }
   }"

definition ms_Append :: "Entry list \<Rightarrow> MemoryStorage \<Rightarrow> MemoryStorage option" where
  "ms_Append entries ms =
     (if entries = [] then Some ms
      else do {
        offset0 \<leftarrow> ms_offset ms;
        let fst_i = add64 offset0 1;
        let lst_i = sub64 (add64 (EIndex (hd entries)) (length entries)) 1;
        if lst_i < fst_i then Some ms
        else do {
          entries \<leftarrow> (if EIndex (hd entries) < fst_i
                     then subslice entries (sub64 fst_i (EIndex (hd entries))) (length entries)
                     else Some entries);
          e0 \<leftarrow> idx entries 0;
          let offset = sub64 (EIndex e0) offset0;
          if offset < length (ms_ents ms)
          then Some (ms\<lparr>ms_ents := take offset (ms_ents ms) @ entries\<rparr>)
          else if length (ms_ents ms) = offset
          then Some (ms\<lparr>ms_ents := ms_ents ms @ entries\<rparr>)
          else None
        }
      })"

section \<open>The interface\<close>

text \<open>
  What a client of a log may rely on: the four reading operations answer as the abstract
  log does.  \<open>last_index\<close> leaves room for one more index below \<open>2 ^ 64\<close>, so that half-open
  ranges can be written.
\<close>

locale log_store =
  fixes inv :: "'s \<Rightarrow> bool"
    and view :: "'s \<Rightarrow> alog"
    and first_index :: "'s \<Rightarrow> u64 option"
    and last_index :: "'s \<Rightarrow> u64 option"
    and term_at :: "'s \<Rightarrow> u64 \<Rightarrow> (storage_err + u64) option"
    and entries_of :: "'s \<Rightarrow> u64 \<Rightarrow> u64 \<Rightarrow> u64 \<Rightarrow> (storage_err + Entry list) option"
  assumes view_ok: "inv s \<Longrightarrow> al_ok (view s)"
    and view_room: "inv s \<Longrightarrow> al_last (view s) < max_u64"
    and first_view: "inv s \<Longrightarrow> first_index s = Some (al_base (view s) + 1)"
    and last_view: "inv s \<Longrightarrow> last_index s = Some (al_last (view s))"
    and term_view: "inv s \<Longrightarrow> al_base (view s) \<le> i \<Longrightarrow> i \<le> al_last (view s) \<Longrightarrow>
      term_at s i = Some (Inr (al_term (view s) i))"
    and entries_view: "inv s \<Longrightarrow> al_base (view s) < lo \<Longrightarrow> lo < hi \<Longrightarrow> hi \<le> al_last (view s) + 1 \<Longrightarrow>
      entries_of s lo hi m = Some (Inr (limitSize (al_slice (view s) lo hi) m))"
    and entries_compacted: "inv s \<Longrightarrow> lo \<le> al_base (view s) \<Longrightarrow> lo \<le> hi \<Longrightarrow>
      entries_of s lo hi m = Some (Inl ErrCompacted)"
begin

lemma slice_contig:
  assumes "inv s" "al_base (view s) < lo" "lo \<le> hi" "hi \<le> al_last (view s) + 1"
  shows "contig lo (al_slice (view s) lo hi)" and "length (al_slice (view s) lo hi) = hi - lo"
proof -
  let ?es = "al_ents (view s)" and ?b = "Suc (al_base (view s))"
  have c: "contig ?b ?es" using view_ok [OF assms(1)] by (simp add: al_ok_def)
  have k: "lo - ?b \<le> length ?es" using assms by (simp add: al_last_def)
  from contig_drop [OF c k] have "contig lo (drop (lo - ?b) ?es)" using assms by simp
  then show "contig lo (al_slice (view s) lo hi)" by (simp add: al_slice_def contig_take)
  show "length (al_slice (view s) lo hi) = hi - lo"
    using assms by (simp add: al_slice_def al_last_def)
qed

text \<open>
  A read of a non-empty range in bounds returns a non-empty run of entries that starts at
  the low end, and every entry it returns carries the term that the log reports there.
\<close>

lemma entries_run:
  assumes "inv s" "al_base (view s) < lo" "lo < hi" "hi \<le> al_last (view s) + 1"
  shows "\<exists>es. entries_of s lo hi m = Some (Inr es) \<and> es \<noteq> [] \<and> length es \<le> hi - lo \<and>
    contig lo es \<and> (length es \<le> 1 \<or> total_size es \<le> m) \<and>
    (\<forall>e \<in> set es. term_at s (EIndex e) = Some (Inr (ETerm e)))"
proof -
  let ?a = "view s" and ?sl = "al_slice (view s) lo hi"
  let ?es = "limitSize ?sl m"
  have sl: "contig lo ?sl" "length ?sl = hi - lo"
    using slice_contig [of s lo hi] assms by simp_all
  have len: "length ?es \<le> hi - lo" using limitSize_length_le [of ?sl m] sl by simp
  have tm: "term_at s (EIndex e) = Some (Inr (ETerm e))" if e: "e \<in> set ?es" for e
  proof -
    from e limitSize_take [of ?sl m] have "e \<in> set ?sl" by (metis in_set_takeD)
    then obtain j where j: "j < hi - lo" "e = ?sl ! j" using sl by (metis in_set_conv_nth)
    then have i: "EIndex e = lo + j" using sl contig_nth by simp
    have "al_ents ?a ! (lo - Suc (al_base ?a) + j) = ?sl ! j"
      using j(1) assms by (simp add: al_slice_def al_last_def)
    moreover have "lo - Suc (al_base ?a) + j = EIndex e - Suc (al_base ?a)"
      using i assms by simp
    ultimately have at: "al_ents ?a ! (EIndex e - Suc (al_base ?a)) = e"
      by (simp only: j(2))
    have r: "al_base ?a < EIndex e" "EIndex e \<le> al_last ?a" using i j(1) assms by linarith+
    then have "al_term ?a (EIndex e) = ETerm e" by (simp add: al_term_def at)
    with term_view [OF assms(1), of "EIndex e"] r show ?thesis by simp
  qed
  show ?thesis
    using entries_view [OF assms] sl tm len limitSize_total [of ?sl m]
      contig_limitSize [OF sl(1), of m] assms(3)
    by (intro exI [of _ ?es]) auto
qed

end

section \<open>MemoryStorage as a log\<close>

fun ents_view :: "Entry list \<Rightarrow> alog" where
  "ents_view [] = \<lparr>al_base = 0, al_bterm = 0, al_ents = []\<rparr>"
| "ents_view (d # es) = \<lparr>al_base = EIndex d, al_bterm = ETerm d, al_ents = es\<rparr>"

definition ms_view :: "MemoryStorage \<Rightarrow> alog" where
  "ms_view ms = ents_view (ms_ents ms)"

definition ms_inv :: "MemoryStorage \<Rightarrow> bool" where
  "ms_inv ms \<longleftrightarrow> ms_ents ms \<noteq> [] \<and> al_ok (ms_view ms) \<and> al_last (ms_view ms) < max_u64"

lemma ms_invE:
  assumes "ms_inv ms"
  obtains d es where "ms_ents ms = d # es" "ms_view ms = \<lparr>al_base = EIndex d, al_bterm = ETerm d, al_ents = es\<rparr>"
    "contig (Suc (EIndex d)) es" "EIndex d + length es < max_u64"
  using assms by (cases "ms_ents ms") (auto simp: ms_inv_def ms_view_def al_ok_def al_last_def)

lemma ms_inv_ok: "ms_inv ms \<Longrightarrow> al_ok (ms_view ms)"
  and ms_inv_room: "ms_inv ms \<Longrightarrow> al_last (ms_view ms) < max_u64"
  by (simp_all add: ms_inv_def)

lemma ms_inv_New: "ms_inv NewMemoryStorage"
  by (simp add: ms_inv_def ms_view_def NewMemoryStorage_def al_ok_def al_last_def zero_entry_def)

lemma ms_inv_cong: "ms_ents ms' = ms_ents ms \<Longrightarrow> ms_inv ms' = ms_inv ms \<and> ms_view ms' = ms_view ms"
  by (simp add: ms_inv_def ms_view_def)

lemma ms_offset_view: "ms_inv ms \<Longrightarrow> ms_offset ms = Some (al_base (ms_view ms))"
  by (erule ms_invE) (simp add: ms_offset_def)

lemma ms_length_view: "ms_inv ms \<Longrightarrow> length (ms_ents ms) = Suc (length (al_ents (ms_view ms)))"
  by (erule ms_invE) simp

lemma ms_lastIndex_view: "ms_inv ms \<Longrightarrow> ms_lastIndex ms = Some (al_last (ms_view ms))"
  by (simp add: ms_lastIndex_def ms_offset_view ms_length_view ms_inv_def al_last_def u64_simps)

lemma ms_firstIndex_view: "ms_inv ms \<Longrightarrow> ms_firstIndex ms = Some (al_base (ms_view ms) + 1)"
  by (simp add: ms_firstIndex_def ms_offset_view ms_inv_def al_last_def u64_simps)

lemmas ms_views = ms_offset_view ms_length_view ms_lastIndex_view ms_firstIndex_view

lemma ms_Term_view:
  assumes "ms_inv ms" "al_base (ms_view ms) \<le> i" "i \<le> al_last (ms_view ms)"
  shows "ms_Term ms i = Some (Inr (al_term (ms_view ms) i))"
  using assms(1)
proof (rule ms_invE)
  fix d es
  assume v: "ms_ents ms = d # es" "ms_view ms = \<lparr>al_base = EIndex d, al_bterm = ETerm d, al_ents = es\<rparr>"
    "EIndex d + length es < max_u64"
  have "sub64 i (EIndex d) = i - EIndex d" using assms v by (simp add: u64_simps al_last_def)
  then show ?thesis
    using assms v by (auto simp: ms_Term_def ms_views al_term_def al_last_def nth_Cons')
qed

lemma ms_Entries_view:
  assumes "ms_inv ms" "al_base (ms_view ms) < lo" "lo < hi" "hi \<le> al_last (ms_view ms) + 1"
  shows "ms_Entries ms lo hi m = Some (Inr (limitSize (al_slice (ms_view ms) lo hi) m))"
  using assms(1)
proof (rule ms_invE)
  fix d es
  assume v: "ms_ents ms = d # es" "ms_view ms = \<lparr>al_base = EIndex d, al_bterm = ETerm d, al_ents = es\<rparr>"
    "EIndex d + length es < max_u64"
  have s: "sub64 lo (EIndex d) = lo - EIndex d" "sub64 hi (EIndex d) = hi - EIndex d"
    using assms v by (simp_all add: u64_simps al_last_def)
  have a: "add64 (al_last (ms_view ms)) 1 = al_last (ms_view ms) + 1"
    using assms v by (simp add: u64_simps al_last_def)
  have "drop (lo - EIndex d) (d # es) = drop (lo - Suc (EIndex d)) es"
    using assms v Suc_diff_Suc [of "EIndex d" lo] by (metis alog.select_convs(1) drop_Suc_Cons)
  moreover have "hi - EIndex d - (lo - EIndex d) = hi - lo" using assms v by simp
  ultimately show ?thesis
    using assms v s a by (auto simp: ms_Entries_def ms_views al_slice_def al_last_def)
qed

lemma ms_Entries_compacted:
  "ms_inv ms \<Longrightarrow> lo \<le> al_base (ms_view ms) \<Longrightarrow> ms_Entries ms lo hi m = Some (Inl ErrCompacted)"
  by (simp add: ms_Entries_def ms_views)

interpretation ms: log_store ms_inv ms_view ms_firstIndex ms_lastIndex ms_Term ms_Entries
  by unfold_locales
    (simp_all add: ms_inv_ok ms_inv_room ms_views ms_Term_view ms_Entries_view ms_Entries_compacted)

section \<open>Writing operations refine the abstract log\<close>

lemma ms_ApplySnapshot_view:
  "snap_index snap < max_u64 \<Longrightarrow> ms_inv (ms_ApplySnapshot snap ms) \<and>
   ms_view (ms_ApplySnapshot snap ms) =
     \<lparr>al_base = snap_index snap, al_bterm = snap_term snap, al_ents = []\<rparr>"
  by (simp add: ms_inv_def ms_view_def ms_ApplySnapshot_def al_ok_def al_last_def)

lemma ms_Compact_view:
  assumes "ms_inv ms" "al_base (ms_view ms) < i" "i \<le> al_last (ms_view ms)"
  shows "\<exists>ms'. ms_Compact i ms = Some (Inr (), ms') \<and> ms_inv ms' \<and>
    ms_view ms' = al_compact (ms_view ms) i"
  using assms(1)
proof (rule ms_invE)
  fix d es
  assume v: "ms_ents ms = d # es" "ms_view ms = \<lparr>al_base = EIndex d, al_bterm = ETerm d, al_ents = es\<rparr>"
    "contig (Suc (EIndex d)) es" "EIndex d + length es < max_u64"
  define k where "k = i - Suc (EIndex d)"
  have k: "k < length es" "i = Suc (EIndex d) + k" using assms v by (auto simp: k_def al_last_def)
  have s: "sub64 i (EIndex d) = Suc k" using k v by (simp add: u64_simps)
  have e: "EIndex (es ! k) = i" using contig_nth [OF v(3) k(1)] k by simp
  have c: "contig (Suc i) (drop (Suc k) es)"
    using contig_drop [OF v(3), of "Suc k"] k by simp
  let ?ms' = "ms\<lparr>ms_ents := zero_entry\<lparr>EIndex := i, ETerm := ETerm (es ! k)\<rparr> # drop (Suc k) es\<rparr>"
  have "ms_Compact i ms = Some (Inr (), ?ms')"
    using assms v s k e by (simp add: ms_Compact_def ms_views al_last_def)
  moreover have "ms_view ?ms' = al_compact (ms_view ms) i"
    using v k by (simp add: ms_view_def al_compact_def al_term_def al_last_def)
  moreover have "ms_inv ?ms'"
    using c k v by (simp add: ms_inv_def ms_view_def al_ok_def al_last_def)
  ultimately show ?thesis by blast
qed

text \<open>
  \<^verbatim>\<open>Append\<close> on a run of entries that starts after the dummy entry and at most one past the
  last entry: entries from the first new index on are replaced.
\<close>

lemma ms_Append_view:
  assumes "ms_inv ms" "es \<noteq> []" "contig k es" "al_base (ms_view ms) < k"
    "k \<le> al_last (ms_view ms) + 1" "k + length es < two64"
  shows "\<exists>ms'. ms_Append es ms = Some ms' \<and> ms_inv ms' \<and>
    ms_view ms' = al_append (ms_view ms) es \<and> ms_snapshot ms' = ms_snapshot ms"
  using assms(1)
proof (rule ms_invE)
  fix d os
  assume v: "ms_ents ms = d # os" "ms_view ms = \<lparr>al_base = EIndex d, al_bterm = ETerm d, al_ents = os\<rparr>"
    "contig (Suc (EIndex d)) os" "EIndex d + length os < max_u64"
  have k: "EIndex d < k" "k \<le> Suc (EIndex d + length os)" using assms v by (auto simp: al_last_def)
  have h: "EIndex (hd es) = k" "EIndex (es ! 0) = k" using assms by (simp_all add: contig_hd contig_nth)
  have a: "add64 (EIndex d) 1 = EIndex d + 1" "sub64 k (EIndex d) = k - EIndex d"
    "sub64 (add64 k (length es)) 1 = k + length es - 1"
    using assms v k by (simp_all add: u64_simps)
  let ?ms' = "ms\<lparr>ms_ents := take (k - EIndex d) (d # os) @ es\<rparr>"
  have lenpos: "\<not> k + length es - 1 < EIndex d + 1"
    using assms(2) k by (cases es) auto
  have app: "ms_Append es ms = Some ?ms'"
    using assms(1,2) v k h a lenpos by (auto simp: ms_Append_def ms_views Let_def split: if_splits)
  have t: "take (k - EIndex d) (d # os) = d # take (k - Suc (EIndex d)) os"
    using Suc_diff_Suc [OF k(1)] by (metis take_Suc_Cons)
  have vw: "ms_view ?ms' = al_append (ms_view ms) es"
    using assms(2) v t h by (simp add: ms_view_def al_append_def)
  have "al_ok (ms_view ms)" using assms(1) by (simp add: ms_inv_def)
  from al_ok_append [OF this assms(2-4)] assms(5)
  have "al_ok (al_append (ms_view ms) es)" "al_last (al_append (ms_view ms) es) = k + length es - 1"
    by simp_all
  moreover have "k + length es - 1 < max_u64" using assms(2,6) by (cases es) auto
  moreover have "ms_ents ?ms' \<noteq> []" using assms(2) by simp
  ultimately have "ms_inv ?ms'" unfolding ms_inv_def vw by presburger
  with app vw show ?thesis by auto
qed

end
