(* ===== verification/Raft_Log.thy ===== *)
theory Raft_Log
  imports Raft_Storage
begin

text \<open>
  The raft log: \<^verbatim>\<open>raft/log_unstable.go\<close> (entries and snapshot not yet in storage) and
  \<^verbatim>\<open>raft/log.go\<close> (the log made of storage and unstable part, with the commit and apply
  positions).  \<open>log_view\<close> reads it as one abstract log; the raft log is a \<open>log_store\<close> again,
  and its writing operations refine those of the abstract log.  The storage is read as one
  consistent state during each operation.
\<close>

section \<open>The unstable part\<close>

record unstable =
  u_snapshot :: "Snapshot option"
  u_entries :: "Entry list"
  u_offset :: u64

definition u_maybeFirstIndex :: "unstable \<Rightarrow> u64 option" where
  "u_maybeFirstIndex u = map_option (\<lambda>s. add64 (snap_index s) 1) (u_snapshot u)"

definition u_maybeLastIndex :: "unstable \<Rightarrow> u64 option" where
  "u_maybeLastIndex u =
     (if u_entries u \<noteq> [] then Some (sub64 (add64 (u_offset u) (length (u_entries u))) 1)
      else map_option snap_index (u_snapshot u))"

text \<open>The outer option is the panic, the inner one the boolean result.\<close>

definition u_maybeTerm :: "unstable \<Rightarrow> u64 \<Rightarrow> u64 option option" where
  "u_maybeTerm u i =
     (if i < u_offset u
      then (case u_snapshot u of
              None \<Rightarrow> Some None
            | Some s \<Rightarrow> if snap_index s = i then Some (Some (snap_term s)) else Some None)
      else (case u_maybeLastIndex u of
              None \<Rightarrow> Some None
            | Some last_i \<Rightarrow>
                if i > last_i then Some None
                else do { e \<leftarrow> idx (u_entries u) (sub64 i (u_offset u)); Some (Some (ETerm e)) }))"

definition u_stableTo :: "u64 \<Rightarrow> u64 \<Rightarrow> unstable \<Rightarrow> unstable option" where
  "u_stableTo i t u = do {
     gt \<leftarrow> u_maybeTerm u i;
     (case gt of
        None \<Rightarrow> Some u
      | Some gt \<Rightarrow>
          if gt = t \<and> u_offset u \<le> i
          then do {
            es \<leftarrow> subslice (u_entries u) (sub64 (add64 i 1) (u_offset u)) (length (u_entries u));
            Some (u\<lparr>u_entries := es, u_offset := add64 i 1\<rparr>)
          }
          else Some u)
   }"

definition u_stableSnapTo :: "u64 \<Rightarrow> unstable \<Rightarrow> unstable" where
  "u_stableSnapTo i u =
     (case u_snapshot u of
        None \<Rightarrow> u
      | Some s \<Rightarrow> if snap_index s = i then u\<lparr>u_snapshot := None\<rparr> else u)"

definition u_restore :: "Snapshot \<Rightarrow> unstable \<Rightarrow> unstable" where
  "u_restore s u = u\<lparr>u_offset := add64 (snap_index s) 1, u_entries := [], u_snapshot := Some s\<rparr>"

definition u_mustCheckOutOfBounds :: "unstable \<Rightarrow> u64 \<Rightarrow> u64 \<Rightarrow> unit option" where
  "u_mustCheckOutOfBounds u lo hi = do {
     _ \<leftarrow> panic_unless (\<not> hi < lo);
     let upper = add64 (u_offset u) (length (u_entries u));
     panic_unless (\<not> (lo < u_offset u \<or> upper < hi))
   }"

definition u_slice :: "unstable \<Rightarrow> u64 \<Rightarrow> u64 \<Rightarrow> Entry list option" where
  "u_slice u lo hi = do {
     _ \<leftarrow> u_mustCheckOutOfBounds u lo hi;
     subslice (u_entries u) (sub64 lo (u_offset u)) (sub64 hi (u_offset u))
   }"

definition u_truncateAndAppend :: "Entry list \<Rightarrow> unstable \<Rightarrow> unstable option" where
  "u_truncateAndAppend ents u = do {
     e0 \<leftarrow> idx ents 0;
     let after = sub64 (EIndex e0) 1;
     if after = sub64 (add64 (u_offset u) (length (u_entries u))) 1
     then Some (u\<lparr>u_entries := u_entries u @ ents\<rparr>)
     else if after < u_offset u
     then Some (u\<lparr>u_offset := add64 after 1, u_entries := ents\<rparr>)
     else do {
       kept \<leftarrow> u_slice u (u_offset u) (add64 after 1);
       Some (u\<lparr>u_entries := kept @ ents\<rparr>)
     }
   }"

section \<open>The log\<close>

record raftLog =
  l_storage :: MemoryStorage
  l_unstable :: unstable
  l_committed :: u64
  l_applied :: u64

definition newLog :: "MemoryStorage \<Rightarrow> raftLog option" where
  "newLog storage = do {
     firstIndex \<leftarrow> ms_firstIndex storage;
     lastIndex \<leftarrow> ms_lastIndex storage;
     Some \<lparr>l_storage = storage,
       l_unstable = \<lparr>u_snapshot = None, u_entries = [], u_offset = add64 lastIndex 1\<rparr>,
       l_committed = sub64 firstIndex 1, l_applied = sub64 firstIndex 1\<rparr>
   }"

definition l_firstIndex :: "raftLog \<Rightarrow> u64 option" where
  "l_firstIndex l =
     (case u_maybeFirstIndex (l_unstable l) of
        Some i \<Rightarrow> Some i
      | None \<Rightarrow> ms_firstIndex (l_storage l))"

definition l_lastIndex :: "raftLog \<Rightarrow> u64 option" where
  "l_lastIndex l =
     (case u_maybeLastIndex (l_unstable l) of
        Some i \<Rightarrow> Some i
      | None \<Rightarrow> ms_lastIndex (l_storage l))"

definition l_term :: "raftLog \<Rightarrow> u64 \<Rightarrow> (storage_err + u64) option" where
  "l_term l i = do {
     fi \<leftarrow> l_firstIndex l;
     let dummyIndex = sub64 fi 1;
     li \<leftarrow> l_lastIndex l;
     if i < dummyIndex \<or> li < i then Some (Inr 0)
     else do {
       ut \<leftarrow> u_maybeTerm (l_unstable l) i;
       (case ut of
          Some t \<Rightarrow> Some (Inr t)
        | None \<Rightarrow> do {
            r \<leftarrow> ms_Term (l_storage l) i;
            (case r of
               Inr t \<Rightarrow> Some (Inr t)
             | Inl e \<Rightarrow> if e = ErrCompacted then Some (Inl e) else None)
          })
     }
   }"

definition l_zeroTermOnErrCompacted :: "storage_err + u64 \<Rightarrow> u64 option" where
  "l_zeroTermOnErrCompacted r =
     (case r of Inr t \<Rightarrow> Some t | Inl e \<Rightarrow> if e = ErrCompacted then Some 0 else None)"

definition l_lastTerm :: "raftLog \<Rightarrow> u64 option" where
  "l_lastTerm l = do {
     li \<leftarrow> l_lastIndex l;
     r \<leftarrow> l_term l li;
     (case r of Inr t \<Rightarrow> Some t | Inl _ \<Rightarrow> None)
   }"

definition l_matchTerm :: "raftLog \<Rightarrow> u64 \<Rightarrow> u64 \<Rightarrow> bool option" where
  "l_matchTerm l i t = do {
     r \<leftarrow> l_term l i;
     (case r of Inl _ \<Rightarrow> Some False | Inr t' \<Rightarrow> Some (t' = t))
   }"

fun l_findConflict :: "raftLog \<Rightarrow> Entry list \<Rightarrow> u64 option" where
  "l_findConflict l [] = Some 0"
| "l_findConflict l (ne # ents) = do {
     m \<leftarrow> l_matchTerm l (EIndex ne) (ETerm ne);
     if \<not> m then Some (EIndex ne) else l_findConflict l ents
   }"

definition l_mustCheckOutOfBounds :: "raftLog \<Rightarrow> u64 \<Rightarrow> u64 \<Rightarrow> (storage_err + unit) option" where
  "l_mustCheckOutOfBounds l lo hi = do {
     _ \<leftarrow> panic_unless (\<not> hi < lo);
     fi \<leftarrow> l_firstIndex l;
     if lo < fi then Some (Inl ErrCompacted)
     else do {
       li \<leftarrow> l_lastIndex l;
       let len = add64 (sub64 li fi) 1;
       _ \<leftarrow> panic_unless (\<not> (lo < fi \<or> add64 fi len < hi));
       Some (Inr ())
     }
   }"

text \<open>The stored entries that \<^verbatim>\<open>slice\<close> starts with; \<open>Inl\<close> is an early return.\<close>

definition l_slice_stored ::
  "raftLog \<Rightarrow> u64 \<Rightarrow> u64 \<Rightarrow> u64 \<Rightarrow> ((storage_err + Entry list) + Entry list) option" where
  "l_slice_stored l lo hi maxSize =
     (if lo < u_offset (l_unstable l)
      then do {
        r \<leftarrow> ms_Entries (l_storage l) lo (min hi (u_offset (l_unstable l))) maxSize;
        (case r of
           Inl e \<Rightarrow> if e = ErrCompacted then Some (Inl (Inl e)) else None
         | Inr storedEnts \<Rightarrow>
             if length storedEnts < sub64 (min hi (u_offset (l_unstable l))) lo
             then Some (Inl (Inr storedEnts))
             else Some (Inr storedEnts))
      }
      else Some (Inr []))"

definition l_slice :: "raftLog \<Rightarrow> u64 \<Rightarrow> u64 \<Rightarrow> u64 \<Rightarrow> (storage_err + Entry list) option" where
  "l_slice l lo hi maxSize = do {
     b \<leftarrow> l_mustCheckOutOfBounds l lo hi;
     (case b of
        Inl e \<Rightarrow> Some (Inl e)
      | Inr _ \<Rightarrow>
          if lo = hi then Some (Inr [])
          else do {
            st \<leftarrow> l_slice_stored l lo hi maxSize;
            (case st of
               Inl r \<Rightarrow> Some r
             | Inr ents \<Rightarrow>
                 if u_offset (l_unstable l) < hi
                 then do {
                   us \<leftarrow> u_slice (l_unstable l) (max lo (u_offset (l_unstable l))) hi;
                   Some (Inr (limitSize (if ents \<noteq> [] then ents @ us else us) maxSize))
                 }
                 else Some (Inr (limitSize ents maxSize)))
          })
   }"

definition l_entries :: "raftLog \<Rightarrow> u64 \<Rightarrow> u64 \<Rightarrow> (storage_err + Entry list) option" where
  "l_entries l i maxsize = do {
     li \<leftarrow> l_lastIndex l;
     if li < i then Some (Inr []) else l_slice l i (add64 li 1) maxsize
   }"

text \<open>On \<open>ErrCompacted\<close> the source tries again; not returning is \<^term>\<open>None\<close>.\<close>

partial_function (option) l_allEntries :: "raftLog \<Rightarrow> Entry list option" where
  "l_allEntries l = Option.bind (l_firstIndex l) (\<lambda>fi.
     Option.bind (l_entries l fi noLimit) (\<lambda>r.
       case r of
         Inr ents \<Rightarrow> Some ents
       | Inl e \<Rightarrow> if e = ErrCompacted then l_allEntries l else None))"

definition l_append :: "Entry list \<Rightarrow> raftLog \<Rightarrow> (raftLog \<times> u64) option" where
  "l_append ents l =
     (if ents = [] then do { li \<leftarrow> l_lastIndex l; Some (l, li) }
      else do {
        let after = sub64 (EIndex (hd ents)) 1;
        _ \<leftarrow> panic_unless (\<not> after < l_committed l);
        u \<leftarrow> u_truncateAndAppend ents (l_unstable l);
        let l = l\<lparr>l_unstable := u\<rparr>;
        li \<leftarrow> l_lastIndex l;
        Some (l, li)
      })"

definition l_commitTo :: "u64 \<Rightarrow> raftLog \<Rightarrow> raftLog option" where
  "l_commitTo tocommit l =
     (if l_committed l < tocommit
      then do {
        li \<leftarrow> l_lastIndex l;
        _ \<leftarrow> panic_unless (\<not> li < tocommit);
        Some (l\<lparr>l_committed := tocommit\<rparr>)
      }
      else Some l)"

text \<open>The second component is \<^verbatim>\<open>(lastnewi, true)\<close> as \<^term>\<open>Some\<close>, \<^verbatim>\<open>(0, false)\<close> as \<^term>\<open>None\<close>.\<close>

definition l_maybeAppend ::
  "u64 \<Rightarrow> u64 \<Rightarrow> u64 \<Rightarrow> Entry list \<Rightarrow> raftLog \<Rightarrow> (raftLog \<times> u64 option) option" where
  "l_maybeAppend index logTerm committed ents l = do {
     let lastnewi = add64 index (length ents);
     m \<leftarrow> l_matchTerm l index logTerm;
     if m then do {
       ci \<leftarrow> l_findConflict l ents;
       l \<leftarrow> (if ci = 0 then Some l
             else if ci \<le> l_committed l then None
             else do {
               let offset = add64 index 1;
               new \<leftarrow> subslice ents (sub64 ci offset) (length ents);
               r \<leftarrow> l_append new l;
               Some (fst r)
             });
       l \<leftarrow> l_commitTo (min committed lastnewi) l;
       Some (l, Some lastnewi)
     }
     else Some (l, None)
   }"

definition l_unstableEntries :: "raftLog \<Rightarrow> Entry list" where
  "l_unstableEntries l = u_entries (l_unstable l)"

definition l_nextEnts :: "raftLog \<Rightarrow> Entry list option" where
  "l_nextEnts l = do {
     fi \<leftarrow> l_firstIndex l;
     let off = max (add64 (l_applied l) 1) fi;
     if off < add64 (l_committed l) 1
     then do {
       r \<leftarrow> l_slice l off (add64 (l_committed l) 1) noLimit;
       (case r of Inl _ \<Rightarrow> None | Inr ents \<Rightarrow> Some ents)
     }
     else Some []
   }"

definition l_hasNextEnts :: "raftLog \<Rightarrow> bool option" where
  "l_hasNextEnts l = do {
     fi \<leftarrow> l_firstIndex l;
     let off = max (add64 (l_applied l) 1) fi;
     Some (off < add64 (l_committed l) 1)
   }"

definition l_snapshot :: "raftLog \<Rightarrow> storage_err + Snapshot" where
  "l_snapshot l =
     (case u_snapshot (l_unstable l) of
        Some s \<Rightarrow> Inr s
      | None \<Rightarrow> ms_Snapshot (l_storage l))"

definition l_appliedTo :: "u64 \<Rightarrow> raftLog \<Rightarrow> raftLog option" where
  "l_appliedTo i l =
     (if i = 0 then Some l
      else if l_committed l < i \<or> i < l_applied l then None
      else Some (l\<lparr>l_applied := i\<rparr>))"

definition l_stableTo :: "u64 \<Rightarrow> u64 \<Rightarrow> raftLog \<Rightarrow> raftLog option" where
  "l_stableTo i t l = do {
     u \<leftarrow> u_stableTo i t (l_unstable l);
     Some (l\<lparr>l_unstable := u\<rparr>)
   }"

definition l_stableSnapTo :: "u64 \<Rightarrow> raftLog \<Rightarrow> raftLog" where
  "l_stableSnapTo i l = l\<lparr>l_unstable := u_stableSnapTo i (l_unstable l)\<rparr>"

definition l_isUpToDate :: "raftLog \<Rightarrow> u64 \<Rightarrow> u64 \<Rightarrow> bool option" where
  "l_isUpToDate l lasti t = do {
     lt \<leftarrow> l_lastTerm l;
     li \<leftarrow> l_lastIndex l;
     Some (t > lt \<or> (t = lt \<and> lasti \<ge> li))
   }"

definition l_maybeCommit :: "u64 \<Rightarrow> u64 \<Rightarrow> raftLog \<Rightarrow> (raftLog \<times> bool) option" where
  "l_maybeCommit maxIndex t l =
     (if l_committed l < maxIndex
      then do {
        r \<leftarrow> l_term l maxIndex;
        mt \<leftarrow> l_zeroTermOnErrCompacted r;
        if mt = t
        then do { l \<leftarrow> l_commitTo maxIndex l; Some (l, True) }
        else Some (l, False)
      }
      else Some (l, False))"

definition l_restore :: "Snapshot \<Rightarrow> raftLog \<Rightarrow> raftLog" where
  "l_restore s l = l\<lparr>l_committed := snap_index s, l_unstable := u_restore s (l_unstable l)\<rparr>"

end
