(* ===== verification/Raft_Progress.thy ===== *)
theory Raft_Progress
  imports Etcd_Prelude
begin

text \<open>
  \<^verbatim>\<open>raft/progress.go\<close>: the sliding window of in-flight append messages (a ring buffer) and
  the leader's record of a follower's progress.  The window is specified by the locale
  \<open>bounded_window\<close>, a bounded queue of indexes; the ring buffer is an instance of it.
\<close>

section \<open>In-flight messages\<close>

record inflights =
  in_start :: nat
  in_count :: nat
  in_size :: nat
  in_buffer :: "u64 list"

definition newInflights :: "nat \<Rightarrow> inflights" where
  "newInflights sz = \<lparr>in_start = 0, in_count = 0, in_size = sz, in_buffer = replicate sz 0\<rparr>"

definition in_full :: "inflights \<Rightarrow> bool" where
  "in_full ins \<longleftrightarrow> in_count ins = in_size ins"

definition in_add :: "u64 \<Rightarrow> inflights \<Rightarrow> inflights option" where
  "in_add inflight ins =
     (if in_full ins then None
      else do {
        let nxt = in_start ins + in_count ins;
        let nxt = (if in_size ins \<le> nxt then nxt - in_size ins else nxt);
        _ \<leftarrow> panic_unless (nxt < length (in_buffer ins));
        Some (ins\<lparr>in_buffer := (in_buffer ins)[nxt := inflight], in_count := in_count ins + 1\<rparr>)
      })"

text \<open>The loop of \<^verbatim>\<open>freeTo\<close>: \<open>n\<close> iterations are left, \<open>k\<close> is the buffer index, \<open>i\<close> the counter.\<close>

fun in_freeLoop :: "u64 \<Rightarrow> inflights \<Rightarrow> nat \<Rightarrow> nat \<Rightarrow> nat \<Rightarrow> (nat \<times> nat) option" where
  "in_freeLoop to ins 0 k i = Some (i, k)"
| "in_freeLoop to ins (Suc n) k i = do {
     b \<leftarrow> idx (in_buffer ins) k;
     if to < b then Some (i, k)
     else in_freeLoop to ins n (if in_size ins \<le> k + 1 then k + 1 - in_size ins else k + 1) (i + 1)
   }"

definition in_freeTo :: "u64 \<Rightarrow> inflights \<Rightarrow> inflights option" where
  "in_freeTo to ins =
     (if in_count ins = 0 then Some ins
      else do {
        b \<leftarrow> idx (in_buffer ins) (in_start ins);
        if to < b then Some ins
        else do {
          r \<leftarrow> in_freeLoop to ins (in_count ins) (in_start ins) 0;
          Some (ins\<lparr>in_count := in_count ins - fst r, in_start := snd r\<rparr>)
        }
      })"

definition in_freeFirstOne :: "inflights \<Rightarrow> inflights option" where
  "in_freeFirstOne ins = do {
     b \<leftarrow> idx (in_buffer ins) (in_start ins);
     in_freeTo b ins
   }"

definition in_reset :: "inflights \<Rightarrow> inflights" where
  "in_reset ins = ins\<lparr>in_count := 0, in_start := 0\<rparr>"

section \<open>Progress\<close>

datatype ProgressStateType = ProgressStateProbe | ProgressStateReplicate | ProgressStateSnapshot

record Progress =
  p_Match :: u64
  p_Next :: u64
  p_State :: ProgressStateType
  p_Paused :: bool
  p_PendingSnapshot :: u64
  p_RecentActive :: bool
  p_ins :: inflights

definition newProgress :: "u64 \<Rightarrow> u64 \<Rightarrow> nat \<Rightarrow> Progress" where
  "newProgress mat nxt maxInflight = \<lparr>p_Match = mat, p_Next = nxt,
     p_State = ProgressStateProbe, p_Paused = False, p_PendingSnapshot = 0,
     p_RecentActive = False, p_ins = newInflights maxInflight\<rparr>"

definition p_resetState :: "ProgressStateType \<Rightarrow> Progress \<Rightarrow> Progress" where
  "p_resetState state pr = pr\<lparr>p_Paused := False, p_RecentActive := False, p_PendingSnapshot := 0,
     p_State := state, p_ins := in_reset (p_ins pr)\<rparr>"

definition p_becomeProbe :: "Progress \<Rightarrow> Progress" where
  "p_becomeProbe pr =
     (if p_State pr = ProgressStateSnapshot
      then let pendingSnapshot = p_PendingSnapshot pr;
               pr = p_resetState ProgressStateProbe pr
           in pr\<lparr>p_Next := max (add64 (p_Match pr) 1) (add64 pendingSnapshot 1)\<rparr>
      else let pr = p_resetState ProgressStateProbe pr
           in pr\<lparr>p_Next := add64 (p_Match pr) 1\<rparr>)"

definition p_becomeReplicate :: "Progress \<Rightarrow> Progress" where
  "p_becomeReplicate pr =
     (let pr = p_resetState ProgressStateReplicate pr
      in pr\<lparr>p_Next := add64 (p_Match pr) 1\<rparr>)"

definition p_becomeSnapshot :: "u64 \<Rightarrow> Progress \<Rightarrow> Progress" where
  "p_becomeSnapshot snapshoti pr =
     (p_resetState ProgressStateSnapshot pr)\<lparr>p_PendingSnapshot := snapshoti\<rparr>"

definition p_pause :: "Progress \<Rightarrow> Progress" where
  "p_pause pr = pr\<lparr>p_Paused := True\<rparr>"

definition p_resume :: "Progress \<Rightarrow> Progress" where
  "p_resume pr = pr\<lparr>p_Paused := False\<rparr>"

definition p_maybeUpdate :: "u64 \<Rightarrow> Progress \<Rightarrow> Progress \<times> bool" where
  "p_maybeUpdate n pr =
     (let updated = (p_Match pr < n);
          pr = (if updated then p_resume (pr\<lparr>p_Match := n\<rparr>) else pr);
          pr = (if p_Next pr < add64 n 1 then pr\<lparr>p_Next := add64 n 1\<rparr> else pr)
      in (pr, updated))"

definition p_optimisticUpdate :: "u64 \<Rightarrow> Progress \<Rightarrow> Progress" where
  "p_optimisticUpdate n pr = pr\<lparr>p_Next := add64 n 1\<rparr>"

definition p_maybeDecrTo :: "u64 \<Rightarrow> u64 \<Rightarrow> Progress \<Rightarrow> Progress \<times> bool" where
  "p_maybeDecrTo rejected lasti pr =
     (if p_State pr = ProgressStateReplicate
      then if rejected \<le> p_Match pr then (pr, False)
           else (pr\<lparr>p_Next := add64 (p_Match pr) 1\<rparr>, True)
      else if sub64 (p_Next pr) 1 \<noteq> rejected then (pr, False)
      else let nxt = min rejected (add64 lasti 1);
               nxt = (if nxt < 1 then 1 else nxt)
           in (p_resume (pr\<lparr>p_Next := nxt\<rparr>), True))"

definition p_isPaused :: "Progress \<Rightarrow> bool" where
  "p_isPaused pr =
     (case p_State pr of
        ProgressStateProbe \<Rightarrow> p_Paused pr
      | ProgressStateReplicate \<Rightarrow> in_full (p_ins pr)
      | ProgressStateSnapshot \<Rightarrow> True)"

definition p_snapshotFailure :: "Progress \<Rightarrow> Progress" where
  "p_snapshotFailure pr = pr\<lparr>p_PendingSnapshot := 0\<rparr>"

definition p_maybeSnapshotAbort :: "Progress \<Rightarrow> bool" where
  "p_maybeSnapshotAbort pr \<longleftrightarrow>
     p_State pr = ProgressStateSnapshot \<and> p_PendingSnapshot pr \<le> p_Match pr"

section \<open>The window as a bounded queue\<close>

locale bounded_window =
  fixes inv :: "'w \<Rightarrow> bool"
    and content :: "'w \<Rightarrow> u64 list"
    and capacity :: "'w \<Rightarrow> nat"
    and full :: "'w \<Rightarrow> bool"
    and add :: "u64 \<Rightarrow> 'w \<Rightarrow> 'w option"
    and freeTo :: "u64 \<Rightarrow> 'w \<Rightarrow> 'w option"
  assumes bounded: "inv w \<Longrightarrow> length (content w) \<le> capacity w"
    and full_iff: "inv w \<Longrightarrow> full w \<longleftrightarrow> length (content w) = capacity w"
    and add_full: "inv w \<Longrightarrow> full w \<Longrightarrow> add x w = None"
    and add_room: "inv w \<Longrightarrow> \<not> full w \<Longrightarrow>
      \<exists>w'. add x w = Some w' \<and> inv w' \<and> content w' = content w @ [x] \<and> capacity w' = capacity w"
    and freeTo_content: "inv w \<Longrightarrow>
      \<exists>w'. freeTo x w = Some w' \<and> inv w' \<and> content w' = dropWhile (\<lambda>y. y \<le> x) (content w) \<and>
        capacity w' = capacity w"
begin

lemma dropWhile_increasing:
  "sorted_wrt (<) xs \<Longrightarrow> dropWhile (\<lambda>y. y \<le> x) xs = filter (\<lambda>y. x < y) xs" for xs :: "u64 list"
proof (induction xs)
  case (Cons y ys)
  show ?case
  proof (cases "y \<le> x")
    case True
    with Cons show ?thesis by simp
  next
    case False
    then have "\<forall>z \<in> set ys. x < z" using Cons.prems by auto
    with False show ?thesis by (simp add: filter_True)
  qed
qed simp

text \<open>
  Indexes are added in increasing order, so freeing up to an index keeps exactly the larger
  ones, and a window that was full has room again once its first index is freed.
\<close>

lemma freeTo_increasing:
  assumes "inv w" "sorted_wrt (<) (content w)" "freeTo x w = Some w'"
  shows "content w' = filter (\<lambda>y. x < y) (content w)" "sorted_wrt (<) (content w')" "inv w'"
  using freeTo_content [OF assms(1), of x] assms dropWhile_increasing [OF assms(2)]
  by (auto intro: sorted_wrt_filter)

lemma freeTo_first_room:
  assumes "inv w" "content w = x # xs" "freeTo x w = Some w'"
  shows "\<not> full w'"
proof -
  from freeTo_content [OF assms(1), of x] assms(3)
  have w': "inv w'" "content w' = dropWhile (\<lambda>y. y \<le> x) (content w)" "capacity w' = capacity w" by auto
  have "length (content w') \<le> length xs"
    using w'(2) assms(2) by (simp add: length_dropWhile_le)
  also have "\<dots> < capacity w" using bounded [OF assms(1)] assms(2) by simp
  finally show ?thesis using full_iff [OF w'(1)] w'(3) by simp
qed

lemma add_increasing:
  assumes "inv w" "sorted_wrt (<) (content w)" "\<forall>y \<in> set (content w). y < x" "add x w = Some w'"
  shows "sorted_wrt (<) (content w')" "inv w'"
proof -
  have "\<not> full w" using add_full [OF assms(1)] assms(4) by force
  from add_room [OF assms(1) this, of x] assms(4)
  have w': "inv w'" "content w' = content w @ [x]" by auto
  show "inv w'" by (rule w')
  show "sorted_wrt (<) (content w')" using assms(2,3) w'(2) by (simp add: sorted_wrt_append)
qed

end

definition in_pos :: "inflights \<Rightarrow> nat \<Rightarrow> nat" where
  "in_pos ins j = (let k = in_start ins + j in if in_size ins \<le> k then k - in_size ins else k)"

definition in_content :: "inflights \<Rightarrow> u64 list" where
  "in_content ins = map (\<lambda>j. in_buffer ins ! in_pos ins j) [0..<in_count ins]"

definition in_inv :: "inflights \<Rightarrow> bool" where
  "in_inv ins \<longleftrightarrow> length (in_buffer ins) = in_size ins \<and> in_start ins < in_size ins \<and>
     in_count ins \<le> in_size ins"

lemma in_inv_new: "0 < n \<Longrightarrow> in_inv (newInflights n) \<and> in_content (newInflights n) = []"
  by (simp add: in_inv_def newInflights_def in_content_def)

lemma in_inv_reset [simp]: "in_inv ins \<Longrightarrow> in_inv (in_reset ins)"
  by (auto simp: in_inv_def in_reset_def)

lemma in_content_reset [simp]: "in_content (in_reset ins) = []"
  by (simp add: in_content_def in_reset_def)

lemma in_full_iff: "in_full ins \<longleftrightarrow> length (in_content ins) = in_size ins"
  by (simp add: in_full_def in_content_def)

lemma in_pos_upd [simp]:
  "in_pos (ins\<lparr>in_buffer := b, in_count := c\<rparr>) j = in_pos ins j"
  by (simp add: in_pos_def Let_def)

lemma in_pos_bound: "in_inv ins \<Longrightarrow> j \<le> in_size ins \<Longrightarrow> in_pos ins j < in_size ins"
  by (auto simp: in_inv_def in_pos_def Let_def)

lemma in_pos_inj:
  "in_inv ins \<Longrightarrow> j < in_size ins \<Longrightarrow> k < in_size ins \<Longrightarrow> in_pos ins j = in_pos ins k \<Longrightarrow> j = k"
  by (auto simp: in_inv_def in_pos_def Let_def split: if_splits)

lemma in_add_content:
  assumes "in_inv ins" "\<not> in_full ins"
  shows "\<exists>ins'. in_add x ins = Some ins' \<and> in_inv ins' \<and> in_content ins' = in_content ins @ [x] \<and>
    in_size ins' = in_size ins"
proof -
  let ?p = "in_pos ins (in_count ins)"
  let ?i = "ins\<lparr>in_buffer := (in_buffer ins)[?p := x], in_count := in_count ins + 1\<rparr>"
  have c: "in_count ins < in_size ins" using assms by (simp add: in_inv_def in_full_def)
  have p: "?p < length (in_buffer ins)" using in_pos_bound [OF assms(1)] c assms(1)
    by (simp add: in_inv_def)
  have "in_add x ins = Some ?i"
    using assms(2) p by (auto simp: in_add_def in_pos_def Let_def)
  moreover have "in_inv ?i" using assms(1) c by (simp add: in_inv_def)
  moreover have "in_content ?i = in_content ins @ [x]"
  proof -
    have "?p \<noteq> in_pos ins j" if "j < in_count ins" for j
      using in_pos_inj [OF assms(1), of j "in_count ins"] that c by auto
    with p show ?thesis by (simp add: in_content_def)
  qed
  ultimately show ?thesis by auto
qed

lemma in_freeLoop_content:
  assumes "in_inv ins" "n + i = in_count ins"
  shows "\<exists>m. in_freeLoop to ins n (in_pos ins i) i = Some (i + m, in_pos ins (i + m)) \<and> m \<le> n \<and>
    drop m (map (\<lambda>j. in_buffer ins ! in_pos ins j) [i..<in_count ins]) =
    dropWhile (\<lambda>y. y \<le> to) (map (\<lambda>j. in_buffer ins ! in_pos ins j) [i..<in_count ins])"
  using assms(2)
proof (induction n arbitrary: i)
  case 0
  then show ?case by simp
next
  case (Suc n)
  let ?b = "in_buffer ins ! in_pos ins i"
  have i: "i < in_count ins" using Suc.prems by simp
  then have up: "[i..<in_count ins] = i # [Suc i..<in_count ins]" by (rule upt_conv_Cons)
  have "in_pos ins i < length (in_buffer ins)"
    using in_pos_bound [OF assms(1), of i] i assms(1) by (simp add: in_inv_def)
  then have rd: "idx (in_buffer ins) (in_pos ins i) = Some ?b" by simp
  show ?case
  proof (cases "to < ?b")
    case True
    then show ?thesis using rd up by (intro exI [of _ 0]) simp
  next
    case False
    have nxt: "(if in_size ins \<le> in_pos ins i + 1 then in_pos ins i + 1 - in_size ins
        else in_pos ins i + 1) = in_pos ins (Suc i)"
      using assms(1) i by (auto simp: in_inv_def in_pos_def Let_def split: if_splits)
    from Suc.IH [of "Suc i"] Suc.prems obtain m
      where "in_freeLoop to ins n (in_pos ins (Suc i)) (Suc i) = Some (Suc i + m, in_pos ins (Suc i + m))"
        "m \<le> n" "drop m (map (\<lambda>j. in_buffer ins ! in_pos ins j) [Suc i..<in_count ins]) =
          dropWhile (\<lambda>y. y \<le> to) (map (\<lambda>j. in_buffer ins ! in_pos ins j) [Suc i..<in_count ins])"
      by auto
    with False rd up nxt show ?thesis by (intro exI [of _ "Suc m"]) simp
  qed
qed

lemma in_freeTo_content:
  assumes "in_inv ins"
  shows "\<exists>ins'. in_freeTo to ins = Some ins' \<and> in_inv ins' \<and>
    in_content ins' = dropWhile (\<lambda>y. y \<le> to) (in_content ins) \<and> in_size ins' = in_size ins"
proof (cases "in_count ins = 0")
  case True
  then show ?thesis using assms by (simp add: in_freeTo_def in_content_def)
next
  case False
  have p0: "in_pos ins 0 = in_start ins" using assms by (simp add: in_pos_def in_inv_def)
  have rd: "idx (in_buffer ins) (in_start ins) = Some (in_buffer ins ! in_start ins)"
    using assms by (simp add: in_inv_def)
  have up: "in_content ins = in_buffer ins ! in_start ins #
      map (\<lambda>j. in_buffer ins ! in_pos ins j) [Suc 0..<in_count ins]"
    using False p0 by (simp add: in_content_def upt_conv_Cons)
  show ?thesis
  proof (cases "to < in_buffer ins ! in_start ins")
    case True
    then show ?thesis using False rd up assms by (simp add: in_freeTo_def)
  next
    case nb: False
    from in_freeLoop_content [OF assms, of "in_count ins" 0 to] p0 obtain m
      where m: "in_freeLoop to ins (in_count ins) (in_start ins) 0 = Some (m, in_pos ins m)"
        "m \<le> in_count ins" "drop m (in_content ins) = dropWhile (\<lambda>y. y \<le> to) (in_content ins)"
      by (auto simp: in_content_def)
    let ?i = "ins\<lparr>in_count := in_count ins - m, in_start := in_pos ins m\<rparr>"
    have ms: "m \<le> in_size ins" using m(2) assms by (simp add: in_inv_def)
    have "in_pos ?i j = in_pos ins (m + j)" if "j < in_count ins - m" for j
      using that assms ms by (auto simp: in_pos_def Let_def in_inv_def)
    then have "in_content ?i = drop m (in_content ins)"
      by (auto simp: in_content_def drop_map intro!: nth_equalityI)
    moreover have "in_inv ?i"
      using assms in_pos_bound [OF assms ms] by (auto simp: in_inv_def)
    ultimately show ?thesis using False nb rd m by (auto simp: in_freeTo_def)
  qed
qed

interpretation win: bounded_window in_inv in_content in_size in_full in_add in_freeTo
proof unfold_locales
  show "in_inv w \<Longrightarrow> length (in_content w) \<le> in_size w" for w
    by (simp add: in_inv_def in_content_def)
  show "in_inv w \<Longrightarrow> in_full w = (length (in_content w) = in_size w)" for w
    by (rule in_full_iff)
  show "in_inv w \<Longrightarrow> in_full w \<Longrightarrow> in_add x w = None" for w x
    by (simp add: in_add_def)
  show "in_inv w \<Longrightarrow> \<not> in_full w \<Longrightarrow> \<exists>w'. in_add x w = Some w' \<and> in_inv w' \<and>
      in_content w' = in_content w @ [x] \<and> in_size w' = in_size w" for w x
    by (rule in_add_content)
  show "in_inv w \<Longrightarrow> \<exists>w'. in_freeTo x w = Some w' \<and> in_inv w' \<and>
      in_content w' = dropWhile (\<lambda>y. y \<le> x) (in_content w) \<and> in_size w' = in_size w" for w x
    by (rule in_freeTo_content)
qed

section \<open>Invariant of a progress\<close>

text \<open>
  The next index to send lies after the matched one, and the window holds increasing
  indexes below it.
\<close>

definition pr_inv :: "Progress \<Rightarrow> bool" where
  "pr_inv pr \<longleftrightarrow> in_inv (p_ins pr) \<and> p_Match pr < p_Next pr \<and> p_Next pr \<le> max_u64 \<and>
     p_PendingSnapshot pr < max_u64 \<and>
     sorted_wrt (<) (in_content (p_ins pr)) \<and> (\<forall>y \<in> set (in_content (p_ins pr)). y < p_Next pr)"

lemma pr_inv_new:
  "0 < n \<Longrightarrow> mat < nxt \<Longrightarrow> nxt \<le> max_u64 \<Longrightarrow> pr_inv (newProgress mat nxt n)"
  by (simp add: pr_inv_def newProgress_def in_inv_new)

lemma pr_inv_becomeProbe: "pr_inv pr \<Longrightarrow> pr_inv (p_becomeProbe pr)"
  by (auto simp: pr_inv_def p_becomeProbe_def p_resetState_def u64_simps Let_def less_Suc_eq_le)

lemma pr_inv_becomeReplicate: "pr_inv pr \<Longrightarrow> pr_inv (p_becomeReplicate pr)"
  by (simp add: pr_inv_def p_becomeReplicate_def p_resetState_def u64_simps)

lemma pr_inv_becomeSnapshot: "pr_inv pr \<Longrightarrow> i < max_u64 \<Longrightarrow> pr_inv (p_becomeSnapshot i pr)"
  by (simp add: pr_inv_def p_becomeSnapshot_def p_resetState_def)

lemma pr_inv_maybeUpdate: "pr_inv pr \<Longrightarrow> n < max_u64 \<Longrightarrow> pr_inv (fst (p_maybeUpdate n pr))"
  by (auto simp: pr_inv_def p_maybeUpdate_def p_resume_def u64_simps Let_def)

lemma pr_inv_pause [simp]: "pr_inv (p_pause pr) = pr_inv pr"
  and pr_inv_resume [simp]: "pr_inv (p_resume pr) = pr_inv pr"
  and pr_inv_active [simp]: "pr_inv (pr\<lparr>p_RecentActive := b\<rparr>) = pr_inv pr"
  by (simp_all add: pr_inv_def p_pause_def p_resume_def)

lemma pr_inv_snapshotFailure: "pr_inv pr \<Longrightarrow> pr_inv (p_snapshotFailure pr)"
  by (simp add: pr_inv_def p_snapshotFailure_def)

lemma pr_inv_freeTo: "pr_inv pr \<Longrightarrow> in_freeTo x (p_ins pr) = Some ins \<Longrightarrow> pr_inv (pr\<lparr>p_ins := ins\<rparr>)"
  using win.freeTo_increasing [of "p_ins pr" x ins] by (auto simp: pr_inv_def)

text \<open>Sending entries up to \<open>n\<close> in the replicating state.\<close>

lemma pr_inv_send:
  assumes "pr_inv pr" "p_Next pr \<le> n" "n < max_u64" "in_add n (p_ins pr) = Some ins"
  shows "pr_inv ((p_optimisticUpdate n pr)\<lparr>p_ins := ins\<rparr>)"
proof -
  have lt: "\<forall>y \<in> set (in_content (p_ins pr)). y < n" using assms(1,2) by (auto simp: pr_inv_def)
  have nf: "\<not> in_full (p_ins pr)" using assms(4) by (auto simp: in_add_def)
  have i: "in_inv (p_ins pr)" using assms(1) by (simp add: pr_inv_def)
  from win.add_room [OF i nf, of n] assms(4) have c: "in_content ins = in_content (p_ins pr) @ [n]" by auto
  with win.add_increasing [OF i _ lt assms(4)] assms lt show ?thesis
    by (auto simp: pr_inv_def p_optimisticUpdate_def u64_simps)
qed

text \<open>
  A rejection that is not stale moves the next index back, never below the matched index,
  when the rejected index and the follower's last index lie at or after the match.
\<close>

lemma p_maybeDecrTo_next:
  assumes "pr_inv pr" "p_Match pr < rejected" "p_Match pr \<le> lasti" "lasti < max_u64"
    "p_maybeDecrTo rejected lasti pr = (pr', True)"
  shows "p_Match pr' = p_Match pr" "p_Match pr' < p_Next pr'" "p_Next pr' \<le> p_Next pr"
    "p_State pr = ProgressStateReplicate \<or> p_Next pr' < p_Next pr"
  using assms
  by (auto simp: pr_inv_def p_maybeDecrTo_def p_resume_def u64_simps Let_def split: if_splits)

end
