(* ===== verification/Raft_Core.thy ===== *)
theory Raft_Core
  imports Raft_Log Raft_Progress
begin

text \<open>
  The raft state machine of \<^verbatim>\<open>raft/raft.go\<close>, one definition per method.  A method that may
  panic returns an option.  The pseudo-random number that \<^verbatim>\<open>isElectionTimeout\<close> draws is an
  argument of the tick.  The function fields \<^verbatim>\<open>step\<close> and \<^verbatim>\<open>tick\<close> are values of enumeration
  types.  Log messages to the logger are left out.
\<close>

section \<open>Configuration and state\<close>

abbreviation NoNode :: u64 where
  "NoNode \<equiv> 0"

datatype StateType = StateFollower | StateCandidate | StateLeader

datatype stepFunc = StepFollower | StepCandidate | StepLeader

datatype tickFunc = TickElection | TickHeartbeat

record Config =
  c_ID :: u64
  c_peers :: "u64 list"
  c_ElectionTick :: int
  c_HeartbeatTick :: int
  c_Storage :: "MemoryStorage option"
  c_Applied :: u64
  c_MaxSizePerMsg :: u64
  c_MaxInflightMsgs :: int
  c_CheckQuorum :: bool

datatype config_err = CannotUseNoneAsId | HeartbeatTickTooSmall | ElectionTickTooSmall
  | StorageNil | MaxInflightTooSmall

definition c_validate :: "Config \<Rightarrow> config_err + unit" where
  "c_validate c =
     (if c_ID c = NoNode then Inl CannotUseNoneAsId
      else if c_HeartbeatTick c \<le> 0 then Inl HeartbeatTickTooSmall
      else if c_ElectionTick c \<le> c_HeartbeatTick c then Inl ElectionTickTooSmall
      else if c_Storage c = None then Inl StorageNil
      else if c_MaxInflightMsgs c \<le> 0 then Inl MaxInflightTooSmall
      else Inr ())"

record raft =
  r_id :: u64
  r_Term :: u64
  r_Vote :: u64
  r_raftLog :: raftLog
  r_maxInflight :: nat
  r_maxMsgSize :: u64
  r_prs :: "(u64 \<times> Progress) list"
  r_state :: StateType
  r_votes :: "(u64 \<times> bool) list"
  r_msgs :: "Message list"
  r_lead :: u64
  r_pendingConf :: bool
  r_electionElapsed :: nat
  r_heartbeatElapsed :: nat
  r_checkQuorum :: bool
  r_heartbeatTimeout :: nat
  r_electionTimeout :: nat
  r_tick :: tickFunc
  r_step :: stepFunc

record SoftState =
  ss_Lead :: u64
  ss_RaftState :: StateType

definition hasLeader :: "raft \<Rightarrow> bool" where
  "hasLeader r \<longleftrightarrow> r_lead r \<noteq> NoNode"

definition softState :: "raft \<Rightarrow> SoftState" where
  "softState r = \<lparr>ss_Lead = r_lead r, ss_RaftState = r_state r\<rparr>"

definition hardState :: "raft \<Rightarrow> HardState" where
  "hardState r = \<lparr>HTerm = r_Term r, HVote = r_Vote r, HCommit = l_committed (r_raftLog r)\<rparr>"

definition quorum :: "raft \<Rightarrow> nat" where
  "quorum r = length (r_prs r) div 2 + 1"

definition nodes :: "raft \<Rightarrow> u64 list" where
  "nodes r = sort (map fst (r_prs r))"

definition r_lastIndex :: "raft \<Rightarrow> u64 option" where
  "r_lastIndex r = l_lastIndex (r_raftLog r)"

definition put_pr :: "u64 \<Rightarrow> Progress \<Rightarrow> raft \<Rightarrow> raft" where
  "put_pr i pr r = r\<lparr>r_prs := AList.update i pr (r_prs r)\<rparr>"

section \<open>Sending\<close>

definition send :: "Message \<Rightarrow> raft \<Rightarrow> raft" where
  "send m r =
     (let m = m\<lparr>MFrom := r_id r\<rparr>;
          m = (if MType m \<noteq> MsgProp then m\<lparr>MTerm := r_Term r\<rparr> else m)
      in r\<lparr>r_msgs := r_msgs r @ [m]\<rparr>)"

definition IsEmptySnap :: "Snapshot \<Rightarrow> bool" where
  "IsEmptySnap sp \<longleftrightarrow> snap_index sp = 0"

definition sendSnapshot :: "u64 \<Rightarrow> Progress \<Rightarrow> raft \<Rightarrow> raft option" where
  "sendSnapshot to pr r =
     (if \<not> p_RecentActive pr then Some r
      else case l_snapshot (r_raftLog r) of
        Inl e \<Rightarrow> if e = ErrSnapshotTemporarilyUnavailable then Some r else None
      | Inr snapshot \<Rightarrow>
          if IsEmptySnap snapshot then None
          else Some (send (zero_message\<lparr>MTo := to, MType := MsgSnap, MSnapshot := snapshot\<rparr>)
                      (put_pr to (p_becomeSnapshot (snap_index snapshot) pr) r)))"

definition sendAppend :: "u64 \<Rightarrow> raft \<Rightarrow> raft option" where
  "sendAppend to r = do {
     pr \<leftarrow> map_of (r_prs r) to;
     if p_isPaused pr then Some r
     else do {
       rt \<leftarrow> l_term (r_raftLog r) (sub64 (p_Next pr) 1);
       re \<leftarrow> l_entries (r_raftLog r) (p_Next pr) (r_maxMsgSize r);
       (case (rt, re) of
          (Inr t, Inr ents) \<Rightarrow> do {
            pr' \<leftarrow> (if ents = [] then Some pr
                   else case p_State pr of
                     ProgressStateReplicate \<Rightarrow> do {
                       ins \<leftarrow> in_add (EIndex (last ents)) (p_ins pr);
                       Some ((p_optimisticUpdate (EIndex (last ents)) pr)\<lparr>p_ins := ins\<rparr>)
                     }
                   | ProgressStateProbe \<Rightarrow> Some (p_pause pr)
                   | ProgressStateSnapshot \<Rightarrow> None);
            Some (send (zero_message\<lparr>MTo := to, MType := MsgApp, MIndex := sub64 (p_Next pr) 1,
                          MLogTerm := t, MEntries := ents, MCommit := l_committed (r_raftLog r)\<rparr>)
                    (put_pr to pr' r))
          }
        | _ \<Rightarrow> sendSnapshot to pr r)
     }
   }"

definition sendHeartbeat :: "u64 \<Rightarrow> raft \<Rightarrow> raft option" where
  "sendHeartbeat to r = do {
     pr \<leftarrow> map_of (r_prs r) to;
     let commit = min (p_Match pr) (l_committed (r_raftLog r));
     Some (send (zero_message\<lparr>MTo := to, MType := MsgHeartbeat, MCommit := commit\<rparr>) r)
   }"

definition bcastAppend :: "raft \<Rightarrow> raft option" where
  "bcastAppend r =
     ofold (\<lambda>i r. if i = r_id r then Some r else sendAppend i r) (map fst (r_prs r)) r"

definition bcastHeartbeat :: "raft \<Rightarrow> raft option" where
  "bcastHeartbeat r =
     ofold (\<lambda>i r. if i = r_id r then Some r
        else do {
          r \<leftarrow> sendHeartbeat i r;
          pr \<leftarrow> map_of (r_prs r) i;
          Some (put_pr i (p_resume pr) r)
        }) (map fst (r_prs r)) r"

definition maybeCommit :: "raft \<Rightarrow> (raft \<times> bool) option" where
  "maybeCommit r = do {
     let mis = map (\<lambda>(i, pr). p_Match pr) (r_prs r);
     mci \<leftarrow> idx (rev (sort mis)) (quorum r - 1);
     res \<leftarrow> l_maybeCommit mci (r_Term r) (r_raftLog r);
     Some (r\<lparr>r_raftLog := fst res\<rparr>, snd res)
   }"

section \<open>State changes\<close>

definition reset :: "u64 \<Rightarrow> raft \<Rightarrow> raft option" where
  "reset t r = do {
     let r = (if r_Term r \<noteq> t then r\<lparr>r_Term := t, r_Vote := NoNode\<rparr> else r);
     let r = r\<lparr>r_lead := NoNode, r_electionElapsed := 0, r_heartbeatElapsed := 0, r_votes := []\<rparr>;
     prs \<leftarrow> ofold (\<lambda>i prs. do {
         li \<leftarrow> r_lastIndex r;
         let mat = (if i = r_id r then li else 0);
         Some (AList.update i (newProgress mat (add64 li 1) (r_maxInflight r)) prs)
       }) (map fst (r_prs r)) (r_prs r);
     Some (r\<lparr>r_prs := prs, r_pendingConf := False\<rparr>)
   }"

text \<open>The term and index that \<^verbatim>\<open>appendEntry\<close> writes into the entries.\<close>

fun stamp_entries :: "u64 \<Rightarrow> u64 \<Rightarrow> Entry list \<Rightarrow> Entry list" where
  "stamp_entries t i [] = []"
| "stamp_entries t i (e # es) = e\<lparr>ETerm := t, EIndex := i\<rparr> # stamp_entries t (add64 i 1) es"

definition appendEntry :: "Entry list \<Rightarrow> raft \<Rightarrow> raft option" where
  "appendEntry es r = do {
     li \<leftarrow> r_lastIndex r;
     let es = stamp_entries (r_Term r) (add64 li 1) es;
     res \<leftarrow> l_append es (r_raftLog r);
     let r = r\<lparr>r_raftLog := fst res\<rparr>;
     pr \<leftarrow> map_of (r_prs r) (r_id r);
     li \<leftarrow> r_lastIndex r;
     let r = put_pr (r_id r) (fst (p_maybeUpdate li pr)) r;
     res \<leftarrow> maybeCommit r;
     Some (fst res)
   }"

definition becomeFollower :: "u64 \<Rightarrow> u64 \<Rightarrow> raft \<Rightarrow> raft option" where
  "becomeFollower t lead r = do {
     let r = r\<lparr>r_step := StepFollower\<rparr>;
     r \<leftarrow> reset t r;
     Some (r\<lparr>r_tick := TickElection, r_lead := lead, r_state := StateFollower\<rparr>)
   }"

definition becomeCandidate :: "raft \<Rightarrow> raft option" where
  "becomeCandidate r =
     (if r_state r = StateLeader then None
      else do {
        let r = r\<lparr>r_step := StepCandidate\<rparr>;
        r \<leftarrow> reset (add64 (r_Term r) 1) r;
        Some (r\<lparr>r_tick := TickElection, r_Vote := r_id r, r_state := StateCandidate\<rparr>)
      })"

text \<open>The scan for uncommitted configuration changes; two of them are a panic.\<close>

fun scan_conf :: "Entry list \<Rightarrow> bool \<Rightarrow> bool option" where
  "scan_conf [] pend = Some pend"
| "scan_conf (e # es) pend =
     (if EType e \<noteq> EntryConfChange then scan_conf es pend
      else if pend then None
      else scan_conf es True)"

definition becomeLeader :: "raft \<Rightarrow> raft option" where
  "becomeLeader r =
     (if r_state r = StateFollower then None
      else do {
        let r = r\<lparr>r_step := StepLeader\<rparr>;
        r \<leftarrow> reset (r_Term r) r;
        let r = r\<lparr>r_tick := TickHeartbeat, r_lead := r_id r, r_state := StateLeader\<rparr>;
        re \<leftarrow> l_entries (r_raftLog r) (add64 (l_committed (r_raftLog r)) 1) noLimit;
        (case re of
           Inl _ \<Rightarrow> None
         | Inr ents \<Rightarrow> do {
             pc \<leftarrow> scan_conf ents (r_pendingConf r);
             appendEntry [zero_entry] (r\<lparr>r_pendingConf := pc\<rparr>)
           })
      })"

definition poll :: "u64 \<Rightarrow> bool \<Rightarrow> raft \<Rightarrow> raft \<times> nat" where
  "poll i v r =
     (let r = (if map_of (r_votes r) i = None then r\<lparr>r_votes := r_votes r @ [(i, v)]\<rparr> else r)
      in (r, length (filter snd (r_votes r))))"

definition campaign :: "raft \<Rightarrow> raft option" where
  "campaign r = do {
     r \<leftarrow> becomeCandidate r;
     let (r, granted) = poll (r_id r) True r;
     if quorum r = granted then becomeLeader r
     else ofold (\<lambda>i r. if i = r_id r then Some r
            else do {
              li \<leftarrow> r_lastIndex r;
              lt \<leftarrow> l_lastTerm (r_raftLog r);
              Some (send (zero_message\<lparr>MTo := i, MType := MsgVote, MIndex := li, MLogTerm := lt\<rparr>) r)
            }) (map fst (r_prs r)) r
   }"

definition checkQuorumActive :: "raft \<Rightarrow> raft \<times> bool" where
  "checkQuorumActive r =
     (let act = length (filter (\<lambda>(i, pr). i = r_id r \<or> p_RecentActive pr) (r_prs r));
          prs = map (\<lambda>(i, pr). (i, if i = r_id r then pr else pr\<lparr>p_RecentActive := False\<rparr>)) (r_prs r)
      in (r\<lparr>r_prs := prs\<rparr>, quorum r \<le> act))"

section \<open>Membership and snapshots\<close>

definition promotable :: "raft \<Rightarrow> bool" where
  "promotable r \<longleftrightarrow> map_of (r_prs r) (r_id r) \<noteq> None"

definition setProgress :: "u64 \<Rightarrow> u64 \<Rightarrow> u64 \<Rightarrow> raft \<Rightarrow> raft" where
  "setProgress i mat nxt r = put_pr i (newProgress mat nxt (r_maxInflight r)) r"

definition delProgress :: "u64 \<Rightarrow> raft \<Rightarrow> raft" where
  "delProgress i r = r\<lparr>r_prs := AList.delete i (r_prs r)\<rparr>"

definition addNode :: "u64 \<Rightarrow> raft \<Rightarrow> raft option" where
  "addNode i r =
     (if map_of (r_prs r) i \<noteq> None then Some r
      else do {
        li \<leftarrow> r_lastIndex r;
        Some ((setProgress i 0 (add64 li 1) r)\<lparr>r_pendingConf := False\<rparr>)
      })"

definition removeNode :: "u64 \<Rightarrow> raft \<Rightarrow> raft option" where
  "removeNode i r =
     (let r = (delProgress i r)\<lparr>r_pendingConf := False\<rparr>
      in if r_prs r = [] then Some r
         else do {
           res \<leftarrow> maybeCommit r;
           if snd res then bcastAppend (fst res) else Some (fst res)
         })"

definition resetPendingConf :: "raft \<Rightarrow> raft" where
  "resetPendingConf r = r\<lparr>r_pendingConf := False\<rparr>"

definition loadState :: "HardState \<Rightarrow> raft \<Rightarrow> raft option" where
  "loadState state r = do {
     li \<leftarrow> r_lastIndex r;
     _ \<leftarrow> panic_unless (\<not> (HCommit state < l_committed (r_raftLog r) \<or> li < HCommit state));
     Some (r\<lparr>r_raftLog := (r_raftLog r)\<lparr>l_committed := HCommit state\<rparr>,
             r_Term := HTerm state, r_Vote := HVote state\<rparr>)
   }"

text \<open>The body of the loop over the members of a snapshot.\<close>

definition restore_node :: "u64 \<Rightarrow> raft \<Rightarrow> raft option" where
  "restore_node n r = do {
     li \<leftarrow> r_lastIndex r;
     let nxt = add64 li 1;
     let mat = (if n = r_id r then sub64 nxt 1 else 0);
     Some (setProgress n mat nxt r)
   }"

definition restore :: "Snapshot \<Rightarrow> raft \<Rightarrow> (raft \<times> bool) option" where
  "restore s r =
     (if snap_index s \<le> l_committed (r_raftLog r) then Some (r, False)
      else do {
        m \<leftarrow> l_matchTerm (r_raftLog r) (snap_index s) (snap_term s);
        if m then do {
          l \<leftarrow> l_commitTo (snap_index s) (r_raftLog r);
          Some (r\<lparr>r_raftLog := l\<rparr>, False)
        }
        else do {
          let r = r\<lparr>r_raftLog := l_restore s (r_raftLog r), r_prs := []\<rparr>;
          r \<leftarrow> ofold restore_node (snap_nodes s) r;
          Some (r, True)
        }
      })"

section \<open>Handlers\<close>

definition handleAppendEntries :: "Message \<Rightarrow> raft \<Rightarrow> raft option" where
  "handleAppendEntries m r =
     (if MIndex m < l_committed (r_raftLog r)
      then Some (send (zero_message\<lparr>MTo := MFrom m, MType := MsgAppResp,
                         MIndex := l_committed (r_raftLog r)\<rparr>) r)
      else do {
        res \<leftarrow> l_maybeAppend (MIndex m) (MLogTerm m) (MCommit m) (MEntries m) (r_raftLog r);
        let r = r\<lparr>r_raftLog := fst res\<rparr>;
        (case snd res of
           Some mlastIndex \<Rightarrow>
             Some (send (zero_message\<lparr>MTo := MFrom m, MType := MsgAppResp, MIndex := mlastIndex\<rparr>) r)
         | None \<Rightarrow> do {
             li \<leftarrow> r_lastIndex r;
             Some (send (zero_message\<lparr>MTo := MFrom m, MType := MsgAppResp, MIndex := MIndex m,
                           MReject := True, MRejectHint := li\<rparr>) r)
           })
      })"

definition handleHeartbeat :: "Message \<Rightarrow> raft \<Rightarrow> raft option" where
  "handleHeartbeat m r = do {
     l \<leftarrow> l_commitTo (MCommit m) (r_raftLog r);
     Some (send (zero_message\<lparr>MTo := MFrom m, MType := MsgHeartbeatResp\<rparr>) (r\<lparr>r_raftLog := l\<rparr>))
   }"

definition handleSnapshot :: "Message \<Rightarrow> raft \<Rightarrow> raft option" where
  "handleSnapshot m r = do {
     res \<leftarrow> restore (MSnapshot m) r;
     let r = fst res;
     if snd res then do {
       li \<leftarrow> r_lastIndex r;
       Some (send (zero_message\<lparr>MTo := MFrom m, MType := MsgAppResp, MIndex := li\<rparr>) r)
     }
     else Some (send (zero_message\<lparr>MTo := MFrom m, MType := MsgAppResp,
                        MIndex := l_committed (r_raftLog r)\<rparr>) r)
   }"

definition rejectVote :: "Message \<Rightarrow> raft \<Rightarrow> raft" where
  "rejectVote m r = send (zero_message\<lparr>MTo := MFrom m, MType := MsgVoteResp, MReject := True\<rparr>) r"

text \<open>Configuration changes proposed while one is pending become empty entries.\<close>

fun prop_entries :: "Entry list \<Rightarrow> bool \<Rightarrow> Entry list \<times> bool" where
  "prop_entries [] pend = ([], pend)"
| "prop_entries (e # es) pend =
     (if EType e = EntryConfChange
      then let (es', pend') = prop_entries es True
           in ((if pend then zero_entry else e) # es', pend')
      else let (es', pend') = prop_entries es pend in (e # es', pend'))"

definition leaderProp :: "Message \<Rightarrow> raft \<Rightarrow> raft option" where
  "leaderProp m r =
     (if MEntries m = [] then None
      else if map_of (r_prs r) (r_id r) = None then Some r
      else do {
        let (es, pend) = prop_entries (MEntries m) (r_pendingConf r);
        r \<leftarrow> appendEntry es (r\<lparr>r_pendingConf := pend\<rparr>);
        bcastAppend r
      })"

definition leaderAppResp :: "Message \<Rightarrow> Progress \<Rightarrow> raft \<Rightarrow> raft option" where
  "leaderAppResp m pr r =
     (let pr = pr\<lparr>p_RecentActive := True\<rparr>
      in if MReject m
         then let (pr, decr) = p_maybeDecrTo (MIndex m) (MRejectHint m) pr
              in if decr
                 then sendAppend (MFrom m)
                        (put_pr (MFrom m)
                          (if p_State pr = ProgressStateReplicate then p_becomeProbe pr else pr) r)
                 else Some (put_pr (MFrom m) pr r)
         else let oldPaused = p_isPaused pr;
                  (pr, updated) = p_maybeUpdate (MIndex m) pr
              in if updated
                 then do {
                   pr \<leftarrow> (if p_State pr = ProgressStateProbe then Some (p_becomeReplicate pr)
                         else if p_State pr = ProgressStateSnapshot \<and> p_maybeSnapshotAbort pr
                         then Some (p_becomeProbe pr)
                         else if p_State pr = ProgressStateReplicate
                         then do { ins \<leftarrow> in_freeTo (MIndex m) (p_ins pr); Some (pr\<lparr>p_ins := ins\<rparr>) }
                         else Some pr);
                   res \<leftarrow> maybeCommit (put_pr (MFrom m) pr r);
                   if snd res then bcastAppend (fst res)
                   else if oldPaused then sendAppend (MFrom m) (fst res)
                   else Some (fst res)
                 }
                 else Some (put_pr (MFrom m) pr r))"

definition leaderHeartbeatResp :: "Message \<Rightarrow> Progress \<Rightarrow> raft \<Rightarrow> raft option" where
  "leaderHeartbeatResp m pr r = do {
     let pr = pr\<lparr>p_RecentActive := True\<rparr>;
     pr \<leftarrow> (if p_State pr = ProgressStateReplicate \<and> in_full (p_ins pr)
           then do { ins \<leftarrow> in_freeFirstOne (p_ins pr); Some (pr\<lparr>p_ins := ins\<rparr>) }
           else Some pr);
     let r = put_pr (MFrom m) pr r;
     li \<leftarrow> r_lastIndex r;
     if p_Match pr < li then sendAppend (MFrom m) r else Some r
   }"

definition leaderSnapStatus :: "Message \<Rightarrow> Progress \<Rightarrow> raft \<Rightarrow> raft" where
  "leaderSnapStatus m pr r =
     (if p_State pr \<noteq> ProgressStateSnapshot then r
      else let pr = (if \<not> MReject m then p_becomeProbe pr else p_becomeProbe (p_snapshotFailure pr))
           in put_pr (MFrom m) (p_pause pr) r)"

definition leaderUnreachable :: "Message \<Rightarrow> Progress \<Rightarrow> raft \<Rightarrow> raft" where
  "leaderUnreachable m pr r =
     (if p_State pr = ProgressStateReplicate then put_pr (MFrom m) (p_becomeProbe pr) r else r)"

definition stepLeader :: "Message \<Rightarrow> raft \<Rightarrow> raft option" where
  "stepLeader m r =
     (case MType m of
        MsgBeat \<Rightarrow> bcastHeartbeat r
      | MsgCheckQuorum \<Rightarrow>
          let (r, active) = checkQuorumActive r
          in if \<not> active then becomeFollower (r_Term r) NoNode r else Some r
      | MsgProp \<Rightarrow> leaderProp m r
      | MsgVote \<Rightarrow> Some (rejectVote m r)
      | _ \<Rightarrow>
          (case map_of (r_prs r) (MFrom m) of
             None \<Rightarrow> Some r
           | Some pr \<Rightarrow>
               (case MType m of
                  MsgAppResp \<Rightarrow> leaderAppResp m pr r
                | MsgHeartbeatResp \<Rightarrow> leaderHeartbeatResp m pr r
                | MsgSnapStatus \<Rightarrow> Some (leaderSnapStatus m pr r)
                | MsgUnreachable \<Rightarrow> Some (leaderUnreachable m pr r)
                | _ \<Rightarrow> Some r)))"

definition stepCandidate :: "Message \<Rightarrow> raft \<Rightarrow> raft option" where
  "stepCandidate m r =
     (case MType m of
        MsgProp \<Rightarrow> Some r
      | MsgApp \<Rightarrow> do { r \<leftarrow> becomeFollower (r_Term r) (MFrom m) r; handleAppendEntries m r }
      | MsgHeartbeat \<Rightarrow> do { r \<leftarrow> becomeFollower (r_Term r) (MFrom m) r; handleHeartbeat m r }
      | MsgSnap \<Rightarrow> do { r \<leftarrow> becomeFollower (MTerm m) (MFrom m) r; handleSnapshot m r }
      | MsgVote \<Rightarrow> Some (rejectVote m r)
      | MsgVoteResp \<Rightarrow>
          let (r, gr) = poll (MFrom m) (\<not> MReject m) r
          in if quorum r = gr then do { r \<leftarrow> becomeLeader r; bcastAppend r }
             else if quorum r = length (r_votes r) - gr then becomeFollower (r_Term r) NoNode r
             else Some r
      | _ \<Rightarrow> Some r)"

definition stepFollower :: "Message \<Rightarrow> raft \<Rightarrow> raft option" where
  "stepFollower m r =
     (case MType m of
        MsgProp \<Rightarrow>
          if r_lead r = NoNode then Some r else Some (send (m\<lparr>MTo := r_lead r\<rparr>) r)
      | MsgApp \<Rightarrow> handleAppendEntries m (r\<lparr>r_electionElapsed := 0, r_lead := MFrom m\<rparr>)
      | MsgHeartbeat \<Rightarrow> handleHeartbeat m (r\<lparr>r_electionElapsed := 0, r_lead := MFrom m\<rparr>)
      | MsgSnap \<Rightarrow> handleSnapshot m (r\<lparr>r_electionElapsed := 0\<rparr>)
      | MsgVote \<Rightarrow>
          if r_Vote r = NoNode \<or> r_Vote r = MFrom m
          then do {
            utd \<leftarrow> l_isUpToDate (r_raftLog r) (MIndex m) (MLogTerm m);
            if utd
            then Some (send (zero_message\<lparr>MTo := MFrom m, MType := MsgVoteResp\<rparr>)
                        (r\<lparr>r_electionElapsed := 0, r_Vote := MFrom m\<rparr>))
            else Some (rejectVote m r)
          }
          else Some (rejectVote m r)
      | _ \<Rightarrow> Some r)"

definition step_fn :: "Message \<Rightarrow> raft \<Rightarrow> raft option" where
  "step_fn m r =
     (case r_step r of
        StepFollower \<Rightarrow> stepFollower m r
      | StepCandidate \<Rightarrow> stepCandidate m r
      | StepLeader \<Rightarrow> stepLeader m r)"

definition Step :: "Message \<Rightarrow> raft \<Rightarrow> raft option" where
  "Step m r =
     (if MType m = MsgHup
      then if r_state r \<noteq> StateLeader then campaign r else Some r
      else if MTerm m = 0 then step_fn m r
      else if MTerm m > r_Term r
      then do {
        let lead = (if MType m = MsgVote then NoNode else MFrom m);
        r \<leftarrow> becomeFollower (MTerm m) lead r;
        step_fn m r
      }
      else if MTerm m < r_Term r then Some r
      else step_fn m r)"

section \<open>Ticks\<close>

definition isElectionTimeout :: "nat \<Rightarrow> raft \<Rightarrow> bool option" where
  "isElectionTimeout rnd r =
     (if r_electionElapsed r < r_electionTimeout r then Some False
      else if r_electionTimeout r = 0 then None
      else Some (r_electionElapsed r - r_electionTimeout r > rnd mod r_electionTimeout r))"

definition tickElection :: "nat \<Rightarrow> raft \<Rightarrow> raft option" where
  "tickElection rnd r =
     (if \<not> promotable r then Some (r\<lparr>r_electionElapsed := 0\<rparr>)
      else do {
        let r = r\<lparr>r_electionElapsed := r_electionElapsed r + 1\<rparr>;
        timeout \<leftarrow> isElectionTimeout rnd r;
        if timeout
        then Step (zero_message\<lparr>MFrom := r_id r, MType := MsgHup\<rparr>) (r\<lparr>r_electionElapsed := 0\<rparr>)
        else Some r
      })"

text \<open>The first half of \<^verbatim>\<open>tickHeartbeat\<close>: the quorum check of a leader once per election timeout.\<close>

definition tickQuorum :: "raft \<Rightarrow> raft option" where
  "tickQuorum r =
     (if r_electionTimeout r \<le> r_electionElapsed r
      then let r = r\<lparr>r_electionElapsed := 0\<rparr>
           in if r_checkQuorum r
              then Step (zero_message\<lparr>MFrom := r_id r, MType := MsgCheckQuorum\<rparr>) r
              else Some r
      else Some r)"

definition tickHeartbeat :: "raft \<Rightarrow> raft option" where
  "tickHeartbeat r = do {
     r \<leftarrow> tickQuorum (r\<lparr>r_heartbeatElapsed := r_heartbeatElapsed r + 1,
                       r_electionElapsed := r_electionElapsed r + 1\<rparr>);
     if r_state r \<noteq> StateLeader then Some r
     else if r_heartbeatTimeout r \<le> r_heartbeatElapsed r
     then Step (zero_message\<lparr>MFrom := r_id r, MType := MsgBeat\<rparr>) (r\<lparr>r_heartbeatElapsed := 0\<rparr>)
     else Some r
   }"

definition tick :: "nat \<Rightarrow> raft \<Rightarrow> raft option" where
  "tick rnd r = (case r_tick r of TickElection \<Rightarrow> tickElection rnd r | TickHeartbeat \<Rightarrow> tickHeartbeat r)"

section \<open>Start\<close>

definition isHardStateEqual :: "HardState \<Rightarrow> HardState \<Rightarrow> bool" where
  "isHardStateEqual a b \<longleftrightarrow> HTerm a = HTerm b \<and> HVote a = HVote b \<and> HCommit a = HCommit b"

definition newRaft :: "Config \<Rightarrow> raft option" where
  "newRaft c =
     (case (c_validate c, c_Storage c) of
        (Inr _, Some storage) \<Rightarrow> do {
          raftlog \<leftarrow> newLog storage;
          let (hs, cs) = ms_InitialState storage;
          peers \<leftarrow> (if cs \<noteq> [] then if c_peers c \<noteq> [] then None else Some cs else Some (c_peers c));
          let maxInflight = nat (c_MaxInflightMsgs c);
          let prs = fold (\<lambda>p prs. AList.update p (newProgress 0 1 maxInflight) prs) peers [];
          let r = \<lparr>r_id = c_ID c, r_Term = 0, r_Vote = NoNode, r_raftLog = raftlog,
                   r_maxInflight = maxInflight, r_maxMsgSize = c_MaxSizePerMsg c, r_prs = prs,
                   r_state = StateFollower, r_votes = [], r_msgs = [], r_lead = NoNode,
                   r_pendingConf = False, r_electionElapsed = 0, r_heartbeatElapsed = 0,
                   r_checkQuorum = c_CheckQuorum c, r_heartbeatTimeout = nat (c_HeartbeatTick c),
                   r_electionTimeout = nat (c_ElectionTick c), r_tick = TickElection,
                   r_step = StepFollower\<rparr>;
          r \<leftarrow> (if \<not> isHardStateEqual hs emptyState then loadState hs r else Some r);
          r \<leftarrow> (if c_Applied c > 0
                then do { l \<leftarrow> l_appliedTo (c_Applied c) (r_raftLog r); Some (r\<lparr>r_raftLog := l\<rparr>) }
                else Some r);
          becomeFollower (r_Term r) NoNode r
        }
      | _ \<Rightarrow> None)"

end
