(* ===== verification/Raft_Election.thy ===== *)
theory Raft_Election
  imports Raft_Core
begin

text \<open>
  What a step of one raft node does to the state that elections depend on: term, vote, role,
  collected votes, membership and the messages it sends.  Most handlers are \<^emph>\<open>calm\<close>: they
  change neither term nor vote and send nothing that counts in an election.  The remaining
  ones are characterised by \<open>estep\<close>.
\<close>

section \<open>Calm transitions\<close>

text \<open>Messages that count in an election: vote requests and granted votes.\<close>

definition vote_msg :: "Message \<Rightarrow> bool" where
  "vote_msg m \<longleftrightarrow> MType m = MsgVote \<or> MType m = MsgVoteResp \<and> \<not> MReject m"

text \<open>The snapshots that a node may send.\<close>

definition node_snap :: "raftLog \<Rightarrow> Snapshot \<Rightarrow> bool" where
  "node_snap l s \<longleftrightarrow> u_snapshot (l_unstable l) = Some s \<or>
     s = ms_snapshot (l_storage l) \<and> snap_index s \<noteq> 0"

definition log_calm :: "raftLog \<Rightarrow> raftLog \<Rightarrow> bool" where
  "log_calm l l' \<longleftrightarrow> l_storage l' = l_storage l \<and>
     u_snapshot (l_unstable l') = u_snapshot (l_unstable l) \<and>
     l_committed l \<le> l_committed l' \<and> l_applied l' = l_applied l"

definition calm_msg :: "raft \<Rightarrow> Message \<Rightarrow> bool" where
  "calm_msg r m \<longleftrightarrow> MFrom m = r_id r \<and> \<not> vote_msg m \<and>
     (MType m = MsgSnap \<longrightarrow> node_snap (r_raftLog r) (MSnapshot m) \<and> MTerm m = r_Term r)"

definition calm :: "raft \<Rightarrow> raft \<Rightarrow> bool" where
  "calm r r' \<longleftrightarrow> r_id r' = r_id r \<and> r_Term r' = r_Term r \<and> r_Vote r' = r_Vote r \<and>
     (r_state r' = r_state r \<and> r_step r' = r_step r \<and> r_votes r' = r_votes r \<or>
      r_state r' = StateFollower \<and> r_step r' = StepFollower) \<and>
     map fst (r_prs r') = map fst (r_prs r) \<and> log_calm (r_raftLog r) (r_raftLog r') \<and>
     (\<exists>ms. r_msgs r' = r_msgs r @ ms \<and> (\<forall>m \<in> set ms. calm_msg r m))"

lemma log_calm_refl [simp]: "log_calm l l"
  by (simp add: log_calm_def)

lemma log_calm_trans: "log_calm l l' \<Longrightarrow> log_calm l' l'' \<Longrightarrow> log_calm l l''"
  by (simp add: log_calm_def)

lemma node_snap_calm: "log_calm l l' \<Longrightarrow> node_snap l' s = node_snap l s"
  by (simp add: log_calm_def node_snap_def)

lemma calm_msg_calm: "calm r r' \<Longrightarrow> calm_msg r' m = calm_msg r m"
  by (auto simp: calm_def calm_msg_def node_snap_calm)

lemma calm_refl [simp]: "calm r r"
  by (simp add: calm_def)

lemma calm_trans:
  assumes "calm r r'" "calm r' r''"
  shows "calm r r''"
proof -
  from assms(1) obtain ms where ms: "r_msgs r' = r_msgs r @ ms" "\<forall>m \<in> set ms. calm_msg r m"
    by (auto simp: calm_def)
  from assms(2) obtain ms' where ms': "r_msgs r'' = r_msgs r' @ ms'" "\<forall>m \<in> set ms'. calm_msg r' m"
    by (auto simp: calm_def)
  have "r_msgs r'' = r_msgs r @ (ms @ ms') \<and> (\<forall>m \<in> set (ms @ ms'). calm_msg r m)"
    using ms ms' calm_msg_calm [OF assms(1)] by auto
  then have "\<exists>ms. r_msgs r'' = r_msgs r @ ms \<and> (\<forall>m \<in> set ms. calm_msg r m)" by blast
  moreover have "log_calm (r_raftLog r) (r_raftLog r'')"
    using assms log_calm_trans by (auto simp: calm_def)
  ultimately show ?thesis using assms by (auto simp: calm_def)
qed

text \<open>The basic updates.\<close>

lemma calm_send:
  "\<not> vote_msg m \<Longrightarrow> (MType m = MsgSnap \<Longrightarrow> node_snap (r_raftLog r) (MSnapshot m)) \<Longrightarrow> calm r (send m r)"
  by (auto simp: calm_def send_def calm_msg_def vote_msg_def Let_def)

lemma map_fst_update:
  "k \<in> fst ` set m \<Longrightarrow> map fst (AList.update k v m) = map fst m"
  by (induction m) auto

lemma map_of_key: "map_of m k = Some v \<Longrightarrow> k \<in> fst ` set m"
  by (rule map_of_in_keys)

lemma calm_put_pr: "map_of (r_prs r) i = Some pr0 \<Longrightarrow> calm r (put_pr i pr r)"
  by (simp add: calm_def put_pr_def map_fst_update [OF map_of_key])

lemma calm_log: "log_calm (r_raftLog r) l \<Longrightarrow> calm r (r\<lparr>r_raftLog := l\<rparr>)"
  by (auto simp: calm_def)

lemma calm_fields [simp]:
  "calm r (r\<lparr>r_pendingConf := b\<rparr>)" "calm r (r\<lparr>r_electionElapsed := n\<rparr>)"
  "calm r (r\<lparr>r_heartbeatElapsed := n\<rparr>)" "calm r (r\<lparr>r_lead := i\<rparr>)"
  by (simp_all add: calm_def)

section \<open>Calm log operations\<close>

lemma u_truncateAndAppend_snapshot:
  "u_truncateAndAppend es u = Some u' \<Longrightarrow> u_snapshot u' = u_snapshot u"
  by (auto simp: u_truncateAndAppend_def Let_def bind_eq_Some_conv split: if_splits)

lemma l_append_calm: "l_append es l = Some (l', i) \<Longrightarrow> log_calm l l'"
  by (auto simp: l_append_def log_calm_def Let_def bind_eq_Some_conv
      dest: u_truncateAndAppend_snapshot split: if_splits)

lemma l_commitTo_calm: "l_commitTo c l = Some l' \<Longrightarrow> log_calm l l'"
  by (auto simp: l_commitTo_def log_calm_def bind_eq_Some_conv split: if_splits)

lemma l_maybeCommit_calm: "l_maybeCommit i t l = Some (l', b) \<Longrightarrow> log_calm l l'"
  by (auto simp: l_maybeCommit_def bind_eq_Some_conv dest: l_commitTo_calm split: if_splits)

lemma l_maybeAppend_calm:
  assumes "l_maybeAppend i t c es l = Some (l', x)"
  shows "log_calm l l'"
proof -
  have *: "log_calm l l'" if "l_append new l = Some (l1, k)" "l_commitTo cc l1 = Some l'" for new l1 k cc
    using that l_append_calm l_commitTo_calm log_calm_trans by blast
  show ?thesis
    using assms * by (auto simp: l_maybeAppend_def Let_def bind_eq_Some_conv
        dest: l_commitTo_calm split: if_splits)
qed

section \<open>Calm methods\<close>

lemma sendSnapshot_calm:
  assumes "sendSnapshot to pr r = Some r'" "map_of (r_prs r) to = Some pr0"
  shows "calm r r'"
proof -
  have *: "calm r (send (zero_message\<lparr>MTo := to, MType := MsgSnap, MSnapshot := s\<rparr>)
      (put_pr to pr' r))" if "l_snapshot (r_raftLog r) = Inr s" "\<not> IsEmptySnap s" for s pr'
  proof (rule calm_trans [OF calm_put_pr [OF assms(2)] calm_send])
    show "\<not> vote_msg (zero_message\<lparr>MTo := to, MType := MsgSnap, MSnapshot := s\<rparr>)"
      by (simp add: vote_msg_def)
    show "node_snap (r_raftLog (put_pr to pr' r))
        (MSnapshot (zero_message\<lparr>MTo := to, MType := MsgSnap, MSnapshot := s\<rparr>))"
      using that by (auto simp: node_snap_def put_pr_def l_snapshot_def ms_Snapshot_def IsEmptySnap_def
          split: option.splits)
  qed
  show ?thesis
    using assms(1) * by (auto simp: sendSnapshot_def split: if_splits sum.splits)
qed

lemma sendAppend_calm:
  assumes "sendAppend to r = Some r'"
  shows "calm r r'"
proof -
  from assms obtain pr where pr: "map_of (r_prs r) to = Some pr"
    by (auto simp: sendAppend_def bind_eq_Some_conv)
  have *: "calm r (send (zero_message\<lparr>MTo := to, MType := MsgApp, MIndex := i, MLogTerm := t,
      MEntries := es, MCommit := c\<rparr>) (put_pr to pr' r))" for i t es c pr'
    by (rule calm_trans [OF calm_put_pr [OF pr] calm_send]) (simp_all add: vote_msg_def)
  show ?thesis
  proof (cases "p_isPaused pr")
    case True
    with assms pr show ?thesis by (simp add: sendAppend_def)
  next
    case False
    with assms pr obtain rt re where
      r: "l_term (r_raftLog r) (sub64 (p_Next pr) 1) = Some rt"
        "l_entries (r_raftLog r) (p_Next pr) (r_maxMsgSize r) = Some re"
      by (auto simp: sendAppend_def bind_eq_Some_conv)
    show ?thesis
      by (cases rt; cases re)
        (use assms pr False r * sendSnapshot_calm [OF _ pr] in
          \<open>auto simp: sendAppend_def bind_eq_Some_conv\<close>)
  qed
qed

lemma sendHeartbeat_calm: "sendHeartbeat to r = Some r' \<Longrightarrow> calm r r'"
  by (auto simp: sendHeartbeat_def bind_eq_Some_conv vote_msg_def intro!: calm_send)

lemma ofold_calm:
  assumes "ofold f xs r = Some r'" "\<And>x r r'. f x r = Some r' \<Longrightarrow> calm r r'"
  shows "calm r r'"
  by (rule ofold_invariant [OF assms(1), where P = "calm r"]) (auto intro: calm_trans assms(2))

lemma bcastAppend_calm: "bcastAppend r = Some r' \<Longrightarrow> calm r r'"
  unfolding bcastAppend_def by (erule ofold_calm) (auto dest: sendAppend_calm split: if_splits)

lemma bcastHeartbeat_calm: "bcastHeartbeat r = Some r' \<Longrightarrow> calm r r'"
  unfolding bcastHeartbeat_def
  by (erule ofold_calm)
    (auto simp: bind_eq_Some_conv split: if_splits
      dest!: sendHeartbeat_calm intro: calm_trans calm_put_pr)

lemma maybeCommit_calm: "maybeCommit r = Some (r', b) \<Longrightarrow> calm r r'"
  by (auto simp: maybeCommit_def bind_eq_Some_conv dest!: l_maybeCommit_calm intro: calm_log)

lemma appendEntry_calm:
  assumes "appendEntry es r = Some r'"
  shows "calm r r'"
proof -
  from assms obtain li l k pr li' b where
    l: "l_append (stamp_entries (r_Term r) (add64 li 1) es) (r_raftLog r) = Some (l, k)"
    and pr: "map_of (r_prs r) (r_id r) = Some pr"
    and mc: "maybeCommit (put_pr (r_id r) (fst (p_maybeUpdate li' pr)) (r\<lparr>r_raftLog := l\<rparr>)) = Some (r', b)"
    by (auto simp: appendEntry_def bind_eq_Some_conv Let_def)
  have "calm r (r\<lparr>r_raftLog := l\<rparr>)" by (rule calm_log [OF l_append_calm [OF l]])
  moreover have "map_of (r_prs (r\<lparr>r_raftLog := l\<rparr>)) (r_id r) = Some pr" using pr by simp
  ultimately show ?thesis
    using calm_trans calm_put_pr maybeCommit_calm [OF mc] by blast
qed

lemma handleAppendEntries_calm: "handleAppendEntries m r = Some r' \<Longrightarrow> calm r r'"
proof -
  have *: "calm r (send x (r\<lparr>r_raftLog := l\<rparr>))"
    if "log_calm (r_raftLog r) l" "MType x = MsgAppResp" for x l
    by (rule calm_trans [OF calm_log [OF that(1)] calm_send]) (simp_all add: that(2) vote_msg_def)
  have **: "calm r (send x r)" if "MType x = MsgAppResp" for x
    using that by (auto intro!: calm_send simp: vote_msg_def)
  assume "handleAppendEntries m r = Some r'"
  then show ?thesis
    by (auto simp: handleAppendEntries_def bind_eq_Some_conv Let_def split: if_splits option.splits
        dest!: l_maybeAppend_calm intro!: * **)
qed

lemma handleHeartbeat_calm: "handleHeartbeat m r = Some r' \<Longrightarrow> calm r r'"
  by (auto simp: handleHeartbeat_def bind_eq_Some_conv vote_msg_def
      dest!: l_commitTo_calm intro!: calm_trans [OF calm_log calm_send])

lemma checkQuorumActive_calm: "calm r (fst (checkQuorumActive r))"
  by (auto simp: checkQuorumActive_def calm_def Let_def intro!: map_cong)

lemma leaderProp_calm:
  assumes "leaderProp m r = Some r'"
  shows "calm r r'"
proof -
  have *: "calm r r'" if "appendEntry es (r\<lparr>r_pendingConf := b\<rparr>) = Some r1" "bcastAppend r1 = Some r'"
    for es b r1
    using calm_trans [OF calm_fields(1) [of r b] calm_trans [OF appendEntry_calm [OF that(1)]
        bcastAppend_calm [OF that(2)]]] .
  show ?thesis
    using assms * by (auto simp: leaderProp_def bind_eq_Some_conv split: if_splits prod.splits)
qed

lemma leaderAppResp_calm:
  assumes "leaderAppResp m pr r = Some r'" and pr: "map_of (r_prs r) (MFrom m) = Some pr0"
  shows "calm r r'"
proof -
  note put = calm_put_pr [OF pr]
  have s: "calm r r'" if "sendAppend (MFrom m) (put_pr (MFrom m) p r) = Some r'" for p
    by (rule calm_trans [OF put sendAppend_calm [OF that]])
  have c: "calm r r'" if "maybeCommit (put_pr (MFrom m) p r) = Some (r1, b)"
    "r' = r1 \<or> bcastAppend r1 = Some r' \<or> sendAppend (MFrom m) r1 = Some r'" for p r1 b
    using that(2) calm_trans [OF put maybeCommit_calm [OF that(1)]]
    by (auto intro: calm_trans dest: bcastAppend_calm sendAppend_calm)
  show ?thesis
  proof (cases "MReject m")
    case True
    obtain p d where "p_maybeDecrTo (MIndex m) (MRejectHint m) (pr\<lparr>p_RecentActive := True\<rparr>) = (p, d)"
      by fastforce
    with True assms(1) s put show ?thesis
      by (auto simp: leaderAppResp_def split: if_splits)
  next
    case False
    obtain p u where u: "p_maybeUpdate (MIndex m) (pr\<lparr>p_RecentActive := True\<rparr>) = (p, u)" by fastforce
    show ?thesis
    proof (cases u)
      case True
      with assms(1) False u obtain p1 res where
        "maybeCommit (put_pr (MFrom m) p1 r) = Some res"
        "(if snd res then bcastAppend (fst res) else if p_isPaused (pr\<lparr>p_RecentActive := True\<rparr>)
          then sendAppend (MFrom m) (fst res) else Some (fst res)) = Some r'"
        unfolding leaderAppResp_def by (auto simp del: split_paired_Ex simp: bind_eq_Some_conv)
      then show ?thesis using c [of p1 "fst res" "snd res"] by (auto split: if_splits)
    next
      case False
      with assms(1) \<open>\<not> MReject m\<close> u put show ?thesis by (auto simp: leaderAppResp_def)
    qed
  qed
qed

lemma leaderHeartbeatResp_calm:
  assumes "leaderHeartbeatResp m pr r = Some r'" and pr: "map_of (r_prs r) (MFrom m) = Some pr0"
  shows "calm r r'"
proof -
  note put = calm_put_pr [OF pr]
  from assms(1) obtain p where "r' = put_pr (MFrom m) p r \<or> sendAppend (MFrom m) (put_pr (MFrom m) p r) = Some r'"
    by (auto simp: leaderHeartbeatResp_def bind_eq_Some_conv Let_def split: if_splits)
  then show ?thesis using put by (auto intro: calm_trans dest: sendAppend_calm)
qed

lemma leaderSnapStatus_calm: "map_of (r_prs r) (MFrom m) = Some pr0 \<Longrightarrow> calm r (leaderSnapStatus m pr r)"
  by (auto simp: leaderSnapStatus_def Let_def intro: calm_put_pr)

lemma leaderUnreachable_calm: "map_of (r_prs r) (MFrom m) = Some pr0 \<Longrightarrow> calm r (leaderUnreachable m pr r)"
  by (auto simp: leaderUnreachable_def intro: calm_put_pr)

lemma rejectVote_calm [simp]: "calm r (rejectVote m r)"
  unfolding rejectVote_def by (rule calm_send) (simp_all add: vote_msg_def)

section \<open>Role changes\<close>

lemma reset_keys:
  assumes "ofold (\<lambda>i prs. do {
         li \<leftarrow> L;
         let mat = (if i = n then li else 0);
         Some (AList.update i (newProgress mat (add64 li 1) k) prs)
       }) xs prs = Some prs'" "set xs \<subseteq> fst ` set prs"
  shows "map fst prs' = map fst prs"
proof -
  have "map fst prs' = map fst prs \<and> set xs \<subseteq> fst ` set prs'"
    by (rule ofold_invariant [OF assms(1), where P = "\<lambda>p. map fst p = map fst prs \<and> set xs \<subseteq> fst ` set p"])
      (use assms(2) in \<open>auto simp: bind_eq_Some_conv Let_def subset_iff keys_update intro: trans [OF map_fst_update]\<close>)
  then show ?thesis ..
qed

text \<open>Everything \<^verbatim>\<open>reset\<close> leaves in place, and the values it sets.\<close>

lemma reset_election:
  assumes "reset t r = Some r'"
  shows "r_id r' = r_id r" "r_Term r' = t" "r_Vote r' = (if r_Term r = t then r_Vote r else NoNode)"
    "r_state r' = r_state r" "r_step r' = r_step r" "r_votes r' = []"
    "map fst (r_prs r') = map fst (r_prs r)" "r_raftLog r' = r_raftLog r" "r_msgs r' = r_msgs r"
    "r_maxInflight r' = r_maxInflight r"
proof -
  let ?r = "(if r_Term r \<noteq> t then r\<lparr>r_Term := t, r_Vote := NoNode\<rparr> else r)
      \<lparr>r_lead := NoNode, r_electionElapsed := 0, r_heartbeatElapsed := 0, r_votes := []\<rparr>"
  from assms obtain prs where
    f: "ofold (\<lambda>i prs. do {
         li \<leftarrow> r_lastIndex ?r;
         let mat = (if i = r_id ?r then li else 0);
         Some (AList.update i (newProgress mat (add64 li 1) (r_maxInflight ?r)) prs)
       }) (map fst (r_prs ?r)) (r_prs ?r) = Some prs"
    and r': "r' = ?r\<lparr>r_prs := prs, r_pendingConf := False\<rparr>"
    unfolding reset_def Let_def bind_eq_Some_conv by blast
  have k: "map fst prs = map fst (r_prs r)"
    using reset_keys [OF f] by simp
  show "r_id r' = r_id r" "r_Term r' = t" "r_Vote r' = (if r_Term r = t then r_Vote r else NoNode)"
    "r_state r' = r_state r" "r_step r' = r_step r" "r_votes r' = []"
    "map fst (r_prs r') = map fst (r_prs r)" "r_raftLog r' = r_raftLog r" "r_msgs r' = r_msgs r"
    "r_maxInflight r' = r_maxInflight r"
    using k by (auto simp: r')
qed

lemma becomeFollower_election:
  assumes "becomeFollower t lead r = Some r'"
  shows "r_id r' = r_id r" "r_Term r' = t" "r_Vote r' = (if r_Term r = t then r_Vote r else NoNode)"
    "r_state r' = StateFollower" "r_step r' = StepFollower" "r_votes r' = []"
    "map fst (r_prs r') = map fst (r_prs r)" "r_raftLog r' = r_raftLog r" "r_msgs r' = r_msgs r"
    "r_maxInflight r' = r_maxInflight r"
proof -
  from assms obtain r1 where r1: "reset t (r\<lparr>r_step := StepFollower\<rparr>) = Some r1"
    and r': "r' = r1\<lparr>r_tick := TickElection, r_lead := lead, r_state := StateFollower\<rparr>"
    by (auto simp: becomeFollower_def bind_eq_Some_conv)
  show "r_id r' = r_id r" "r_Term r' = t" "r_Vote r' = (if r_Term r = t then r_Vote r else NoNode)"
    "r_state r' = StateFollower" "r_step r' = StepFollower" "r_votes r' = []"
    "map fst (r_prs r') = map fst (r_prs r)" "r_raftLog r' = r_raftLog r" "r_msgs r' = r_msgs r"
    "r_maxInflight r' = r_maxInflight r"
    using reset_election [OF r1] by (simp_all add: r')
qed

lemma becomeFollower_calm: "becomeFollower (r_Term r) lead r = Some r' \<Longrightarrow> calm r r'"
  using becomeFollower_election [of "r_Term r" lead r r'] by (simp add: calm_def)

lemma becomeCandidate_election:
  assumes "becomeCandidate r = Some r'" "r_Term r < max_u64"
  shows "r_id r' = r_id r" "r_Term r' = Suc (r_Term r)" "r_Vote r' = r_id r"
    "r_state r' = StateCandidate" "r_step r' = StepCandidate" "r_votes r' = []"
    "map fst (r_prs r') = map fst (r_prs r)" "r_raftLog r' = r_raftLog r" "r_msgs r' = r_msgs r"
proof -
  have t: "add64 (r_Term r) 1 = Suc (r_Term r)" using assms(2) by (simp add: u64_simps)
  from assms(1) t obtain r1 where r1: "reset (Suc (r_Term r)) (r\<lparr>r_step := StepCandidate\<rparr>) = Some r1"
    and r': "r' = r1\<lparr>r_tick := TickElection, r_Vote := r_id r1, r_state := StateCandidate\<rparr>"
    by (auto simp: becomeCandidate_def bind_eq_Some_conv split: if_splits)
  show "r_id r' = r_id r" "r_Term r' = Suc (r_Term r)" "r_Vote r' = r_id r"
    "r_state r' = StateCandidate" "r_step r' = StepCandidate" "r_votes r' = []"
    "map fst (r_prs r') = map fst (r_prs r)" "r_raftLog r' = r_raftLog r" "r_msgs r' = r_msgs r"
    using reset_election [OF r1] by (simp_all add: r')
qed

lemma becomeLeader_election:
  assumes "becomeLeader r = Some r'"
  obtains r2 where "calm r2 r'" "r_id r2 = r_id r" "r_Term r2 = r_Term r" "r_Vote r2 = r_Vote r"
    "r_state r2 = StateLeader" "r_step r2 = StepLeader" "map fst (r_prs r2) = map fst (r_prs r)"
    "r_raftLog r2 = r_raftLog r" "r_msgs r2 = r_msgs r" "r_state r \<noteq> StateFollower"
proof -
  from assms obtain r1 re where r1: "reset (r_Term r) (r\<lparr>r_step := StepLeader\<rparr>) = Some r1"
    and re: "l_entries (r_raftLog r1) (add64 (l_committed (r_raftLog r1)) 1) noLimit = Some re"
    and k: "(case re of Inl _ \<Rightarrow> None | Inr ents \<Rightarrow> do {
        pc \<leftarrow> scan_conf ents (r_pendingConf r1);
        appendEntry [zero_entry]
         (r1\<lparr>r_tick := TickHeartbeat, r_lead := r_id r1, r_state := StateLeader, r_pendingConf := pc\<rparr>)
        }) = Some r'"
    and nf: "r_state r \<noteq> StateFollower"
    by (auto simp: becomeLeader_def bind_eq_Some_conv split: if_splits)
  from k obtain pc where a: "appendEntry [zero_entry]
      (r1\<lparr>r_tick := TickHeartbeat, r_lead := r_id r1, r_state := StateLeader, r_pendingConf := pc\<rparr>) = Some r'"
    by (cases re) (auto simp: bind_eq_Some_conv)
  show ?thesis
    by (rule that [OF appendEntry_calm [OF a]]) (use reset_election [OF r1] nf in auto)
qed

section \<open>Steps of one node\<close>

text \<open>
  Messages a node may be given: a message without a term is neither a snapshot nor one that
  counts in an election.  Every message that a node sends has this property.
\<close>

definition election_input :: "Message \<Rightarrow> bool" where
  "election_input m \<longleftrightarrow> (MTerm m = 0 \<longrightarrow> MType m \<noteq> MsgSnap \<and> \<not> vote_msg m)"

text \<open>The role, the step function and the vote of a node fit together.\<close>

definition role_ok :: "raft \<Rightarrow> bool" where
  "role_ok r \<longleftrightarrow>
     (case r_state r of
        StateFollower \<Rightarrow> r_step r = StepFollower
      | StateCandidate \<Rightarrow> r_step r = StepCandidate \<and> r_Vote r = r_id r \<and> 0 < r_Term r
      | StateLeader \<Rightarrow> r_step r = StepLeader \<and> r_Vote r = r_id r \<and> 0 < r_Term r)"

text \<open>The tables of votes that a step on \<open>m\<close> may lead to in term \<open>t\<close>.\<close>

definition ballots :: "Message \<Rightarrow> raft \<Rightarrow> u64 \<Rightarrow> (u64 \<times> bool) list \<Rightarrow> bool" where
  "ballots m r t vs \<longleftrightarrow>
     r_state r = StateCandidate \<and> t = r_Term r \<and>
       (vs = r_votes r \<or>
        MType m = MsgVoteResp \<and> (MReject m \<or> MTerm m = t) \<and> map_of (r_votes r) (MFrom m) = None \<and>
          vs = r_votes r @ [(MFrom m, \<not> MReject m)]) \<or>
     t = Suc (r_Term r) \<and> vs = [(r_id r, True)]"

definition election_msg :: "Message \<Rightarrow> raft \<Rightarrow> raft \<Rightarrow> Message \<Rightarrow> bool" where
  "election_msg m r r' x \<longleftrightarrow> MFrom x = r_id r \<and>
     (MType x = MsgSnap \<longrightarrow> node_snap (r_raftLog r) (MSnapshot x) \<and> 0 < MTerm x) \<and>
     (MType x = MsgVote \<longrightarrow> MTerm x = r_Term r' \<and> r_Vote r' = r_id r \<and> 0 < r_Term r') \<and>
     (MType x = MsgVoteResp \<and> \<not> MReject x \<longrightarrow>
        MTerm x = r_Term r' \<and> 0 < r_Term r' \<and> MTo x = r_Vote r' \<and>
        MType m = MsgVote \<and> MTerm m = r_Term r' \<and> MFrom m = r_Vote r')"

definition estep :: "Message \<Rightarrow> raft \<Rightarrow> raft \<Rightarrow> bool" where
  "estep m r r' \<longleftrightarrow> r_id r' = r_id r \<and> r_Term r \<le> r_Term r' \<and> role_ok r' \<and>
     (r_Term r' = r_Term r \<and> r_Vote r \<noteq> NoNode \<longrightarrow> r_Vote r' = r_Vote r) \<and>
     (r_state r' = StateCandidate \<longrightarrow> ballots m r (r_Term r') (r_votes r')) \<and>
     (r_state r' = StateLeader \<longrightarrow>
        r_state r = StateLeader \<and> r_Term r' = r_Term r \<or>
        (\<exists>vs. ballots m r (r_Term r') vs \<and> length (filter snd vs) = quorum r)) \<and>
     (map fst (r_prs r') = map fst (r_prs r) \<or>
        MType m = MsgSnap \<and> distinct (map fst (r_prs r')) \<and>
        fst ` set (r_prs r') = set (snap_nodes (MSnapshot m))) \<and>
     l_storage (r_raftLog r') = l_storage (r_raftLog r) \<and>
     l_committed (r_raftLog r) \<le> l_committed (r_raftLog r') \<and>
     (u_snapshot (l_unstable (r_raftLog r')) = u_snapshot (l_unstable (r_raftLog r)) \<or>
        MType m = MsgSnap \<and> u_snapshot (l_unstable (r_raftLog r')) = Some (MSnapshot m)) \<and>
     (\<exists>ms. r_msgs r' = r_msgs r @ ms \<and> (\<forall>x \<in> set ms. election_msg m r r' x))"

text \<open>A calm transition is such a step, if the messages it sends have a term.\<close>

lemma calm_estep:
  assumes "calm r r'" "role_ok r"
    and "\<And>ms. r_msgs r' = r_msgs r @ ms \<Longrightarrow> r_Term r = 0 \<Longrightarrow> \<forall>x \<in> set ms. MType x \<noteq> MsgSnap"
  shows "estep m r r'"
proof -
  from assms(1) obtain ms where ms: "r_msgs r' = r_msgs r @ ms" "\<forall>x \<in> set ms. calm_msg r x"
    by (auto simp: calm_def)
  have "\<forall>x \<in> set ms. election_msg m r r' x"
    using ms(2) assms(3) [OF ms(1)] by (fastforce simp: calm_msg_def election_msg_def vote_msg_def)
  moreover have "role_ok r'"
    using assms(1,2) by (auto simp: calm_def role_ok_def split: StateType.splits)
  moreover have "l_storage (r_raftLog r') = l_storage (r_raftLog r)"
    "l_committed (r_raftLog r) \<le> l_committed (r_raftLog r')"
    "u_snapshot (l_unstable (r_raftLog r')) = u_snapshot (l_unstable (r_raftLog r))"
    using assms(1) by (auto simp: calm_def log_calm_def)
  ultimately show ?thesis
    using assms(1) ms(1) by (auto simp: calm_def estep_def ballots_def)
qed

lemma calm_estep_term: "calm r r' \<Longrightarrow> role_ok r \<Longrightarrow> 0 < r_Term r \<Longrightarrow> estep m r r'"
  by (rule calm_estep) auto

lemma timer_frame:
  "estep m (r\<lparr>r_electionElapsed := n\<rparr>) r' = estep m r r'"
  "estep m (r\<lparr>r_heartbeatElapsed := n\<rparr>) r' = estep m r r'"
  "role_ok (r\<lparr>r_electionElapsed := n\<rparr>) = role_ok r"
  "role_ok (r\<lparr>r_heartbeatElapsed := n\<rparr>) = role_ok r"
  by (simp_all add: estep_def ballots_def election_msg_def quorum_def role_ok_def split: StateType.split)

text \<open>Falling back to a follower of a newer term before the step.\<close>

lemma estep_follow:
  assumes e: "estep m r1 r'" and "becomeFollower t lead r = Some r1" "r_Term r < t" "r_Term r' = t"
  shows "estep m r r'"
proof -
  note f = becomeFollower_election [OF assms(2)]
  have b: "\<not> ballots m r1 (r_Term r') vs" for vs
    using assms(4) f by (auto simp: ballots_def)
  have fo: "r_state r' = StateFollower"
    using e b f by (cases "r_state r'") (auto simp: estep_def)
  have msg: "election_msg m r r' x = election_msg m r1 r' x" for x
    using f by (simp add: election_msg_def)
  show ?thesis
    using e assms(3,4) f fo by (simp add: estep_def msg)
qed

section \<open>The step functions\<close>

lemma single_send [simp]: "r_msgs (send x r) = r_msgs r @ [x\<lparr>MFrom := r_id r, MTerm := if MType x \<noteq> MsgProp then r_Term r else MTerm x\<rparr>]"
  by (simp add: send_def Let_def)

lemma send_frame [simp]:
  "r_id (send x r) = r_id r" "r_Term (send x r) = r_Term r" "r_Vote (send x r) = r_Vote r"
  "r_state (send x r) = r_state r" "r_step (send x r) = r_step r" "r_votes (send x r) = r_votes r"
  "r_prs (send x r) = r_prs r" "r_raftLog (send x r) = r_raftLog r" "quorum (send x r) = quorum r"
  by (simp_all add: send_def Let_def quorum_def)

text \<open>A follower answers an append or a heartbeat with one message, no snapshot.\<close>

lemma handleAppendEntries_msgs:
  "handleAppendEntries m r = Some r' \<Longrightarrow> \<exists>x. r_msgs r' = r_msgs r @ [x] \<and> MType x = MsgAppResp"
  by (auto simp: handleAppendEntries_def bind_eq_Some_conv Let_def split: if_splits option.splits)

lemma handleHeartbeat_msgs:
  "handleHeartbeat m r = Some r' \<Longrightarrow> \<exists>x. r_msgs r' = r_msgs r @ [x] \<and> MType x = MsgHeartbeatResp"
  by (auto simp: handleHeartbeat_def bind_eq_Some_conv)

lemma restore_fold:
  assumes "ofold restore_node ns r = Some r'" "distinct (map fst (r_prs r))"
  shows "distinct (map fst (r_prs r')) \<and> fst ` set (r_prs r') = fst ` set (r_prs r) \<union> set ns \<and>
    (\<exists>prs. r' = r\<lparr>r_prs := prs\<rparr>)"
  using assms
proof (induction ns arbitrary: r)
  case Nil
  then show ?case by (auto intro: exI [of _ "r_prs r"])
next
  case (Cons n ns)
  from Cons.prems(1) obtain r1 where r1: "restore_node n r = Some r1" and o: "ofold restore_node ns r1 = Some r'"
    by (auto simp: bind_eq_Some_conv)
  from r1 obtain mat nxt where r1': "r1 = setProgress n mat nxt r"
    by (auto simp: restore_node_def bind_eq_Some_conv Let_def)
  have d: "distinct (map fst (r_prs r1))"
    using Cons.prems(2) by (simp add: r1' setProgress_def put_pr_def distinct_keys_update)
  from Cons.IH [OF o d] show ?case
    by (auto simp: r1' setProgress_def put_pr_def keys_update)
qed

lemma restore_cases:
  assumes "restore s r = Some (r', b)"
  obtains "r' = r" "snap_index s \<le> l_committed (r_raftLog r)" "\<not> b"
  | l where "l_committed (r_raftLog r) < snap_index s" "l_matchTerm (r_raftLog r) (snap_index s) (snap_term s) = Some True"
      "l_commitTo (snap_index s) (r_raftLog r) = Some l" "r' = r\<lparr>r_raftLog := l\<rparr>" "\<not> b"
  | "l_committed (r_raftLog r) < snap_index s" "l_matchTerm (r_raftLog r) (snap_index s) (snap_term s) = Some False"
      "ofold restore_node (snap_nodes s) (r\<lparr>r_raftLog := l_restore s (r_raftLog r), r_prs := []\<rparr>) = Some r'" "b"
proof (cases "snap_index s \<le> l_committed (r_raftLog r)")
  case True
  then show ?thesis using assms that(1) by (simp add: restore_def)
next
  case False
  then obtain mt where mt: "l_matchTerm (r_raftLog r) (snap_index s) (snap_term s) = Some mt"
    using assms by (auto simp: restore_def bind_eq_Some_conv)
  show ?thesis
    using assms False mt that(2,3) by (cases mt) (auto simp: restore_def bind_eq_Some_conv)
qed

lemma restore_election:
  assumes "restore s r = Some (r', b)"
  shows "r_id r' = r_id r \<and> r_Term r' = r_Term r \<and> r_Vote r' = r_Vote r \<and> r_state r' = r_state r \<and>
    r_step r' = r_step r \<and> r_votes r' = r_votes r \<and> r_msgs r' = r_msgs r \<and>
    l_storage (r_raftLog r') = l_storage (r_raftLog r) \<and>
    l_committed (r_raftLog r) \<le> l_committed (r_raftLog r') \<and>
    (r_prs r' = r_prs r \<and> u_snapshot (l_unstable (r_raftLog r')) = u_snapshot (l_unstable (r_raftLog r)) \<or>
     distinct (map fst (r_prs r')) \<and> fst ` set (r_prs r') = set (snap_nodes s) \<and>
     u_snapshot (l_unstable (r_raftLog r')) = Some s)"
  using assms
proof (cases rule: restore_cases)
  case (2 l)
  from l_commitTo_calm [OF this(3)] this(4) show ?thesis by (simp add: log_calm_def)
next
  case 3
  from restore_fold [OF 3(3)] 3(1) show ?thesis by (auto simp: l_restore_def u_restore_def)
qed simp

lemma handleSnapshot_estep:
  assumes "handleSnapshot m r = Some r'" "role_ok r" "r_state r = StateFollower" "MType m = MsgSnap"
  shows "estep m r r' \<and> r_Term r' = r_Term r"
proof -
  from assms(1) obtain r1 b x where r1: "restore (MSnapshot m) r = Some (r1, b)"
    and r': "r' = send x r1" "MType x = MsgAppResp"
    by (auto simp: handleSnapshot_def bind_eq_Some_conv Let_def split: if_splits)
  from restore_election [OF r1] r' assms(2-4) show ?thesis
    by (auto simp: estep_def role_ok_def election_msg_def)
qed

lemma stepFollower_estep:
  assumes "stepFollower m r = Some r'" "role_ok r" "r_state r = StateFollower"
    and "election_input m" "MTerm m = 0 \<or> MTerm m = r_Term r"
  shows "estep m r r' \<and> r_Term r' = r_Term r"
proof -
  let ?r = "r\<lparr>r_electionElapsed := 0, r_lead := MFrom m\<rparr>"
  have c: "calm r ?r"
    by (rule calm_trans [OF calm_fields(2) [of r 0] calm_fields(4)])
  have calm: ?thesis if "calm r r'" "r_msgs r' = r_msgs r @ [x]" "MType x \<noteq> MsgSnap" for x
    using that by (intro conjI calm_estep [OF that(1) assms(2)]) (auto simp: calm_def)
  have same: "r' = r \<Longrightarrow> ?thesis"
    using calm_estep [OF calm_refl assms(2)] by auto
  have reject: "r' = rejectVote m r \<Longrightarrow> ?thesis"
    using calm rejectVote_calm [of r m] by (simp add: rejectVote_def)
  show ?thesis
  proof (cases "MType m")
    case MsgProp
    then consider "r' = r" | "r' = send (m\<lparr>MTo := r_lead r\<rparr>) r"
      using assms(1) by (auto simp: stepFollower_def split: if_splits)
    then show ?thesis
    proof cases
      case 2
      then show ?thesis
        using MsgProp by (intro calm) (auto intro!: calm_send simp: vote_msg_def)
    qed (rule same)
  next
    case MsgApp
    then have h: "handleAppendEntries m ?r = Some r'" using assms(1) by (simp add: stepFollower_def)
    show ?thesis
      using handleAppendEntries_msgs [OF h] calm_trans [OF c handleAppendEntries_calm [OF h]] calm by auto
  next
    case MsgHeartbeat
    then have h: "handleHeartbeat m ?r = Some r'" using assms(1) by (simp add: stepFollower_def)
    show ?thesis
      using handleHeartbeat_msgs [OF h] calm_trans [OF c handleHeartbeat_calm [OF h]] calm by auto
  next
    case MsgSnap
    then have h: "handleSnapshot m (r\<lparr>r_electionElapsed := 0\<rparr>) = Some r'"
      using assms(1) by (simp add: stepFollower_def)
    show ?thesis
      using handleSnapshot_estep [OF h] assms(2,3) MsgSnap by (simp add: timer_frame)
  next
    case MsgVote
    then have t: "MTerm m = r_Term r" "0 < r_Term r"
      using assms(4,5) by (auto simp: election_input_def vote_msg_def)
    from MsgVote assms(1) consider "r' = rejectVote m r"
      | "r_Vote r = NoNode \<or> r_Vote r = MFrom m" "r' = send (zero_message\<lparr>MTo := MFrom m, MType := MsgVoteResp\<rparr>)
          (r\<lparr>r_electionElapsed := 0, r_Vote := MFrom m\<rparr>)"
      by (auto simp: stepFollower_def bind_eq_Some_conv split: if_splits)
    then show ?thesis
    proof cases
      case 2
      then show ?thesis
        using t MsgVote assms(2,3) by (auto simp: estep_def role_ok_def election_msg_def)
    qed (rule reject)
  qed (use assms(1) same in \<open>simp_all add: stepFollower_def\<close>)
qed

lemma stepLeader_calm:
  assumes "stepLeader m r = Some r'"
  shows "calm r r'"
proof -
  note cq = checkQuorumActive_calm [of r]
  show ?thesis
  proof (cases "MType m = MsgCheckQuorum")
    case True
    then show ?thesis
      using assms cq calm_trans [OF cq becomeFollower_calm]
      by (auto simp: stepLeader_def case_prod_unfold Let_def split: if_splits)
  next
    case False
    show ?thesis
    proof (cases "map_of (r_prs r) (MFrom m)")
      case None
      then show ?thesis
        using assms False bcastHeartbeat_calm leaderProp_calm rejectVote_calm [of r m]
        by (cases "MType m") (auto simp: stepLeader_def)
    next
      case (Some pr)
      then show ?thesis
        using assms False bcastHeartbeat_calm leaderProp_calm rejectVote_calm [of r m] leaderAppResp_calm
          leaderHeartbeatResp_calm leaderSnapStatus_calm leaderUnreachable_calm
        by (cases "MType m") (auto simp: stepLeader_def)
    qed
  qed
qed

lemma stepLeader_estep:
  assumes "stepLeader m r = Some r'" "role_ok r" "r_state r = StateLeader"
  shows "estep m r r' \<and> r_Term r' = r_Term r"
  using calm_estep_term [OF stepLeader_calm [OF assms(1)] assms(2)] stepLeader_calm [OF assms(1)] assms(2,3)
  by (simp add: role_ok_def calm_def)

lemma poll_election:
  assumes "poll i v r = (r1, gr)"
  obtains vs where "r1 = r\<lparr>r_votes := vs\<rparr>" "gr = length (filter snd vs)"
    "vs = r_votes r \<or> map_of (r_votes r) i = None \<and> vs = r_votes r @ [(i, v)]"
proof (cases "map_of (r_votes r) i = None")
  case True
  then show ?thesis using assms that [of "r_votes r @ [(i, v)]"] by (auto simp: poll_def Let_def)
next
  case False
  then show ?thesis using assms that [of "r_votes r"] by (auto simp: poll_def Let_def)
qed

text \<open>A node that wins leads its own term with the ballots it has collected.\<close>

lemma becomeLeader_estep:
  assumes "becomeLeader r1 = Some r2" "calm r2 r'" and r1: "r_id r1 = r_id r" "r_Term r \<le> r_Term r1"
    "r_Vote r1 = r_id r" "map fst (r_prs r1) = map fst (r_prs r)" "r_raftLog r1 = r_raftLog r"
    "r_msgs r1 = r_msgs r" "0 < r_Term r1" "r_Term r1 = r_Term r \<and> r_Vote r \<noteq> NoNode \<Longrightarrow> r_Vote r = r_id r"
    and b: "ballots m r (r_Term r1) vs" "length (filter snd vs) = quorum r"
  shows "estep m r r'"
proof -
  obtain r0 where r0: "calm r0 r2" "r_id r0 = r_id r1" "r_Term r0 = r_Term r1" "r_Vote r0 = r_Vote r1"
    "r_state r0 = StateLeader" "r_step r0 = StepLeader" "map fst (r_prs r0) = map fst (r_prs r1)"
    "r_raftLog r0 = r_raftLog r1" "r_msgs r0 = r_msgs r1"
    by (rule becomeLeader_election [OF assms(1)])
  note c = calm_trans [OF r0(1) assms(2)]
  have "role_ok r0" using r0 r1 by (simp add: role_ok_def)
  from calm_estep_term [OF c this] r0 r1 have e: "estep m r0 r'" by simp
  have f: "r_state r' = StateLeader \<and> r_Term r' = r_Term r1 \<and> r_Vote r' = r_id r \<or>
      r_state r' = StateFollower \<and> r_Term r' = r_Term r1 \<and> r_Vote r' = r_id r"
    using c r0 r1 by (auto simp: calm_def)
  have msg: "election_msg m r0 r' x = election_msg m r r' x" for x
    using r0 r1 by (simp add: election_msg_def)
  have x: "\<exists>vs. ballots m r (r_Term r1) vs \<and> length (filter snd vs) = quorum r" using b by blast
  have v: "r_Term r1 = r_Term r \<and> r_Vote r \<noteq> NoNode \<longrightarrow> r_id r = r_Vote r" using r1(8) by simp
  from f show ?thesis
    by (elim disjE) (use e x v r0(2-) r1(1-6) in \<open>simp_all add: estep_def msg\<close>)
qed

lemma if3_cases:
  "(if a then x else if b then y else z) = w \<Longrightarrow> (a \<Longrightarrow> x = w \<Longrightarrow> P) \<Longrightarrow> (y = w \<Longrightarrow> P) \<Longrightarrow> (z = w \<Longrightarrow> P) \<Longrightarrow> P"
  by (auto split: if_splits)

lemma stepCandidate_estep:
  assumes "stepCandidate m r = Some r'" "role_ok r" "r_state r = StateCandidate"
    and "election_input m" "MTerm m = 0 \<or> MTerm m = r_Term r"
  shows "estep m r r' \<and> r_Term r' = r_Term r"
proof -
  have t: "0 < r_Term r" "r_Vote r = r_id r" "r_step r = StepCandidate" using assms(2,3) by (auto simp: role_ok_def)
  have calm: "calm r r' \<Longrightarrow> ?thesis"
    using calm_estep_term [OF _ assms(2) t(1)] by (simp add: calm_def)
  have follow: ?thesis if "becomeFollower (r_Term r) lead r = Some r1" "calm r1 r'" for lead r1
    by (rule calm) (rule calm_trans [OF becomeFollower_calm [OF that(1)] that(2)])
  show ?thesis
  proof (cases "MType m")
    case MsgApp
    then show ?thesis
      using assms(1) follow handleAppendEntries_calm by (auto simp: stepCandidate_def bind_eq_Some_conv)
  next
    case MsgHeartbeat
    then show ?thesis
      using assms(1) follow handleHeartbeat_calm by (auto simp: stepCandidate_def bind_eq_Some_conv)
  next
    case MsgSnap
    then have "MTerm m = r_Term r" using assms(4,5) by (auto simp: election_input_def)
    with MsgSnap assms(1) obtain r1 where r1: "becomeFollower (r_Term r) (MFrom m) r = Some r1"
      and h: "handleSnapshot m r1 = Some r'"
      by (auto simp: stepCandidate_def bind_eq_Some_conv)
    note f = becomeFollower_election [OF r1]
    have "role_ok r1" using f by (simp add: role_ok_def)
    from handleSnapshot_estep [OF h this f(4) MsgSnap] have e: "estep m r1 r'" "r_Term r' = r_Term r1" by auto
    have msg: "election_msg m r1 r' x = election_msg m r r' x" for x
      using f by (simp add: election_msg_def)
    have b: "\<not> ballots m r1 (r_Term r') vs" for vs using e(2) f by (simp add: ballots_def)
    then have "r_state r' = StateFollower" using e(1) f by (cases "r_state r'") (auto simp: estep_def)
    then show ?thesis using e f by (simp add: estep_def msg)
  next
    case MsgVote
    then show ?thesis using assms(1) calm rejectVote_calm [of r m] by (simp add: stepCandidate_def)
  next
    case MsgVoteResp
    obtain r1 gr where p: "poll (MFrom m) (\<not> MReject m) r = (r1, gr)" by fastforce
    obtain vs where r1: "r1 = r\<lparr>r_votes := vs\<rparr>" and gr: "gr = length (filter snd vs)"
      and vs: "vs = r_votes r \<or> map_of (r_votes r) (MFrom m) = None \<and> vs = r_votes r @ [(MFrom m, \<not> MReject m)]"
      by (rule poll_election [OF p])
    have q: "quorum r1 = quorum r" by (simp add: quorum_def r1)
    have "\<not> MReject m \<Longrightarrow> MTerm m = r_Term r"
      using MsgVoteResp assms(4,5) by (auto simp: election_input_def vote_msg_def)
    then have b: "ballots m r (r_Term r) vs"
      using vs MsgVoteResp assms(3) by (auto simp: ballots_def)
    from MsgVoteResp p assms(1) have "(if quorum r1 = gr then do { r \<leftarrow> becomeLeader r1; bcastAppend r }
             else if quorum r1 = length (r_votes r1) - gr then becomeFollower (r_Term r1) NoNode r1
             else Some r1) = Some r'"
      by (simp add: stepCandidate_def)
    then consider (win) "gr = quorum r" "do { r \<leftarrow> becomeLeader r1; bcastAppend r } = Some r'"
    | (lose) "becomeFollower (r_Term r1) NoNode r1 = Some r'" | (wait) "r' = r1"
      unfolding q by (rule if3_cases) (metis, metis, metis option.inject)
    then show ?thesis
    proof cases
      case win
      from win(2) obtain r2 where w: "becomeLeader r1 = Some r2" "bcastAppend r2 = Some r'"
        by (auto simp: bind_eq_Some_conv)
      have "estep m r r'"
        by (rule becomeLeader_estep [OF w(1) bcastAppend_calm [OF w(2)], where vs = vs])
          (use t b win(1) gr in \<open>simp_all add: r1\<close>)
      moreover have "r_Term r' = r_Term r"
        by (rule becomeLeader_election [OF w(1)])
          (use bcastAppend_calm [OF w(2)] in \<open>simp add: r1 calm_def\<close>)
      ultimately show ?thesis ..
    next
      case lose
      from becomeFollower_election [OF lose] show ?thesis
        by (intro calm) (simp add: r1 calm_def)
    next
      case wait
      then show ?thesis
        using t b assms(3) by (simp add: r1 estep_def role_ok_def)
    qed
  qed (use assms(1) calm in \<open>simp_all add: stepCandidate_def\<close>)
qed

lemma campaign_estep:
  assumes "campaign r = Some r'" "r_Term r < max_u64" "r_id r \<noteq> NoNode"
  shows "estep m r r'"
proof -
  from assms(1) obtain r1 where c: "becomeCandidate r = Some r1" by (auto simp: campaign_def bind_eq_Some_conv)
  note f = becomeCandidate_election [OF c assms(2)]
  obtain r2 gr where p: "poll (r_id r1) True r1 = (r2, gr)" by fastforce
  have r2: "r2 = r1\<lparr>r_votes := [(r_id r, True)]\<rparr>" "gr = 1"
    using p f by (auto simp: poll_def Let_def)
  have b: "ballots m r (Suc (r_Term r)) [(r_id r, True)]" by (simp add: ballots_def)
  have l: "length (r_prs r1) = length (r_prs r)" using arg_cong [OF f(7), of length] by simp
  let ?ask = "\<lambda>i r. if i = r_id r then Some r else do {
      li \<leftarrow> r_lastIndex r;
      lt \<leftarrow> l_lastTerm (r_raftLog r);
      Some (send (zero_message\<lparr>MTo := i, MType := MsgVote, MIndex := li, MLogTerm := lt\<rparr>) r)
    }"
  from assms(1) c p r2 consider (win) "quorum r2 = 1" "becomeLeader r2 = Some r'"
    | (ask) "ofold ?ask (map fst (r_prs r2)) r2 = Some r'"
    by (auto simp: campaign_def split: if_splits)
  then show ?thesis
  proof cases
    case win
    show ?thesis
      by (rule becomeLeader_estep [OF win(2) calm_refl, where vs = "[(r_id r, True)]"])
        (use f r2 b win(1) l in \<open>auto simp: quorum_def\<close>)
  next
    case ask
    let ?P = "\<lambda>x. \<exists>ms. x = r2\<lparr>r_msgs := r_msgs r2 @ ms\<rparr> \<and>
      (\<forall>y \<in> set ms. MFrom y = r_id r \<and> MTerm y = Suc (r_Term r) \<and> MType y = MsgVote)"
    have "?P r'"
    proof (rule ofold_invariant [OF ask])
      show "?P r2" by (rule exI [of _ "[]"]) simp
    next
      fix i x y
      assume "?P x" and y: "?ask i x = Some y"
      then obtain ms where ms: "x = r2\<lparr>r_msgs := r_msgs r2 @ ms\<rparr>"
        "\<forall>y \<in> set ms. MFrom y = r_id r \<and> MTerm y = Suc (r_Term r) \<and> MType y = MsgVote" by auto
      from y consider "y = x" | li lt where
        "y = send (zero_message\<lparr>MTo := i, MType := MsgVote, MIndex := li, MLogTerm := lt\<rparr>) x"
        by (auto simp: bind_eq_Some_conv split: if_splits)
      then show "?P y"
      proof cases
        case 2
        let ?m = "zero_message\<lparr>MTo := i, MType := MsgVote, MIndex := li, MLogTerm := lt,
          MFrom := r_id r, MTerm := Suc (r_Term r)\<rparr>"
        show ?thesis
          by (rule exI [of _ "ms @ [?m]"]) (use 2 ms f r2(1) in \<open>auto simp: send_def Let_def\<close>)
      qed (use \<open>?P x\<close> in simp)
    qed
    then obtain ms where r': "r' = r2\<lparr>r_msgs := r_msgs r2 @ ms\<rparr>"
      "\<forall>y \<in> set ms. MFrom y = r_id r \<and> MTerm y = Suc (r_Term r) \<and> MType y = MsgVote" by blast
    show ?thesis
      using f r2 b r' by (auto simp: estep_def role_ok_def election_msg_def)
  qed
qed

lemma step_fn_estep:
  assumes "step_fn m r = Some r'" "role_ok r" "election_input m" "MTerm m = 0 \<or> MTerm m = r_Term r"
  shows "estep m r r' \<and> r_Term r' = r_Term r"
proof (cases "r_state r")
  case StateFollower
  then show ?thesis
    using assms by (intro stepFollower_estep) (simp_all add: step_fn_def role_ok_def)
next
  case StateCandidate
  then show ?thesis
    using assms by (intro stepCandidate_estep) (simp_all add: step_fn_def role_ok_def)
next
  case StateLeader
  then show ?thesis
    using assms by (intro stepLeader_estep) (simp_all add: step_fn_def role_ok_def)
qed

lemma estep_refl: "role_ok r \<Longrightarrow> estep m r r"
  by (rule calm_estep) auto

text \<open>Every step of a node is an election step.\<close>

lemma Step_estep:
  assumes "Step m r = Some r'" "role_ok r" "election_input m" "r_Term r < max_u64" "r_id r \<noteq> NoNode"
  shows "estep m r r'"
proof -
  consider (hup) "MType m = MsgHup" | (now) "MType m \<noteq> MsgHup" "MTerm m = 0 \<or> MTerm m = r_Term r"
    | (newer) "MType m \<noteq> MsgHup" "r_Term r < MTerm m" | (older) "MType m \<noteq> MsgHup" "MTerm m \<noteq> 0" "MTerm m < r_Term r"
    by (cases "MTerm m" "r_Term r" rule: linorder_cases) auto
  then show ?thesis
  proof cases
    case hup
    then show ?thesis
      using assms campaign_estep [OF _ assms(4,5)] estep_refl [OF assms(2)] by (auto simp: Step_def split: if_splits)
  next
    case now
    then show ?thesis
      using assms step_fn_estep [OF _ assms(2,3)] by (auto simp: Step_def split: if_splits)
  next
    case newer
    then have nz: "MTerm m \<noteq> 0" by simp
    with newer assms(1) obtain lead r1 where r1: "becomeFollower (MTerm m) lead r = Some r1"
      and s: "step_fn m r1 = Some r'"
      by (auto simp: Step_def bind_eq_Some_conv Let_def)
    note f = becomeFollower_election [OF r1]
    from f have "role_ok r1" by (simp add: role_ok_def)
    from step_fn_estep [OF s this assms(3)] f show ?thesis
      by (intro estep_follow [OF _ r1 newer(2)]) auto
  next
    case older
    then show ?thesis using assms(1) estep_refl [OF assms(2)] by (simp add: Step_def)
  qed
qed

lemma Step_local_calm:
  assumes "Step (zero_message\<lparr>MFrom := i, MType := t\<rparr>) r = Some r'" "t = MsgCheckQuorum \<or> t = MsgBeat"
  shows "calm r r' \<and> (r_step r \<noteq> StepLeader \<longrightarrow> r' = r)"
  using assms stepLeader_calm [of _ r r']
  by (auto simp: Step_def step_fn_def stepFollower_def stepCandidate_def zero_message_def split: stepFunc.splits)

lemma tickQuorum_calm:
  assumes "tickQuorum r = Some ra"
  shows "calm r ra \<and> (r_step r \<noteq> StepLeader \<longrightarrow> r_msgs ra = r_msgs r \<and> r_step ra = r_step r)"
proof (cases "r_electionTimeout r \<le> r_electionElapsed r \<and> r_checkQuorum r")
  case True
  let ?r = "r\<lparr>r_electionElapsed := 0\<rparr>"
  from True assms have "Step (zero_message\<lparr>MFrom := r_id r, MType := MsgCheckQuorum\<rparr>) ?r = Some ra"
    by (simp add: tickQuorum_def)
  from Step_local_calm [OF this] have "calm ?r ra" "r_step r \<noteq> StepLeader \<Longrightarrow> ra = ?r" by simp_all
  then show ?thesis using calm_trans [OF calm_fields(2) [of r 0], of ra] by simp
next
  case False
  with assms show ?thesis by (auto simp: tickQuorum_def split: if_splits)
qed

lemma tickHeartbeat_calm:
  assumes "tickHeartbeat r = Some r'"
  shows "calm r r' \<and> (r_step r \<noteq> StepLeader \<longrightarrow> r_msgs r' = r_msgs r)"
proof -
  let ?r = "r\<lparr>r_heartbeatElapsed := r_heartbeatElapsed r + 1, r_electionElapsed := r_electionElapsed r + 1\<rparr>"
  from assms obtain ra where q: "tickQuorum ?r = Some ra"
    and k: "r' = ra \<or> Step (zero_message\<lparr>MFrom := r_id ra, MType := MsgBeat\<rparr>) (ra\<lparr>r_heartbeatElapsed := 0\<rparr>) = Some r'"
    by (auto simp: tickHeartbeat_def bind_eq_Some_conv split: if_splits)
  have "calm r ?r" by (simp add: calm_def)
  then have ra: "calm r ra" "r_step r \<noteq> StepLeader \<Longrightarrow> r_msgs ra = r_msgs r \<and> r_step ra = r_step r"
    using tickQuorum_calm [OF q] calm_trans [of r ?r ra] by simp_all
  from k show ?thesis
  proof
    assume "Step (zero_message\<lparr>MFrom := r_id ra, MType := MsgBeat\<rparr>) (ra\<lparr>r_heartbeatElapsed := 0\<rparr>) = Some r'"
    from Step_local_calm [OF this] have "calm (ra\<lparr>r_heartbeatElapsed := 0\<rparr>) r'"
      "r_step ra \<noteq> StepLeader \<Longrightarrow> r' = ra\<lparr>r_heartbeatElapsed := 0\<rparr>" by simp_all
    moreover from calm_trans [OF calm_fields(3) this(1)] have "calm ra r'" .
    ultimately show ?thesis using ra calm_trans [of r ra r'] by simp
  qed (use ra in simp)
qed

text \<open>A tick is an election step without an input message.\<close>

lemma tick_estep:
  assumes "tick rnd r = Some r'" "role_ok r" "r_Term r < max_u64" "r_id r \<noteq> NoNode"
  shows "estep (zero_message\<lparr>MFrom := r_id r, MType := MsgHup\<rparr>) r r'"
proof (cases "r_tick r")
  case TickElection
  let ?m = "zero_message\<lparr>MFrom := r_id r, MType := MsgHup\<rparr>"
  have t: "estep ?m r (r\<lparr>r_electionElapsed := n\<rparr>)" for n
    by (rule calm_estep [OF _ assms(2)]) auto
  from TickElection assms(1) consider n where "r' = r\<lparr>r_electionElapsed := n\<rparr>"
    | "Step ?m (r\<lparr>r_electionElapsed := 0\<rparr>) = Some r'"
    by (auto simp: tick_def tickElection_def bind_eq_Some_conv Let_def split: if_splits)
  then show ?thesis
  proof cases
    case 2
    then have "estep ?m (r\<lparr>r_electionElapsed := 0\<rparr>) r'"
      by (rule Step_estep) (use assms in \<open>simp_all add: timer_frame election_input_def vote_msg_def\<close>)
    then show ?thesis by (simp add: timer_frame)
  qed (simp add: t)
next
  case TickHeartbeat
  with assms(1) have h: "tickHeartbeat r = Some r'" by (simp add: tick_def)
  show ?thesis
  proof (rule calm_estep)
    show "calm r r'" using tickHeartbeat_calm [OF h] ..
    fix ms assume "r_msgs r' = r_msgs r @ ms" "r_Term r = 0"
    with tickHeartbeat_calm [OF h] assms(2) have "ms = []" by (auto simp: role_ok_def split: StateType.splits)
    then show "\<forall>x \<in> set ms. MType x \<noteq> MsgSnap" by simp
  qed (rule assms(2))
qed

end
