(* ===== verification/Raft_Pb.thy ===== *)
theory Raft_Pb
  imports Raft_Types
begin

text \<open>
  The protobuf codec of the raft messages, \<^verbatim>\<open>raft/raftpb/raft.pb.go\<close>.  A \<^verbatim>\<open>MarshalTo\<close> method
  is the list of bytes it writes; \<^verbatim>\<open>Marshal\<close> allocates \<^verbatim>\<open>Size\<close> bytes and panics when the
  method writes past them.
\<close>

section \<open>Encoding\<close>

abbreviation byte :: "nat \<Rightarrow> char" where
  "byte n \<equiv> char_of n"

fun encodeVarintRaft :: "u64 \<Rightarrow> bytes" where
  "encodeVarintRaft v =
     (if v \<ge> 128 then byte (v mod 128 + 128) # encodeVarintRaft (v div 128) else [byte v])"

declare encodeVarintRaft.simps [simp del]

fun message_type_num :: "MessageType \<Rightarrow> u64" where
  "message_type_num MsgHup = 0"
| "message_type_num MsgBeat = 1"
| "message_type_num MsgProp = 2"
| "message_type_num MsgApp = 3"
| "message_type_num MsgAppResp = 4"
| "message_type_num MsgVote = 5"
| "message_type_num MsgVoteResp = 6"
| "message_type_num MsgSnap = 7"
| "message_type_num MsgHeartbeat = 8"
| "message_type_num MsgHeartbeatResp = 9"
| "message_type_num MsgUnreachable = 10"
| "message_type_num MsgSnapStatus = 11"
| "message_type_num MsgCheckQuorum = 12"
| "message_type_num (MsgTypeOther n) = int32_u64 n"

fun conf_change_type_num :: "ConfChangeType \<Rightarrow> u64" where
  "conf_change_type_num ConfChangeAddNode = 0"
| "conf_change_type_num ConfChangeRemoveNode = 1"
| "conf_change_type_num ConfChangeUpdateNode = 2"
| "conf_change_type_num (ConfChangeTypeOther n) = int32_u64 n"

text \<open>The three shapes of a field: an integer, bytes that may be nil, an embedded message.\<close>

definition put_varint :: "nat \<Rightarrow> u64 \<Rightarrow> bytes" where
  "put_varint tag v = byte tag # encodeVarintRaft v"

definition put_chunk :: "nat \<Rightarrow> bytes \<Rightarrow> bytes" where
  "put_chunk tag d = byte tag # encodeVarintRaft (length d) @ d"

definition put_bytes :: "nat \<Rightarrow> bytes option \<Rightarrow> bytes" where
  "put_bytes tag d = (case d of None \<Rightarrow> [] | Some d \<Rightarrow> put_chunk tag d)"

definition Entry_MarshalTo :: "Entry \<Rightarrow> bytes" where
  "Entry_MarshalTo m =
     put_varint 0x8 (entry_type_num (EType m)) @ put_varint 0x10 (ETerm m) @
     put_varint 0x18 (EIndex m) @ put_bytes 0x22 (EData m)"

definition HardState_MarshalTo :: "HardState \<Rightarrow> bytes" where
  "HardState_MarshalTo m =
     put_varint 0x8 (HTerm m) @ put_varint 0x10 (HVote m) @ put_varint 0x18 (HCommit m)"

definition ConfState_MarshalTo :: "u64 list \<Rightarrow> bytes" where
  "ConfState_MarshalTo ns = concat (map (put_varint 0x8) ns)"

definition ConfChange_MarshalTo :: "ConfChange \<Rightarrow> bytes" where
  "ConfChange_MarshalTo m =
     put_varint 0x8 (CCID m) @ put_varint 0x10 (conf_change_type_num (CCType m)) @
     put_varint 0x18 (CCNodeID m) @ put_bytes 0x22 (CCContext m)"

section \<open>Sizes\<close>

definition size_varint :: "u64 \<Rightarrow> nat" where
  "size_varint v = 1 + sovRaft v"

definition size_chunk :: "nat \<Rightarrow> nat" where
  "size_chunk l = 1 + l + sovRaft l"

definition HardState_Size :: "HardState \<Rightarrow> nat" where
  "HardState_Size m = size_varint (HTerm m) + size_varint (HVote m) + size_varint (HCommit m)"

definition ConfState_Size :: "u64 list \<Rightarrow> nat" where
  "ConfState_Size ns = sum_list (map size_varint ns)"

definition ConfChange_Size :: "ConfChange \<Rightarrow> nat" where
  "ConfChange_Size m =
     size_varint (CCID m) + size_varint (conf_change_type_num (CCType m)) + size_varint (CCNodeID m) +
     (case CCContext m of None \<Rightarrow> 0 | Some d \<Rightarrow> size_chunk (length d))"

definition SnapshotMetadata_Size :: "SnapshotMetadata \<Rightarrow> nat" where
  "SnapshotMetadata_Size m = size_chunk (ConfState_Size (SConf m)) + size_varint (SIndex m) + size_varint (STerm m)"

definition Snapshot_Size :: "Snapshot \<Rightarrow> nat" where
  "Snapshot_Size m =
     (case SData m of None \<Rightarrow> 0 | Some d \<Rightarrow> size_chunk (length d)) +
     size_chunk (SnapshotMetadata_Size (SMetadata m))"

definition Message_Size :: "Message \<Rightarrow> nat" where
  "Message_Size m =
     size_varint (message_type_num (MType m)) + size_varint (MTo m) + size_varint (MFrom m) +
     size_varint (MTerm m) + size_varint (MLogTerm m) + size_varint (MIndex m) +
     sum_list (map (\<lambda>e. size_chunk (entry_Size e)) (MEntries m)) +
     size_varint (MCommit m) + size_chunk (Snapshot_Size (MSnapshot m)) + 2 + size_varint (MRejectHint m)"

text \<open>The length prefix of an embedded message is the value of its \<^verbatim>\<open>Size\<close>.\<close>

definition put_message :: "nat \<Rightarrow> nat \<Rightarrow> bytes \<Rightarrow> bytes" where
  "put_message tag sz d = byte tag # encodeVarintRaft sz @ d"

definition SnapshotMetadata_MarshalTo :: "SnapshotMetadata \<Rightarrow> bytes" where
  "SnapshotMetadata_MarshalTo m =
     put_message 0xa (ConfState_Size (SConf m)) (ConfState_MarshalTo (SConf m)) @
     put_varint 0x10 (SIndex m) @ put_varint 0x18 (STerm m)"

definition Snapshot_MarshalTo :: "Snapshot \<Rightarrow> bytes" where
  "Snapshot_MarshalTo m =
     put_bytes 0xa (SData m) @
     put_message 0x12 (SnapshotMetadata_Size (SMetadata m)) (SnapshotMetadata_MarshalTo (SMetadata m))"

definition Message_MarshalTo :: "Message \<Rightarrow> bytes" where
  "Message_MarshalTo m =
     put_varint 0x8 (message_type_num (MType m)) @ put_varint 0x10 (MTo m) @ put_varint 0x18 (MFrom m) @
     put_varint 0x20 (MTerm m) @ put_varint 0x28 (MLogTerm m) @ put_varint 0x30 (MIndex m) @
     concat (map (\<lambda>e. put_message 0x3a (entry_Size e) (Entry_MarshalTo e)) (MEntries m)) @
     put_varint 0x40 (MCommit m) @
     put_message 0x4a (Snapshot_Size (MSnapshot m)) (Snapshot_MarshalTo (MSnapshot m)) @
     [byte 0x50, byte (if MReject m then 1 else 0)] @ put_varint 0x58 (MRejectHint m)"

section \<open>Marshal\<close>

text \<open>
  The buffer has \<^verbatim>\<open>Size\<close> bytes: a longer output is an index out of range, a shorter one is cut
  to what was written.
\<close>

definition marshal_into :: "nat \<Rightarrow> bytes \<Rightarrow> bytes option" where
  "marshal_into sz d = (if length d \<le> sz then Some d else None)"

definition Entry_Marshal :: "Entry \<Rightarrow> bytes option" where
  "Entry_Marshal m = marshal_into (entry_Size m) (Entry_MarshalTo m)"

definition HardState_Marshal :: "HardState \<Rightarrow> bytes option" where
  "HardState_Marshal m = marshal_into (HardState_Size m) (HardState_MarshalTo m)"

definition ConfState_Marshal :: "u64 list \<Rightarrow> bytes option" where
  "ConfState_Marshal m = marshal_into (ConfState_Size m) (ConfState_MarshalTo m)"

definition ConfChange_Marshal :: "ConfChange \<Rightarrow> bytes option" where
  "ConfChange_Marshal m = marshal_into (ConfChange_Size m) (ConfChange_MarshalTo m)"

definition SnapshotMetadata_Marshal :: "SnapshotMetadata \<Rightarrow> bytes option" where
  "SnapshotMetadata_Marshal m = marshal_into (SnapshotMetadata_Size m) (SnapshotMetadata_MarshalTo m)"

definition Snapshot_Marshal :: "Snapshot \<Rightarrow> bytes option" where
  "Snapshot_Marshal m = marshal_into (Snapshot_Size m) (Snapshot_MarshalTo m)"

definition Message_Marshal :: "Message \<Rightarrow> bytes option" where
  "Message_Marshal m = marshal_into (Message_Size m) (Message_MarshalTo m)"

section \<open>Size is the length of the encoding\<close>

lemma encodeVarintRaft_length: "length (encodeVarintRaft v) = sovRaft v"
proof (induction v rule: encodeVarintRaft.induct)
  case (1 v)
  show ?case
  proof (cases "v \<ge> 128")
    case True
    then have "v div 128 \<noteq> 0" by (simp add: div_eq_0_iff)
    with 1 [OF True] True show ?thesis by (subst encodeVarintRaft.simps, subst sovRaft.simps) simp
  next
    case False
    then show ?thesis by (subst encodeVarintRaft.simps, subst sovRaft.simps) simp
  qed
qed

named_theorems pb_size \<open>the length of an encoding is its size\<close>

lemma put_length [pb_size]:
  "length (put_varint t v) = size_varint v" "length (put_chunk t d) = size_chunk (length d)"
  "length (put_bytes t d') = (case d' of None \<Rightarrow> 0 | Some d \<Rightarrow> size_chunk (length d))"
  "length (put_message t (length d) d) = size_chunk (length d)"
  by (auto simp: put_varint_def put_chunk_def put_bytes_def put_message_def size_varint_def size_chunk_def
      encodeVarintRaft_length split: option.split)

lemma put_message_length [pb_size]: "length d = n \<Longrightarrow> length (put_message t n d) = size_chunk n"
  using put_length(4) by auto

lemma Entry_MarshalTo_length [pb_size]: "length (Entry_MarshalTo m) = entry_Size m"
  by (simp add: Entry_MarshalTo_def entry_Size_def pb_size size_varint_def size_chunk_def split: option.split)

lemma HardState_MarshalTo_length [pb_size]: "length (HardState_MarshalTo m) = HardState_Size m"
  by (simp add: HardState_MarshalTo_def HardState_Size_def pb_size)

lemma ConfState_MarshalTo_length [pb_size]: "length (ConfState_MarshalTo m) = ConfState_Size m"
  by (induction m) (simp_all add: ConfState_MarshalTo_def ConfState_Size_def pb_size)

lemma ConfChange_MarshalTo_length [pb_size]: "length (ConfChange_MarshalTo m) = ConfChange_Size m"
  by (simp add: ConfChange_MarshalTo_def ConfChange_Size_def pb_size split: option.split)

lemma SnapshotMetadata_MarshalTo_length [pb_size]: "length (SnapshotMetadata_MarshalTo m) = SnapshotMetadata_Size m"
  by (simp add: SnapshotMetadata_MarshalTo_def SnapshotMetadata_Size_def pb_size)

lemma Snapshot_MarshalTo_length [pb_size]: "length (Snapshot_MarshalTo m) = Snapshot_Size m"
  by (simp add: Snapshot_MarshalTo_def Snapshot_Size_def pb_size split: option.split)

lemma entries_length: "length (concat (map (\<lambda>e. put_message t (entry_Size e) (Entry_MarshalTo e)) es)) =
    sum_list (map (\<lambda>e. size_chunk (entry_Size e)) es)"
  by (induction es) (simp_all add: pb_size)

lemma Message_MarshalTo_length [pb_size]: "length (Message_MarshalTo m) = Message_Size m"
  by (simp add: Message_MarshalTo_def Message_Size_def pb_size entries_length)

text \<open>So no \<^verbatim>\<open>Marshal\<close> panics, and each returns all that \<^verbatim>\<open>MarshalTo\<close> writes.\<close>

lemma Marshal_total:
  "Entry_Marshal e = Some (Entry_MarshalTo e)" "HardState_Marshal h = Some (HardState_MarshalTo h)"
  "ConfState_Marshal ns = Some (ConfState_MarshalTo ns)" "ConfChange_Marshal c = Some (ConfChange_MarshalTo c)"
  "SnapshotMetadata_Marshal sm = Some (SnapshotMetadata_MarshalTo sm)"
  "Snapshot_Marshal s = Some (Snapshot_MarshalTo s)" "Message_Marshal m = Some (Message_MarshalTo m)"
  by (simp_all add: Entry_Marshal_def HardState_Marshal_def ConfState_Marshal_def ConfChange_Marshal_def
      SnapshotMetadata_Marshal_def Snapshot_Marshal_def Message_Marshal_def marshal_into_def pb_size)

end
