(* ===== verification/Raft_Node.thy ===== *)
theory Raft_Node
  imports Raft_Core Raft_Pb
begin

text \<open>
  The node around the raft state machine: \<^verbatim>\<open>raft/node.go\<close>, \<^verbatim>\<open>raft/rawnode.go\<close>,
  \<^verbatim>\<open>raft/status.go\<close> and the message classes of \<^verbatim>\<open>raft/util.go\<close>.  The goroutine
  \<^verbatim>\<open>node.run\<close> is a state machine: its state is what the goroutine holds while it waits in
  the select statement, and every event is the handling of one channel followed by the top
  of the loop.  The channels themselves and the stop handshake are not part of the state.
\<close>

section \<open>Ready\<close>

definition ss_equal :: "SoftState \<Rightarrow> SoftState \<Rightarrow> bool" where
  "ss_equal a b \<longleftrightarrow> ss_Lead a = ss_Lead b \<and> ss_RaftState a = ss_RaftState b"

record Ready =
  rd_SoftState :: "SoftState option"
  rd_HardState :: HardState
  rd_Entries :: "Entry list"
  rd_Snapshot :: Snapshot
  rd_CommittedEntries :: "Entry list"
  rd_Messages :: "Message list"

definition zero_ready :: Ready where
  "zero_ready = \<lparr>rd_SoftState = None, rd_HardState = emptyState, rd_Entries = [],
     rd_Snapshot = zero_snapshot, rd_CommittedEntries = [], rd_Messages = []\<rparr>"

definition IsEmptyHardState :: "HardState \<Rightarrow> bool" where
  "IsEmptyHardState st \<longleftrightarrow> isHardStateEqual st emptyState"

definition containsUpdates :: "Ready \<Rightarrow> bool" where
  "containsUpdates rd \<longleftrightarrow> rd_SoftState rd \<noteq> None \<or> \<not> IsEmptyHardState (rd_HardState rd) \<or>
     \<not> IsEmptySnap (rd_Snapshot rd) \<or> length (rd_Entries rd) > 0 \<or>
     length (rd_CommittedEntries rd) > 0 \<or> length (rd_Messages rd) > 0"

definition newReady :: "raft \<Rightarrow> SoftState \<Rightarrow> HardState \<Rightarrow> Ready option" where
  "newReady r prevSoftSt prevHardSt = do {
     committed \<leftarrow> l_nextEnts (r_raftLog r);
     Some \<lparr>rd_SoftState = (if \<not> ss_equal (softState r) prevSoftSt then Some (softState r) else None),
           rd_HardState = (if \<not> isHardStateEqual (hardState r) prevHardSt then hardState r else emptyState),
           rd_Entries = l_unstableEntries (r_raftLog r),
           rd_Snapshot = (case u_snapshot (l_unstable (r_raftLog r)) of None \<Rightarrow> zero_snapshot | Some s \<Rightarrow> s),
           rd_CommittedEntries = committed,
           rd_Messages = r_msgs r\<rparr>
   }"

section \<open>Message classes and status\<close>

definition IsLocalMsg :: "Message \<Rightarrow> bool" where
  "IsLocalMsg m \<longleftrightarrow> MType m = MsgHup \<or> MType m = MsgBeat \<or> MType m = MsgUnreachable \<or>
     MType m = MsgSnapStatus \<or> MType m = MsgCheckQuorum"

definition IsResponseMsg :: "Message \<Rightarrow> bool" where
  "IsResponseMsg m \<longleftrightarrow> MType m = MsgAppResp \<or> MType m = MsgVoteResp \<or> MType m = MsgHeartbeatResp \<or>
     MType m = MsgUnreachable"

record Status =
  st_ID :: u64
  st_HardState :: HardState
  st_SoftState :: SoftState
  st_Applied :: u64
  st_Progress :: "(u64 \<times> Progress) list"

definition getStatus :: "raft \<Rightarrow> Status" where
  "getStatus r = \<lparr>st_ID = r_id r, st_HardState = hardState r, st_SoftState = softState r,
     st_Applied = l_applied (r_raftLog r),
     st_Progress = (if r_state r = StateLeader then r_prs r else [])\<rparr>"

section \<open>Start\<close>

record Peer =
  pe_ID :: u64
  pe_Context :: "bytes option"

definition peer_entry :: "Peer \<Rightarrow> u64 \<Rightarrow> Entry option" where
  "peer_entry p i = do {
     d \<leftarrow> ConfChange_Marshal \<lparr>CCID = 0, CCType = ConfChangeAddNode, CCNodeID = pe_ID p, CCContext = pe_Context p\<rparr>;
     Some \<lparr>EType = EntryConfChange, ETerm = 1, EIndex = i, EData = Some d\<rparr>
   }"

text \<open>The raft state that \<^verbatim>\<open>StartNode\<close> hands to the goroutine.\<close>

definition StartNode :: "Config \<Rightarrow> Peer list \<Rightarrow> raft option" where
  "StartNode c peers = do {
     r \<leftarrow> newRaft c;
     r \<leftarrow> becomeFollower 1 NoNode r;
     r \<leftarrow> ofold (\<lambda>peer r. do {
           li \<leftarrow> l_lastIndex (r_raftLog r);
           e \<leftarrow> peer_entry peer (add64 li 1);
           res \<leftarrow> l_append [e] (r_raftLog r);
           Some (r\<lparr>r_raftLog := fst res\<rparr>)
         }) peers r;
     li \<leftarrow> l_lastIndex (r_raftLog r);
     let r = r\<lparr>r_raftLog := (r_raftLog r)\<lparr>l_committed := li\<rparr>\<rparr>;
     ofold (\<lambda>peer r. addNode (pe_ID peer) r) peers r
   }"

definition RestartNode :: "Config \<Rightarrow> raft option" where
  "RestartNode c = newRaft c"

section \<open>The goroutine\<close>

record node =
  n_raft :: raft
  n_propc :: bool
  n_propcNil :: bool
  n_lead :: u64
  n_prevSoftSt :: SoftState
  n_prevHardSt :: HardState
  n_advancec :: bool
  n_readyc :: bool
  n_rd :: Ready
  n_prevLastUnstable :: "u64 \<times> u64"
  n_havePrevLastUnstablei :: bool
  n_prevSnapi :: u64

text \<open>The top of the loop: the next Ready, and whether proposals are taken.\<close>

definition node_top :: "node \<Rightarrow> node option" where
  "node_top n = do {
     n \<leftarrow> (if n_advancec n then Some (n\<lparr>n_readyc := False\<rparr>)
          else do {
            rd \<leftarrow> newReady (n_raft n) (n_prevSoftSt n) (n_prevHardSt n);
            Some (n\<lparr>n_rd := rd, n_readyc := containsUpdates rd\<rparr>)
          });
     Some (if n_lead n \<noteq> r_lead (n_raft n)
           then n\<lparr>n_propc := hasLeader (n_raft n) \<and> \<not> n_propcNil n, n_lead := r_lead (n_raft n)\<rparr>
           else n)
   }"

definition node_start :: "raft \<Rightarrow> node option" where
  "node_start r = node_top
     \<lparr>n_raft = r, n_propc = False, n_propcNil = False, n_lead = NoNode, n_prevSoftSt = softState r,
      n_prevHardSt = emptyState, n_advancec = False, n_readyc = False, n_rd = zero_ready,
      n_prevLastUnstable = (0, 0), n_havePrevLastUnstablei = False, n_prevSnapi = 0\<rparr>"

datatype nodeEvent = EvProp Message | EvRecv Message | EvConf ConfChange | EvTick nat | EvReady | EvAdvance

text \<open>Whether the select statement can take an event.\<close>

fun node_enabled :: "nodeEvent \<Rightarrow> node \<Rightarrow> bool" where
  "node_enabled (EvProp _) n = (n_propc n \<and> \<not> n_propcNil n)"
| "node_enabled EvReady n = n_readyc n"
| "node_enabled EvAdvance n = n_advancec n"
| "node_enabled _ n = True"

definition node_applyConf :: "ConfChange \<Rightarrow> node \<Rightarrow> node option" where
  "node_applyConf cc n =
     (if CCNodeID cc = NoNode then Some (n\<lparr>n_raft := resetPendingConf (n_raft n)\<rparr>)
      else case CCType cc of
        ConfChangeAddNode \<Rightarrow> do { r \<leftarrow> addNode (CCNodeID cc) (n_raft n); Some (n\<lparr>n_raft := r\<rparr>) }
      | ConfChangeRemoveNode \<Rightarrow> do {
          let n = (if CCNodeID cc = r_id (n_raft n) then n\<lparr>n_propcNil := True\<rparr> else n);
          r \<leftarrow> removeNode (CCNodeID cc) (n_raft n);
          Some (n\<lparr>n_raft := r\<rparr>)
        }
      | ConfChangeUpdateNode \<Rightarrow> Some (n\<lparr>n_raft := resetPendingConf (n_raft n)\<rparr>)
      | ConfChangeTypeOther _ \<Rightarrow> None)"

definition node_takeReady :: "node \<Rightarrow> node" where
  "node_takeReady n =
     (let rd = n_rd n;
          n = (case rd_SoftState rd of None \<Rightarrow> n | Some ss \<Rightarrow> n\<lparr>n_prevSoftSt := ss\<rparr>);
          n = (if rd_Entries rd \<noteq> []
               then n\<lparr>n_prevLastUnstable := (EIndex (last (rd_Entries rd)), ETerm (last (rd_Entries rd))),
                      n_havePrevLastUnstablei := True\<rparr>
               else n);
          n = (if \<not> IsEmptyHardState (rd_HardState rd) then n\<lparr>n_prevHardSt := rd_HardState rd\<rparr> else n);
          n = (if \<not> IsEmptySnap (rd_Snapshot rd) then n\<lparr>n_prevSnapi := snap_index (rd_Snapshot rd)\<rparr> else n)
      in n\<lparr>n_raft := (n_raft n)\<lparr>r_msgs := []\<rparr>, n_advancec := True\<rparr>)"

definition node_advance :: "node \<Rightarrow> node option" where
  "node_advance n = do {
     l \<leftarrow> (if HCommit (n_prevHardSt n) \<noteq> 0 then l_appliedTo (HCommit (n_prevHardSt n)) (r_raftLog (n_raft n))
          else Some (r_raftLog (n_raft n)));
     l \<leftarrow> (if n_havePrevLastUnstablei n
          then l_stableTo (fst (n_prevLastUnstable n)) (snd (n_prevLastUnstable n)) l else Some l);
     let l = l_stableSnapTo (n_prevSnapi n) l;
     Some (n\<lparr>n_raft := (n_raft n)\<lparr>r_raftLog := l\<rparr>, n_havePrevLastUnstablei := False, n_advancec := False\<rparr>)
   }"

fun node_handle :: "nodeEvent \<Rightarrow> node \<Rightarrow> node option" where
  "node_handle (EvProp m) n = do {
     r \<leftarrow> Step (m\<lparr>MFrom := r_id (n_raft n)\<rparr>) (n_raft n);
     Some (n\<lparr>n_raft := r\<rparr>)
   }"
| "node_handle (EvRecv m) n =
     (if map_of (r_prs (n_raft n)) (MFrom m) \<noteq> None \<or> \<not> IsResponseMsg m
      then do { r \<leftarrow> Step m (n_raft n); Some (n\<lparr>n_raft := r\<rparr>) }
      else Some n)"
| "node_handle (EvConf cc) n = node_applyConf cc n"
| "node_handle (EvTick rnd) n = do { r \<leftarrow> tick rnd (n_raft n); Some (n\<lparr>n_raft := r\<rparr>) }"
| "node_handle EvReady n = Some (node_takeReady n)"
| "node_handle EvAdvance n = node_advance n"

text \<open>One iteration of the loop; \<^term>\<open>None\<close> when it panics.\<close>

definition node_run :: "nodeEvent \<Rightarrow> node \<Rightarrow> node option" where
  "node_run ev n = do { n \<leftarrow> node_handle ev n; node_top n }"

text \<open>The messages that the methods of a node put on its channels.\<close>

definition node_Campaign :: nodeEvent where
  "node_Campaign = EvRecv (zero_message\<lparr>MType := MsgHup\<rparr>)"

definition node_Propose :: "bytes option \<Rightarrow> nodeEvent" where
  "node_Propose d = EvProp (zero_message\<lparr>MType := MsgProp, MEntries := [zero_entry\<lparr>EData := d\<rparr>]\<rparr>)"

definition node_Step :: "Message \<Rightarrow> nodeEvent option" where
  "node_Step m = (if IsLocalMsg m then None else if MType m = MsgProp then Some (EvProp m) else Some (EvRecv m))"

definition node_ProposeConfChange :: "ConfChange \<Rightarrow> nodeEvent option" where
  "node_ProposeConfChange cc = do {
     d \<leftarrow> ConfChange_Marshal cc;
     node_Step (zero_message\<lparr>MType := MsgProp, MEntries := [zero_entry\<lparr>EType := EntryConfChange, EData := Some d\<rparr>]\<rparr>)
   }"

definition node_ReportUnreachable :: "u64 \<Rightarrow> nodeEvent" where
  "node_ReportUnreachable i = EvRecv (zero_message\<lparr>MType := MsgUnreachable, MFrom := i\<rparr>)"

datatype SnapshotStatus = SnapshotFinish | SnapshotFailure

definition node_ReportSnapshot :: "u64 \<Rightarrow> SnapshotStatus \<Rightarrow> nodeEvent" where
  "node_ReportSnapshot i status =
     EvRecv (zero_message\<lparr>MType := MsgSnapStatus, MFrom := i, MReject := (status = SnapshotFailure)\<rparr>)"

section \<open>The raw node\<close>

record RawNode =
  rn_raft :: raft
  rn_prevSoftSt :: SoftState
  rn_prevHardSt :: HardState

datatype step_err = ErrStepLocalMsg | ErrStepPeerNotFound

definition rn_newReady :: "RawNode \<Rightarrow> Ready option" where
  "rn_newReady rn = newReady (rn_raft rn) (rn_prevSoftSt rn) (rn_prevHardSt rn)"

definition rn_commitReady :: "Ready \<Rightarrow> RawNode \<Rightarrow> RawNode option" where
  "rn_commitReady rd rn = do {
     let rn = (case rd_SoftState rd of None \<Rightarrow> rn | Some ss \<Rightarrow> rn\<lparr>rn_prevSoftSt := ss\<rparr>);
     let rn = (if \<not> IsEmptyHardState (rd_HardState rd) then rn\<lparr>rn_prevHardSt := rd_HardState rd\<rparr> else rn);
     l \<leftarrow> (if HCommit (rn_prevHardSt rn) \<noteq> 0
          then l_appliedTo (HCommit (rn_prevHardSt rn)) (r_raftLog (rn_raft rn))
          else Some (r_raftLog (rn_raft rn)));
     l \<leftarrow> (if rd_Entries rd \<noteq> []
          then l_stableTo (EIndex (last (rd_Entries rd))) (ETerm (last (rd_Entries rd))) l else Some l);
     let l = (if \<not> IsEmptySnap (rd_Snapshot rd) then l_stableSnapTo (snap_index (rd_Snapshot rd)) l else l);
     Some (rn\<lparr>rn_raft := (rn_raft rn)\<lparr>r_raftLog := l\<rparr>\<rparr>)
   }"

text \<open>The entries that bootstrap an empty log, from index \<^term>\<open>1\<close> on.\<close>

fun peer_entries :: "Peer list \<Rightarrow> nat \<Rightarrow> Entry list option" where
  "peer_entries [] i = Some []"
| "peer_entries (p # ps) i = do { e \<leftarrow> peer_entry p (i + 1); es \<leftarrow> peer_entries ps (i + 1); Some (e # es) }"

definition NewRawNode :: "Config \<Rightarrow> Peer list \<Rightarrow> RawNode option" where
  "NewRawNode config peers =
     (if c_ID config = 0 then None
      else do {
        r \<leftarrow> newRaft config;
        storage \<leftarrow> c_Storage config;
        lastIndex \<leftarrow> ms_lastIndex storage;
        r \<leftarrow> (if lastIndex = 0
             then do {
               r \<leftarrow> becomeFollower 1 NoNode r;
               ents \<leftarrow> peer_entries peers 0;
               res \<leftarrow> l_append ents (r_raftLog r);
               let r = r\<lparr>r_raftLog := (fst res)\<lparr>l_committed := length ents\<rparr>\<rparr>;
               ofold (\<lambda>peer r. addNode (pe_ID peer) r) peers r
             }
             else Some r);
        Some \<lparr>rn_raft = r, rn_prevSoftSt = softState r, rn_prevHardSt = hardState r\<rparr>
      })"

definition rn_Tick :: "nat \<Rightarrow> RawNode \<Rightarrow> RawNode option" where
  "rn_Tick rnd rn = do { r \<leftarrow> tick rnd (rn_raft rn); Some (rn\<lparr>rn_raft := r\<rparr>) }"

definition rn_raftStep :: "Message \<Rightarrow> RawNode \<Rightarrow> RawNode option" where
  "rn_raftStep m rn = do { r \<leftarrow> Step m (rn_raft rn); Some (rn\<lparr>rn_raft := r\<rparr>) }"

definition rn_Campaign :: "RawNode \<Rightarrow> RawNode option" where
  "rn_Campaign rn = rn_raftStep (zero_message\<lparr>MType := MsgHup\<rparr>) rn"

definition rn_Propose :: "bytes option \<Rightarrow> RawNode \<Rightarrow> RawNode option" where
  "rn_Propose d rn = rn_raftStep
     (zero_message\<lparr>MType := MsgProp, MFrom := r_id (rn_raft rn), MEntries := [zero_entry\<lparr>EData := d\<rparr>]\<rparr>) rn"

definition rn_ProposeConfChange :: "ConfChange \<Rightarrow> RawNode \<Rightarrow> RawNode option" where
  "rn_ProposeConfChange cc rn = do {
     d \<leftarrow> ConfChange_Marshal cc;
     rn_raftStep (zero_message\<lparr>MType := MsgProp,
       MEntries := [zero_entry\<lparr>EType := EntryConfChange, EData := Some d\<rparr>]\<rparr>) rn
   }"

definition rn_ApplyConfChange :: "ConfChange \<Rightarrow> RawNode \<Rightarrow> (RawNode \<times> u64 list) option" where
  "rn_ApplyConfChange cc rn = do {
     r \<leftarrow> (if CCNodeID cc = NoNode then Some (resetPendingConf (rn_raft rn))
          else case CCType cc of
            ConfChangeAddNode \<Rightarrow> addNode (CCNodeID cc) (rn_raft rn)
          | ConfChangeRemoveNode \<Rightarrow> removeNode (CCNodeID cc) (rn_raft rn)
          | ConfChangeUpdateNode \<Rightarrow> Some (resetPendingConf (rn_raft rn))
          | ConfChangeTypeOther _ \<Rightarrow> None);
     Some (rn\<lparr>rn_raft := r\<rparr>, nodes r)
   }"

definition rn_Step :: "Message \<Rightarrow> RawNode \<Rightarrow> (step_err + RawNode) option" where
  "rn_Step m rn =
     (if IsLocalMsg m then Some (Inl ErrStepLocalMsg)
      else if map_of (r_prs (rn_raft rn)) (MFrom m) \<noteq> None \<or> \<not> IsResponseMsg m
      then do { rn \<leftarrow> rn_raftStep m rn; Some (Inr rn) }
      else Some (Inl ErrStepPeerNotFound))"

definition rn_Ready :: "RawNode \<Rightarrow> (RawNode \<times> Ready) option" where
  "rn_Ready rn = do {
     rd \<leftarrow> rn_newReady rn;
     Some (rn\<lparr>rn_raft := (rn_raft rn)\<lparr>r_msgs := []\<rparr>\<rparr>, rd)
   }"

definition rn_HasReady :: "RawNode \<Rightarrow> bool option" where
  "rn_HasReady rn =
     (let r = rn_raft rn
      in if \<not> ss_equal (softState r) (rn_prevSoftSt rn) then Some True
         else if \<not> IsEmptyHardState (hardState r) \<and> \<not> isHardStateEqual (hardState r) (rn_prevHardSt rn) then Some True
         else if (case u_snapshot (l_unstable (r_raftLog r)) of None \<Rightarrow> False | Some s \<Rightarrow> \<not> IsEmptySnap s) then Some True
         else if length (r_msgs r) > 0 \<or> length (l_unstableEntries (r_raftLog r)) > 0 then Some True
         else l_hasNextEnts (r_raftLog r))"

definition rn_Advance :: "Ready \<Rightarrow> RawNode \<Rightarrow> RawNode option" where
  "rn_Advance rd rn = rn_commitReady rd rn"

definition rn_Status :: "RawNode \<Rightarrow> Status" where
  "rn_Status rn = getStatus (rn_raft rn)"

definition rn_ReportUnreachable :: "u64 \<Rightarrow> RawNode \<Rightarrow> RawNode option" where
  "rn_ReportUnreachable i rn = rn_raftStep (zero_message\<lparr>MType := MsgUnreachable, MFrom := i\<rparr>) rn"

definition rn_ReportSnapshot :: "u64 \<Rightarrow> SnapshotStatus \<Rightarrow> RawNode \<Rightarrow> RawNode option" where
  "rn_ReportSnapshot i status rn = rn_raftStep
     (zero_message\<lparr>MType := MsgSnapStatus, MFrom := i, MReject := (status = SnapshotFailure)\<rparr>) rn"

end
