(* ===== verification/Raft_Cluster.thy ===== *)
theory Raft_Cluster
  imports Raft_Election Raft_Node
begin

text \<open>
  A cluster of nodes with a fixed membership.  A peer is the goroutine of its node together
  with the loop of \<^verbatim>\<open>etcdserver/raft.go\<close> that takes each Ready, writes it to disk and sends
  its messages; a leader sends before it writes.  Messages may be lost, duplicated and
  reordered: the network is the set of all messages ever sent.  A peer may crash at any
  moment; it restarts from a storage that holds the hard state last written to disk.  The
  main result is election safety.
\<close>

section \<open>Peers\<close>

record peer =
  pe_node :: node
  pe_disk :: HardState
  pe_app :: "(Ready \<times> bool) option"
  pe_islead :: bool

text \<open>The raft state of a peer.\<close>

abbreviation pe_raft :: "peer \<Rightarrow> raft" where
  "pe_raft p \<equiv> n_raft (pe_node p)"

text \<open>The node takes a channel event that does not concern the application.\<close>

definition peer_event :: "nodeEvent \<Rightarrow> peer \<Rightarrow> peer option" where
  "peer_event ev p = do { n \<leftarrow> node_run ev (pe_node p); Some (p\<lparr>pe_node := n\<rparr>) }"

text \<open>The application takes a Ready; a leader sends its messages at once.\<close>

definition peer_ready :: "peer \<Rightarrow> (peer \<times> Message list) option" where
  "peer_ready p = do {
     let rd = n_rd (pe_node p);
     n \<leftarrow> node_run EvReady (pe_node p);
     let islead = (case rd_SoftState rd of None \<Rightarrow> pe_islead p | Some ss \<Rightarrow> ss_RaftState ss = StateLeader);
     Some (p\<lparr>pe_node := n, pe_islead := islead, pe_app := Some (rd, False)\<rparr>,
           if islead then rd_Messages rd else [])
   }"

text \<open>
  The application writes snapshot, hard state and entries; they go to the disk and the
  entries and the snapshot also to the memory storage that the raft log reads.  A follower
  sends its messages afterwards.
\<close>

definition save_storage :: "Ready \<Rightarrow> MemoryStorage \<Rightarrow> MemoryStorage option" where
  "save_storage rd st =
     ms_Append (rd_Entries rd) (if IsEmptySnap (rd_Snapshot rd) then st else ms_ApplySnapshot (rd_Snapshot rd) st)"

definition peer_save :: "peer \<Rightarrow> (peer \<times> Message list) option" where
  "peer_save p =
     (case pe_app p of
        Some (rd, False) \<Rightarrow> do {
          let r = pe_raft p;
          st \<leftarrow> save_storage rd (l_storage (r_raftLog r));
          let r = r\<lparr>r_raftLog := (r_raftLog r)\<lparr>l_storage := st\<rparr>\<rparr>;
          Some (p\<lparr>pe_node := (pe_node p)\<lparr>n_raft := r\<rparr>,
                  pe_disk := (if IsEmptyHardState (rd_HardState rd) then pe_disk p else rd_HardState rd),
                  pe_app := Some (rd, True)\<rparr>,
                if pe_islead p then [] else rd_Messages rd)
        }
      | _ \<Rightarrow> None)"

definition peer_advance :: "peer \<Rightarrow> peer option" where
  "peer_advance p =
     (case pe_app p of
        Some (rd, True) \<Rightarrow> do { n \<leftarrow> node_run EvAdvance (pe_node p); Some (p\<lparr>pe_node := n, pe_app := None\<rparr>) }
      | _ \<Rightarrow> None)"

text \<open>
  A (re)start: the node runs on a storage with the saved hard state, whose configuration, or
  else the peers of the config, are the members.
\<close>

definition boot_members :: "Config \<Rightarrow> MemoryStorage \<Rightarrow> u64 list" where
  "boot_members c st = (if snd (ms_InitialState st) \<noteq> [] then snd (ms_InitialState st) else c_peers c)"

definition boot_config :: "u64 set \<Rightarrow> u64 \<Rightarrow> HardState \<Rightarrow> Config \<Rightarrow> bool" where
  "boot_config N i hs c \<longleftrightarrow> c_ID c = i \<and>
     (case c_Storage c of None \<Rightarrow> False
      | Some st \<Rightarrow> ms_hardState st = hs \<and> set (boot_members c st) = N \<and>
          (snap_index (ms_snapshot st) \<noteq> 0 \<longrightarrow> set (snap_nodes (ms_snapshot st)) = N))"

definition peer_boot :: "Config \<Rightarrow> HardState \<Rightarrow> peer option" where
  "peer_boot c hs = do {
     r \<leftarrow> RestartNode c;
     n \<leftarrow> node_start r;
     Some \<lparr>pe_node = n, pe_disk = hs, pe_app = None, pe_islead = False\<rparr>
   }"

section \<open>The cluster\<close>

record cluster =
  cl_peer :: "u64 \<Rightarrow> peer"
  cl_net :: "Message set"

definition put_peer :: "u64 \<Rightarrow> peer \<Rightarrow> Message list \<Rightarrow> cluster \<Rightarrow> cluster" where
  "put_peer i p ms s = s\<lparr>cl_peer := (cl_peer s)(i := p), cl_net := cl_net s \<union> set ms\<rparr>"

text \<open>The events of a peer that do not come from the network: ticks and local messages.\<close>

fun local_event :: "nodeEvent \<Rightarrow> bool" where
  "local_event (EvTick rnd) = True"
| "local_event (EvRecv m) = (MTerm m = 0 \<and> (MType m = MsgHup \<or> MType m = MsgUnreachable \<or> MType m = MsgSnapStatus))"
| "local_event (EvProp m) = (MTerm m = 0 \<and> MType m = MsgProp)"
| "local_event _ = False"

text \<open>
  The steps.  The two rules for events require that the term of the peer can still grow:
  the model says nothing about a cluster that has used up all \<^term>\<open>2 ^ 64\<close> terms.
\<close>

inductive cstep :: "u64 set \<Rightarrow> cluster \<Rightarrow> cluster \<Rightarrow> bool" for N where
  recv: "cstep N s (put_peer i p [] s)"
    if "i \<in> N" "m \<in> cl_net s" "MTo m = i" "node_Step m = Some ev" "node_enabled ev (pe_node (cl_peer s i))"
      "r_Term (pe_raft (cl_peer s i)) < max_u64" "peer_event ev (cl_peer s i) = Some p"
| local: "cstep N s (put_peer i p [] s)"
    if "i \<in> N" "local_event ev" "node_enabled ev (pe_node (cl_peer s i))"
      "r_Term (pe_raft (cl_peer s i)) < max_u64" "peer_event ev (cl_peer s i) = Some p"
| ready: "cstep N s (put_peer i p ms s)"
    if "i \<in> N" "node_enabled EvReady (pe_node (cl_peer s i))" "peer_ready (cl_peer s i) = Some (p, ms)"
| save: "cstep N s (put_peer i p ms s)"
    if "i \<in> N" "peer_save (cl_peer s i) = Some (p, ms)"
| advance: "cstep N s (put_peer i p [] s)"
    if "i \<in> N" "node_enabled EvAdvance (pe_node (cl_peer s i))" "peer_advance (cl_peer s i) = Some p"
| crash: "cstep N s (put_peer i p [] s)"
    if "i \<in> N" "boot_config N i (pe_disk (cl_peer s i)) c" "peer_boot c (pe_disk (cl_peer s i)) = Some p"

definition cinit :: "u64 set \<Rightarrow> cluster \<Rightarrow> bool" where
  "cinit N s \<longleftrightarrow> finite N \<and> 0 \<notin> N \<and> cl_net s = {} \<and>
     (\<forall>i \<in> N. \<exists>c hs. boot_config N i hs c \<and> peer_boot c hs = Some (cl_peer s i))"

definition is_leader :: "cluster \<Rightarrow> u64 \<Rightarrow> u64 \<Rightarrow> bool" where
  "is_leader s t i \<longleftrightarrow> r_state (pe_raft (cl_peer s i)) = StateLeader \<and> r_Term (pe_raft (cl_peer s i)) = t"

end
