(* ===== verification/Raft_Safety.thy ===== *)
theory Raft_Safety
  imports Raft_Cluster
begin

text \<open>
  Election safety of the cluster: the invariant with its history variables, that every step
  keeps it, and the theorem.
\<close>

section \<open>Majorities\<close>

text \<open>
  What elections rely on: the number of votes that the code asks for is reached by two sets
  of members only if they share one.
\<close>

locale quorum_system =
  fixes qsize :: "nat \<Rightarrow> nat"
  assumes majority: "n < 2 * qsize n"
begin

lemma quorums_intersect:
  assumes "finite N" "A \<subseteq> N" "B \<subseteq> N" "qsize (card N) \<le> card A" "qsize (card N) \<le> card B"
  shows "A \<inter> B \<noteq> {}"
proof
  assume "A \<inter> B = {}"
  then have "card A + card B = card (A \<union> B)"
    using assms finite_subset by (metis card_Un_disjoint)
  also have "\<dots> \<le> card N" using assms by (simp add: card_mono)
  finally show False using majority [of "card N"] assms(4,5) by linarith
qed

lemma quorum_two: "2 \<le> n \<Longrightarrow> 2 \<le> qsize n"
  using majority [of n] by linarith

end

definition raft_quorum :: "nat \<Rightarrow> nat" where
  "raft_quorum n = n div 2 + 1"

lemma quorum_keys: "quorum r = raft_quorum (length (map fst (r_prs r)))"
  by (simp add: quorum_def raft_quorum_def)

interpretation rq: quorum_system raft_quorum
  by unfold_locales (simp add: raft_quorum_def)

section \<open>Restart\<close>

lemma fold_update_keys:
  "distinct (map fst prs) \<Longrightarrow> distinct (map fst (fold (\<lambda>p prs. AList.update p (f p) prs) ps prs)) \<and>
    fst ` set (fold (\<lambda>p prs. AList.update p (f p) prs) ps prs) = fst ` set prs \<union> set ps"
  by (induction ps arbitrary: prs) (auto simp: keys_update)

lemma isHardStateEqual_iff: "isHardStateEqual a b \<longleftrightarrow> a = b"
  by (cases a; cases b) (simp add: isHardStateEqual_def)

lemma newLog_fields:
  "newLog st = Some l \<Longrightarrow> l_storage l = st \<and> u_snapshot (l_unstable l) = None"
  by (auto simp: newLog_def bind_eq_Some_conv)

lemma loadState_fields:
  assumes "loadState hs r = Some r'"
  shows "r_id r' = r_id r \<and> r_Term r' = HTerm hs \<and> r_Vote r' = HVote hs \<and> r_prs r' = r_prs r \<and>
    r_msgs r' = r_msgs r \<and> l_storage (r_raftLog r') = l_storage (r_raftLog r) \<and>
    l_unstable (r_raftLog r') = l_unstable (r_raftLog r)"
  using assms by (auto simp: loadState_def bind_eq_Some_conv split: if_splits)

lemma newRaft_fields:
  assumes "newRaft c = Some r" "c_Storage c = Some st"
  shows "r_id r = c_ID c" "r_Term r = HTerm (ms_hardState st)" "r_Vote r = HVote (ms_hardState st)"
    "r_state r = StateFollower" "r_step r = StepFollower" "r_votes r = []" "r_msgs r = []"
    "distinct (map fst (r_prs r))" "fst ` set (r_prs r) = set (boot_members c st)"
    "l_storage (r_raftLog r) = st" "u_snapshot (l_unstable (r_raftLog r)) = None"
proof -
  let ?hs = "ms_hardState st"
  let ?prs = "\<lambda>ps. fold (\<lambda>p prs. AList.update p (newProgress 0 1 (nat (c_MaxInflightMsgs c))) prs) ps []"
  let ?start = "\<lambda>l ps. \<lparr>r_id = c_ID c, r_Term = 0, r_Vote = NoNode, r_raftLog = l,
                   r_maxInflight = nat (c_MaxInflightMsgs c), r_maxMsgSize = c_MaxSizePerMsg c, r_prs = ?prs ps,
                   r_state = StateFollower, r_votes = [], r_msgs = [], r_lead = NoNode,
                   r_pendingConf = False, r_electionElapsed = 0, r_heartbeatElapsed = 0,
                   r_checkQuorum = c_CheckQuorum c, r_heartbeatTimeout = nat (c_HeartbeatTick c),
                   r_electionTimeout = nat (c_ElectionTick c), r_tick = TickElection,
                   r_step = StepFollower\<rparr>"
  obtain u where v: "c_validate c = Inr u"
    using assms by (cases "c_validate c") (auto simp: newRaft_def)
  from assms(1) obtain l ps r1 r2 where
    l: "newLog st = Some l"
    and ps: "(if snd (ms_InitialState st) \<noteq> [] then if c_peers c \<noteq> [] then None else Some (snd (ms_InitialState st))
      else Some (c_peers c)) = Some ps"
    and r1: "(if \<not> isHardStateEqual (fst (ms_InitialState st)) emptyState
        then loadState (fst (ms_InitialState st)) (?start l ps) else Some (?start l ps)) = Some r1"
    and r2: "(if c_Applied c > 0
                then do { l \<leftarrow> l_appliedTo (c_Applied c) (r_raftLog r1); Some (r1\<lparr>r_raftLog := l\<rparr>) }
                else Some r1) = Some r2"
    and r: "becomeFollower (r_Term r2) NoNode r2 = Some r"
    unfolding newRaft_def assms(2) v prod.case sum.case option.case Let_def case_prod_unfold fst_conv snd_conv bind_eq_Some_conv
    by blast
  have "ps = boot_members c st" using ps by (auto simp: boot_members_def split: if_splits)
  moreover have "fst (ms_InitialState st) = ?hs" by (simp add: ms_InitialState_def)
  ultimately have f1: "r_id r1 = c_ID c \<and> r_Term r1 = HTerm ?hs \<and> r_Vote r1 = HVote ?hs \<and>
      r_prs r1 = ?prs (boot_members c st) \<and> r_msgs r1 = [] \<and> l_storage (r_raftLog r1) = st \<and>
      u_snapshot (l_unstable (r_raftLog r1)) = None"
    using r1 newLog_fields [OF l] loadState_fields [of ?hs "?start l ps" r1]
    by (auto simp: isHardStateEqual_iff emptyState_def split: if_splits)
  have f2: "r_id r2 = r_id r1 \<and> r_Term r2 = r_Term r1 \<and> r_Vote r2 = r_Vote r1 \<and> r_prs r2 = r_prs r1 \<and>
      r_msgs r2 = r_msgs r1 \<and> l_storage (r_raftLog r2) = l_storage (r_raftLog r1) \<and>
      l_unstable (r_raftLog r2) = l_unstable (r_raftLog r1)"
    using r2 by (auto simp: bind_eq_Some_conv l_appliedTo_def split: if_splits)
  note e = becomeFollower_election [OF r]
  have k: "distinct (map fst (r_prs r2))" "set (map fst (r_prs r2)) = set (boot_members c st)"
    using fold_update_keys [of "[]" "\<lambda>_. newProgress 0 1 (nat (c_MaxInflightMsgs c))" "boot_members c st"] f1 f2
    by simp_all
  have "distinct (map fst (r_prs r))" "fst ` set (r_prs r) = set (boot_members c st)"
    using k e(7) by (simp_all flip: set_map)
  with f1 f2 e show "r_id r = c_ID c" "r_Term r = HTerm (ms_hardState st)" "r_Vote r = HVote (ms_hardState st)"
    "r_state r = StateFollower" "r_step r = StepFollower" "r_votes r = []" "r_msgs r = []"
    "distinct (map fst (r_prs r))" "fst ` set (r_prs r) = set (boot_members c st)"
    "l_storage (r_raftLog r) = st" "u_snapshot (l_unstable (r_raftLog r)) = None"
    by simp_all
qed

section \<open>Votes as history\<close>

text \<open>
  A set of votes is a set of pairs of a term and the candidate.  For each peer the proof
  follows three of them: the votes cast, those handed over to the application in a Ready,
  and those on disk.
\<close>

type_synonym votes = "(u64 \<times> u64) set"

definition votes_bound :: "votes \<Rightarrow> u64 \<Rightarrow> u64 \<Rightarrow> bool" where
  "votes_bound S t v \<longleftrightarrow> (\<forall>a c. (a, c) \<in> S \<longrightarrow> 0 < a \<and> c \<noteq> NoNode \<and> a \<le> t \<and> (a = t \<longrightarrow> c = v))"

definition cast :: "raft \<Rightarrow> votes" where
  "cast r = (if r_Vote r = NoNode \<or> r_Term r = 0 then {} else {(r_Term r, r_Vote r)})"

definition msg_ok :: "u64 set \<Rightarrow> (u64 \<Rightarrow> votes) \<Rightarrow> u64 \<Rightarrow> votes \<Rightarrow> Message \<Rightarrow> bool" where
  "msg_ok N D i S x \<longleftrightarrow> MFrom x = i \<and>
     (MType x = MsgSnap \<longrightarrow> set (snap_nodes (MSnapshot x)) = N \<and> 0 < MTerm x) \<and>
     (MType x = MsgVote \<longrightarrow> 0 < MTerm x \<and> (MTerm x, i) \<in> S) \<and>
     (MType x = MsgVoteResp \<and> \<not> MReject x \<longrightarrow> 0 < MTerm x \<and> (MTerm x, MTo x) \<in> S \<and>
        (MTo x \<noteq> i \<longrightarrow> (MTerm x, MTo x) \<in> D (MTo x)))"

text \<open>What a peer may assume of a message it is given.\<close>

definition input_ok :: "u64 set \<Rightarrow> (u64 \<Rightarrow> votes) \<Rightarrow> u64 \<Rightarrow> Message \<Rightarrow> bool" where
  "input_ok N D i m \<longleftrightarrow> election_input m \<and>
     (MType m = MsgSnap \<longrightarrow> set (snap_nodes (MSnapshot m)) = N) \<and>
     (MType m = MsgVote \<longrightarrow> MFrom m \<in> N \<and> (MTerm m, MFrom m) \<in> D (MFrom m)) \<and>
     (MType m = MsgVoteResp \<and> \<not> MReject m \<longrightarrow> MFrom m \<in> N \<and> (MTerm m, i) \<in> D (MFrom m) \<and>
        (MFrom m \<noteq> i \<longrightarrow> (MTerm m, i) \<in> D i))"

definition elected_ok :: "u64 set \<Rightarrow> (u64 \<Rightarrow> votes) \<Rightarrow> votes \<Rightarrow> bool" where
  "elected_ok N D E \<longleftrightarrow> (\<forall>t i. (t, i) \<in> E \<longrightarrow> i \<in> N \<and> (t, i) \<in> D i \<and>
     (\<exists>Q \<subseteq> N. raft_quorum (card N) \<le> card Q \<and> (\<forall>j \<in> Q. (t, i) \<in> D j)))"

definition raft_ok :: "u64 set \<Rightarrow> (u64 \<Rightarrow> votes) \<Rightarrow> votes \<Rightarrow> votes \<Rightarrow> votes \<Rightarrow> u64 \<Rightarrow> raft \<Rightarrow> bool" where
  "raft_ok N D R V E i r \<longleftrightarrow> r_id r = i \<and> role_ok r \<and> fst ` set (r_prs r) = N \<and> distinct (map fst (r_prs r)) \<and>
     (\<forall>s. node_snap (r_raftLog r) s \<longrightarrow> set (snap_nodes s) = N) \<and>
     votes_bound V (r_Term r) (r_Vote r) \<and>
     (\<forall>x \<in> set (r_msgs r). msg_ok N D i V x \<and> (vote_msg x \<longrightarrow> (\<forall>t c. (t, c) \<in> R \<longrightarrow> t \<le> MTerm x))) \<and>
     (r_state r = StateCandidate \<longrightarrow> distinct (map fst (r_votes r)) \<and>
        (\<forall>j. (j, True) \<in> set (r_votes r) \<longrightarrow> j = i \<or> j \<in> N \<and> (r_Term r, i) \<in> D j \<and> (r_Term r, i) \<in> D i)) \<and>
     (r_state r = StateLeader \<longrightarrow> (r_Term r, i) \<in> E)"

definition wins :: "raft \<Rightarrow> votes" where
  "wins r = (if r_state r = StateLeader then {(r_Term r, r_id r)} else {})"

section \<open>A step of one node\<close>

lemma votes_bound_mono: "votes_bound S t v \<Longrightarrow> S' \<subseteq> S \<Longrightarrow> votes_bound S' t v"
  by (auto simp: votes_bound_def)

lemma estep_old_votes:
  assumes e: "estep m r r'" and b: "votes_bound V (r_Term r) (r_Vote r)" and v: "(a, c) \<in> V"
  shows "0 < a \<and> c \<noteq> NoNode \<and> a \<le> r_Term r' \<and> (a = r_Term r' \<longrightarrow> c = r_Vote r')"
proof -
  have t: "r_Term r \<le> r_Term r'" "r_Term r' = r_Term r \<Longrightarrow> r_Vote r \<noteq> NoNode \<Longrightarrow> r_Vote r' = r_Vote r"
    using e by (simp_all add: estep_def)
  from b v have "0 < a" "c \<noteq> NoNode" "a \<le> r_Term r" "a = r_Term r \<longrightarrow> c = r_Vote r"
    by (auto simp: votes_bound_def)
  with t show ?thesis by auto
qed

lemma estep_votes_bound:
  assumes "estep m r r'" "votes_bound V (r_Term r) (r_Vote r)"
  shows "votes_bound (V \<union> cast r') (r_Term r') (r_Vote r')"
  using estep_old_votes [OF assms] by (auto simp: votes_bound_def cast_def split: if_splits)

lemma estep_single:
  assumes "estep m r r'" "votes_bound V (r_Term r) (r_Vote r)" "single_valued V"
  shows "single_valued (V \<union> cast r')"
proof (rule single_valuedI)
  fix t c d assume "(t, c) \<in> V \<union> cast r'" "(t, d) \<in> V \<union> cast r'"
  moreover have "c = d" if "(t, c) \<in> V" "(t, d) \<in> V" using assms(3) that by (rule single_valuedD)
  ultimately show "c = d"
    using estep_old_votes [OF assms(1,2)] by (auto simp: cast_def split: if_splits)
qed

text \<open>A table with enough granted votes names a quorum of voters.\<close>

lemma ballots_quorum:
  assumes ok: "raft_ok N D R V E i r" and m: "input_ok N D i m" and b: "ballots m r t vs"
    and q: "length (filter snd vs) = quorum r" and N: "finite N" "2 \<le> card N" "i \<in> N"
  shows "(t, i) \<in> D i" "\<exists>Q \<subseteq> N. raft_quorum (card N) \<le> card Q \<and> (\<forall>j \<in> Q. (t, i) \<in> D j)"
proof -
  have id: "r_id r = i" and keys: "fst ` set (r_prs r) = N" "distinct (map fst (r_prs r))"
    using ok by (auto simp: raft_ok_def)
  have "card N = length (map fst (r_prs r))" using keys by (metis distinct_card list.set_map)
  then have qn: "quorum r = raft_quorum (card N)" by (simp add: quorum_keys)
  with q have two: "2 \<le> length (filter snd vs)" using rq.quorum_two [OF N(2)] by simp
  have cand: "r_state r = StateCandidate" "t = r_Term r"
    using b two by (auto simp: ballots_def)
  have d: "distinct (map fst vs)" and
    v: "(j, True) \<in> set vs \<Longrightarrow> j = i \<or> j \<in> N \<and> (t, i) \<in> D j \<and> (t, i) \<in> D i" for j
  proof -
    from ok cand have o: "distinct (map fst (r_votes r))"
      "\<forall>j. (j, True) \<in> set (r_votes r) \<longrightarrow> j = i \<or> j \<in> N \<and> (t, i) \<in> D j \<and> (t, i) \<in> D i"
      by (auto simp: raft_ok_def)
    from b two cand consider "vs = r_votes r" | "MType m = MsgVoteResp" "MReject m \<or> MTerm m = t"
      "map_of (r_votes r) (MFrom m) = None" "vs = r_votes r @ [(MFrom m, \<not> MReject m)]"
      by (auto simp: ballots_def)
    then have "distinct (map fst vs) \<and> ((j, True) \<in> set vs \<longrightarrow> j = i \<or> j \<in> N \<and> (t, i) \<in> D j \<and> (t, i) \<in> D i)"
      for j
    proof cases
      case 2
      have "MFrom m \<notin> fst ` set (r_votes r)" using 2(3) by (simp add: map_of_eq_None_iff)
      with o 2 m show ?thesis by (auto simp: input_ok_def)
    qed (use o in auto)
    then show "distinct (map fst vs)" "(j, True) \<in> set vs \<Longrightarrow> j = i \<or> j \<in> N \<and> (t, i) \<in> D j \<and> (t, i) \<in> D i"
      for j by blast+
  qed
  let ?Q = "fst ` set (filter snd vs)"
  have dq: "distinct (map fst (filter snd vs))" using d by (simp add: distinct_map_filter)
  have cq: "card ?Q = length (filter snd vs)" using distinct_card [OF dq] by simp
  have Q: "j \<in> ?Q \<Longrightarrow> j = i \<or> j \<in> N \<and> (t, i) \<in> D j \<and> (t, i) \<in> D i" for j
    using v [of j] by auto
  have "\<exists>j \<in> ?Q. j \<noteq> i"
  proof (rule ccontr)
    assume "\<not> (\<exists>j \<in> ?Q. j \<noteq> i)"
    then have "?Q \<subseteq> {i}" by blast
    then have "card ?Q \<le> 1" using card_mono [of "{i}" ?Q] by simp
    with cq two show False by simp
  qed
  then show di: "(t, i) \<in> D i" using Q by blast
  have "?Q \<subseteq> N" "\<forall>j \<in> ?Q. (t, i) \<in> D j" using Q N(3) di by blast+
  with cq q qn show "\<exists>Q \<subseteq> N. raft_quorum (card N) \<le> card Q \<and> (\<forall>j \<in> Q. (t, i) \<in> D j)" by (metis order_refl)
qed

lemma raft_ok_mono:
  assumes "raft_ok N D R V E i r" "\<And>j. D j \<subseteq> D' j" "E \<subseteq> E'"
  shows "raft_ok N D' R V E' i r"
  using assms(1) unfolding raft_ok_def msg_ok_def by (auto dest: subsetD [OF assms(2)] subsetD [OF assms(3)])

lemma msg_ok_mono: "msg_ok N D i S x \<Longrightarrow> (\<And>j. D j \<subseteq> D' j) \<Longrightarrow> S \<subseteq> S' \<Longrightarrow> msg_ok N D' i S' x"
  by (auto simp: msg_ok_def dest: subsetD)

lemma elected_ok_mono:
  assumes "elected_ok N D E" "\<And>j. D j \<subseteq> D' j"
  shows "elected_ok N D' E"
proof -
  have "i \<in> N \<and> (t, i) \<in> D' i \<and> (\<exists>Q \<subseteq> N. raft_quorum (card N) \<le> card Q \<and> (\<forall>j \<in> Q. (t, i) \<in> D' j))"
    if E: "(t, i) \<in> E" for t i
  proof -
    from assms(1) E obtain Q where "i \<in> N" "(t, i) \<in> D i" "Q \<subseteq> N" "raft_quorum (card N) \<le> card Q"
      "\<forall>j \<in> Q. (t, i) \<in> D j" unfolding elected_ok_def by blast
    then show ?thesis using assms(2) by blast
  qed
  then show ?thesis unfolding elected_ok_def by blast
qed

lemma estep_raft_ok:
  assumes ok: "raft_ok N D R V E i r" and e: "estep m r r'" and m: "input_ok N D i m"
    and R: "R \<subseteq> V" and N: "finite N" "2 \<le> card N" "i \<in> N" "0 \<notin> N"
  shows "raft_ok N D R (V \<union> cast r') (E \<union> wins r') i r'"
proof -
  have o: "r_id r = i" "role_ok r" "fst ` set (r_prs r) = N" "distinct (map fst (r_prs r))"
    "\<forall>s. node_snap (r_raftLog r) s \<longrightarrow> set (snap_nodes s) = N" "votes_bound V (r_Term r) (r_Vote r)"
    using ok by (auto simp: raft_ok_def)
  have e': "r_id r' = i" "role_ok r'" "r_Term r \<le> r_Term r'" using e o(1) by (auto simp: estep_def)
  have keys: "fst ` set (r_prs r') = N \<and> distinct (map fst (r_prs r'))"
  proof -
    from e consider "map fst (r_prs r') = map fst (r_prs r)"
      | "MType m = MsgSnap" "distinct (map fst (r_prs r'))" "fst ` set (r_prs r') = set (snap_nodes (MSnapshot m))"
      by (auto simp: estep_def)
    then show ?thesis
    proof cases
      case 1
      then show ?thesis using o(3,4) by (metis list.set_map)
    qed (use m in \<open>auto simp: input_ok_def\<close>)
  qed
  have snap: "set (snap_nodes s) = N" if s: "node_snap (r_raftLog r') s" for s
  proof -
    from e have l: "l_storage (r_raftLog r') = l_storage (r_raftLog r)"
      "u_snapshot (l_unstable (r_raftLog r')) = u_snapshot (l_unstable (r_raftLog r)) \<or>
        MType m = MsgSnap \<and> u_snapshot (l_unstable (r_raftLog r')) = Some (MSnapshot m)"
      by (simp_all add: estep_def)
    have "node_snap (r_raftLog r) s \<or> MType m = MsgSnap \<and> s = MSnapshot m"
      using s l by (auto simp: node_snap_def)
    then show ?thesis using o(5) m by (auto simp: input_ok_def)
  qed
  have pos: "0 < j" if "j \<in> N" for j using that N(4) by (cases j) auto
  then have i0: "i \<noteq> NoNode" using N(3) by blast
  have casts: "(r_Term r', i) \<in> cast r'" if "r_Vote r' = i" "0 < r_Term r'"
    using that i0 by (auto simp: cast_def)
  have late: "t \<le> r_Term r'" if "(t, c) \<in> R" for t c
    using that R o(6) e'(3) by (fastforce simp: votes_bound_def)
  from e obtain ms where ms: "r_msgs r' = r_msgs r @ ms" "\<forall>x \<in> set ms. election_msg m r r' x"
    by (auto simp: estep_def)
  have new: "msg_ok N D i (V \<union> cast r') x \<and> (vote_msg x \<longrightarrow> (\<forall>t c. (t, c) \<in> R \<longrightarrow> t \<le> MTerm x))" if "x \<in> set ms" for x
  proof
    have x: "election_msg m r r' x" using ms(2) that by blast
    have g: "(r_Term r', r_Vote r') \<in> cast r'" "r_Vote r' \<noteq> i \<Longrightarrow> (r_Term r', r_Vote r') \<in> D (r_Vote r')"
      if "MType x = MsgVoteResp" "\<not> MReject x"
      using x that m by (auto simp: election_msg_def input_ok_def cast_def dest: pos)
    show "msg_ok N D i (V \<union> cast r') x"
      using x g casts o(1,5) by (auto simp: election_msg_def msg_ok_def)
    show "vote_msg x \<longrightarrow> (\<forall>t c. (t, c) \<in> R \<longrightarrow> t \<le> MTerm x)"
      using x late by (auto simp: election_msg_def vote_msg_def)
  qed
  have msgs: "\<forall>x \<in> set (r_msgs r'). msg_ok N D i (V \<union> cast r') x \<and> (vote_msg x \<longrightarrow> (\<forall>t c. (t, c) \<in> R \<longrightarrow> t \<le> MTerm x))"
  proof
    fix x assume "x \<in> set (r_msgs r')"
    then consider "x \<in> set (r_msgs r)" | "x \<in> set ms" using ms(1) by auto
    then show "msg_ok N D i (V \<union> cast r') x \<and> (vote_msg x \<longrightarrow> (\<forall>t c. (t, c) \<in> R \<longrightarrow> t \<le> MTerm x))"
    proof cases
      case 1
      with ok have "msg_ok N D i V x" "vote_msg x \<longrightarrow> (\<forall>t c. (t, c) \<in> R \<longrightarrow> t \<le> MTerm x)"
        unfolding raft_ok_def by blast+
      then show ?thesis using msg_ok_mono [of N D i V x D "V \<union> cast r'"] by blast
    qed (rule new)
  qed
  have cand: "distinct (map fst (r_votes r')) \<and>
      (\<forall>j. (j, True) \<in> set (r_votes r') \<longrightarrow> j = i \<or> j \<in> N \<and> (r_Term r', i) \<in> D j \<and> (r_Term r', i) \<in> D i)"
    if "r_state r' = StateCandidate"
  proof -
    have "ballots m r (r_Term r') (r_votes r')" using e that by (simp add: estep_def)
    then consider "r_state r = StateCandidate" "r_Term r' = r_Term r" "r_votes r' = r_votes r"
      | "r_state r = StateCandidate" "r_Term r' = r_Term r" "MType m = MsgVoteResp" "MReject m \<or> MTerm m = r_Term r'"
        "map_of (r_votes r) (MFrom m) = None" "r_votes r' = r_votes r @ [(MFrom m, \<not> MReject m)]"
      | "r_votes r' = [(r_id r, True)]"
      by (auto simp: ballots_def)
    then show ?thesis
    proof cases
      case 1
      then show ?thesis using ok by (simp add: raft_ok_def)
    next
      case 2
      have "MFrom m \<notin> fst ` set (r_votes r)" using 2(5) by (simp add: map_of_eq_None_iff)
      with ok 2 m show ?thesis by (auto simp: raft_ok_def input_ok_def)
    next
      case 3
      then show ?thesis using o(1) by simp
    qed
  qed
  note b = estep_votes_bound [OF e o(6)]
  show ?thesis
    unfolding raft_ok_def using e' keys snap b msgs cand by (auto simp: wins_def)
qed

lemma estep_elected_ok:
  assumes ok: "raft_ok N D R V E i r" and e: "estep m r r'" and m: "input_ok N D i m"
    and N: "finite N" "2 \<le> card N" "i \<in> N" and E: "elected_ok N D E"
  shows "elected_ok N D (E \<union> wins r')"
proof (cases "r_state r' = StateLeader")
  case True
  have id: "r_id r' = i" "r_id r = i" using ok e by (auto simp: raft_ok_def estep_def)
  from e True consider "r_state r = StateLeader" "r_Term r' = r_Term r"
    | vs where "ballots m r (r_Term r') vs" "length (filter snd vs) = quorum r"
    by (auto simp: estep_def)
  then show ?thesis
  proof cases
    case 1
    then have "(r_Term r', i) \<in> E" using ok by (simp add: raft_ok_def)
    with E id True show ?thesis by (simp add: wins_def insert_absorb)
  next
    case 2
    from ballots_quorum [OF ok m 2 N] E id True N(3) show ?thesis
      by (auto simp: elected_ok_def wins_def)
  qed
qed (use E in \<open>simp add: wins_def\<close>)

section \<open>The goroutine\<close>

lemma node_top_fields:
  assumes "node_top n = Some n'"
  shows "n_raft n' = n_raft n" "n_prevHardSt n' = n_prevHardSt n" "n_prevSoftSt n' = n_prevSoftSt n"
    "n_advancec n' = n_advancec n" "n_advancec n' \<longrightarrow> \<not> n_readyc n'"
    "\<not> n_advancec n' \<longrightarrow> newReady (n_raft n') (n_prevSoftSt n') (n_prevHardSt n') = Some (n_rd n')"
  using assms by (auto simp: node_top_def bind_eq_Some_conv split: if_splits)

text \<open>The events that reach the raft state machine.\<close>

fun raft_input :: "u64 \<Rightarrow> nodeEvent \<Rightarrow> Message" where
  "raft_input i (EvRecv m) = m"
| "raft_input i (EvProp m) = m\<lparr>MFrom := i\<rparr>"
| "raft_input i _ = zero_message\<lparr>MFrom := i, MType := MsgHup\<rparr>"

fun raft_event :: "nodeEvent \<Rightarrow> bool" where
  "raft_event (EvRecv m) = True"
| "raft_event (EvProp m) = True"
| "raft_event (EvTick rnd) = True"
| "raft_event _ = False"

lemma node_handle_estep:
  assumes "node_handle ev n = Some n'" "raft_event ev" "role_ok (n_raft n)" "r_Term (n_raft n) < max_u64"
    "r_id (n_raft n) \<noteq> NoNode" "election_input (raft_input (r_id (n_raft n)) ev)"
  shows "estep (raft_input (r_id (n_raft n)) ev) (n_raft n) (n_raft n') \<and> n_prevHardSt n' = n_prevHardSt n \<and>
    n_prevSoftSt n' = n_prevSoftSt n \<and> n_advancec n' = n_advancec n"
proof (cases ev)
  case (EvProp m)
  then show ?thesis
    using assms Step_estep [of "m\<lparr>MFrom := r_id (n_raft n)\<rparr>" "n_raft n"] by (auto simp: bind_eq_Some_conv)
next
  case (EvRecv m)
  then show ?thesis
    using assms Step_estep [of m "n_raft n"] estep_refl [of "n_raft n" m]
    by (auto simp: bind_eq_Some_conv split: if_splits)
next
  case (EvTick rnd)
  then show ?thesis
    using assms tick_estep [of rnd "n_raft n"] by (auto simp: bind_eq_Some_conv)
qed (use assms in auto)

section \<open>The invariant of a peer\<close>

text \<open>The hard state that the disk has once the Ready in progress is written.\<close>

fun unsaved :: "(Ready \<times> bool) option \<Rightarrow> Ready option" where
  "unsaved (Some (rd, False)) = Some rd"
| "unsaved _ = None"

definition handed :: "peer \<Rightarrow> HardState" where
  "handed p = (case unsaved (pe_app p) of
     None \<Rightarrow> pe_disk p
   | Some rd \<Rightarrow> if IsEmptyHardState (rd_HardState rd) then pe_disk p else rd_HardState rd)"

definition node_ok :: "node \<Rightarrow> bool" where
  "node_ok n \<longleftrightarrow> (n_advancec n \<longrightarrow> \<not> n_readyc n) \<and>
     (\<not> n_advancec n \<longrightarrow> newReady (n_raft n) (n_prevSoftSt n) (n_prevHardSt n) = Some (n_rd n))"

definition app_ok :: "u64 set \<Rightarrow> (u64 \<Rightarrow> votes) \<Rightarrow> votes \<Rightarrow> u64 \<Rightarrow> peer \<Rightarrow> bool" where
  "app_ok N D R i p \<longleftrightarrow> (n_advancec (pe_node p) \<longleftrightarrow> pe_app p \<noteq> None) \<and>
     (pe_islead p \<longleftrightarrow> ss_RaftState (n_prevSoftSt (pe_node p)) = StateLeader) \<and>
     (n_prevHardSt (pe_node p) = emptyState \<or> n_prevHardSt (pe_node p) = handed p) \<and>
     (case unsaved (pe_app p) of
        None \<Rightarrow> R = D i
      | Some rd \<Rightarrow> (\<not> IsEmptySnap (rd_Snapshot rd) \<longrightarrow> set (snap_nodes (rd_Snapshot rd)) = N) \<and>
          (\<not> pe_islead p \<longrightarrow> (\<forall>x \<in> set (rd_Messages rd). msg_ok N D i R x)))"

definition peer_ok :: "u64 set \<Rightarrow> (u64 \<Rightarrow> votes) \<Rightarrow> votes \<Rightarrow> votes \<Rightarrow> votes \<Rightarrow> u64 \<Rightarrow> peer \<Rightarrow> bool" where
  "peer_ok N D R V E i p \<longleftrightarrow> raft_ok N D R V E i (pe_raft p) \<and> D i \<subseteq> R \<and> R \<subseteq> V \<and> single_valued V \<and>
     votes_bound (D i) (HTerm (pe_disk p)) (HVote (pe_disk p)) \<and>
     votes_bound R (HTerm (handed p)) (HVote (handed p)) \<and> node_ok (pe_node p) \<and> app_ok N D R i p"

definition net_ok :: "u64 set \<Rightarrow> (u64 \<Rightarrow> votes) \<Rightarrow> Message set \<Rightarrow> bool" where
  "net_ok N D net \<longleftrightarrow> (\<forall>x \<in> net. MFrom x \<in> N \<and> msg_ok N D (MFrom x) (D (MFrom x)) x)"

text \<open>The cluster, with the history of votes and of elected leaders.\<close>

definition cluster_ok ::
  "u64 set \<Rightarrow> (u64 \<Rightarrow> votes) \<Rightarrow> (u64 \<Rightarrow> votes) \<Rightarrow> (u64 \<Rightarrow> votes) \<Rightarrow> votes \<Rightarrow> cluster \<Rightarrow> bool" where
  "cluster_ok N D R V E s \<longleftrightarrow> net_ok N D (cl_net s) \<and> elected_ok N D E \<and>
     (\<forall>i \<in> N. peer_ok N D (R i) (V i) E i (cl_peer s i))"

lemma net_input:
  assumes "net_ok N D net" "m \<in> net" "MTo m = i"
  shows "input_ok N D i m"
  using assms by (auto simp: net_ok_def msg_ok_def input_ok_def election_input_def vote_msg_def)

lemma peer_ok_mono:
  assumes "peer_ok N D R V E j p" "\<And>k. D k \<subseteq> D' k" "D' j = D j" "E \<subseteq> E'"
  shows "peer_ok N D' R V E' j p"
proof -
  have "msg_ok N D j R x \<Longrightarrow> msg_ok N D' j R x" for x
    using msg_ok_mono [of N D j R x D' R] assms(2) by blast
  then have "app_ok N D R j p \<Longrightarrow> app_ok N D' R j p"
    by (auto simp: app_ok_def assms(3) split: option.splits)
  then show ?thesis
    using assms raft_ok_mono [of N D R V E j "pe_raft p" D' E'] by (auto simp: peer_ok_def)
qed

end
