(* ===== verification/Raft_Cluster_Safety.thy ===== *)
theory Raft_Cluster_Safety
  imports Raft_Safety
begin

text \<open>Every step of the cluster keeps the invariant, and election safety.\<close>

section \<open>Events\<close>

lemma handed_frame: "pe_app p' = pe_app p \<Longrightarrow> pe_disk p' = pe_disk p \<Longrightarrow> handed p' = handed p"
  by (simp add: handed_def split: option.split)

lemma app_ok_frame:
  assumes "app_ok N D R i p" "pe_app p' = pe_app p" "pe_disk p' = pe_disk p" "pe_islead p' = pe_islead p"
    "n_advancec (pe_node p') = n_advancec (pe_node p)" "n_prevSoftSt (pe_node p') = n_prevSoftSt (pe_node p)"
    "n_prevHardSt (pe_node p') = n_prevHardSt (pe_node p)"
  shows "app_ok N D R i p'"
  using assms(1) handed_frame [OF assms(2,3)] unfolding app_ok_def assms(2-) by simp

lemma peer_event_ok:
  assumes ok: "peer_ok N D R V E i p" and ev: "peer_event ev p = Some p'" "raft_event ev"
    and m: "input_ok N D i (raft_input i ev)" and t: "r_Term (pe_raft p) < max_u64"
    and N: "finite N" "2 \<le> card N" "i \<in> N" "0 \<notin> N" and E: "elected_ok N D E"
  shows "peer_ok N D R (V \<union> cast (pe_raft p')) (E \<union> wins (pe_raft p')) i p'"
    "elected_ok N D (E \<union> wins (pe_raft p'))"
proof -
  have r: "raft_ok N D R V E i (pe_raft p)" and RV: "R \<subseteq> V" "single_valued V" using ok by (auto simp: peer_ok_def)
  have id: "r_id (pe_raft p) = i" "role_ok (pe_raft p)" "votes_bound V (r_Term (pe_raft p)) (r_Vote (pe_raft p))"
    using r by (auto simp: raft_ok_def)
  from ev obtain n0 n where h: "node_handle ev (pe_node p) = Some n0" and top: "node_top n0 = Some n"
    and p': "p' = p\<lparr>pe_node := n\<rparr>"
    by (auto simp: peer_event_def node_run_def bind_eq_Some_conv)
  have i0: "i \<noteq> NoNode" using N(3,4) by (metis)
  have "election_input (raft_input i ev)" using m by (simp add: input_ok_def)
  with node_handle_estep [OF h ev(2) id(2) t] id(1) i0 have e: "estep (raft_input i ev) (pe_raft p) (n_raft n0)"
    and f: "n_prevHardSt n0 = n_prevHardSt (pe_node p)" "n_prevSoftSt n0 = n_prevSoftSt (pe_node p)"
      "n_advancec n0 = n_advancec (pe_node p)" by auto
  note tf = node_top_fields [OF top]
  have r': "pe_raft p' = n_raft n0" using p' tf(1) by simp
  have a: "app_ok N D R i p'"
    by (rule app_ok_frame [of N D R i p]) (use ok p' tf f in \<open>simp_all add: peer_ok_def\<close>)
  have n: "node_ok (pe_node p')" using p' tf by (simp add: node_ok_def)
  have h': "handed p' = handed p" "pe_disk p' = pe_disk p" using p' handed_frame [of p' p] by simp_all
  show "peer_ok N D R (V \<union> cast (pe_raft p')) (E \<union> wins (pe_raft p')) i p'"
    unfolding peer_ok_def
    using estep_raft_ok [OF r e m RV(1) N] estep_single [OF e id(3) RV(2)] RV(1) ok a n h' r'
    by (auto simp: peer_ok_def)
  show "elected_ok N D (E \<union> wins (pe_raft p'))"
    using estep_elected_ok [OF r e m N(1,2,3) E] r' by simp
qed

section \<open>The application\<close>

lemma newReady_fields:
  assumes "newReady r ss hs = Some rd"
  shows "rd_Messages rd = r_msgs r"
    "rd_SoftState rd = (if softState r = ss then None else Some (softState r))"
    "rd_HardState rd = (if hardState r = hs then emptyState else hardState r)"
    "\<not> IsEmptySnap (rd_Snapshot rd) \<Longrightarrow> u_snapshot (l_unstable (r_raftLog r)) = Some (rd_Snapshot rd)"
  using assms
  by (auto simp: newReady_def bind_eq_Some_conv isHardStateEqual_iff ss_equal_def IsEmptySnap_def zero_snapshot_def
      SoftState.equality split: option.splits)

lemma node_takeReady_fields:
  "n_raft (node_takeReady n) = (n_raft n)\<lparr>r_msgs := []\<rparr>" "n_advancec (node_takeReady n)"
  "n_prevSoftSt (node_takeReady n) = (case rd_SoftState (n_rd n) of None \<Rightarrow> n_prevSoftSt n | Some ss \<Rightarrow> ss)"
  "n_prevHardSt (node_takeReady n) =
     (if IsEmptyHardState (rd_HardState (n_rd n)) then n_prevHardSt n else rd_HardState (n_rd n))"
  by (auto simp: node_takeReady_def Let_def split: option.split)

text \<open>
  A leader sends before it writes.  The votes in its messages are on disk already: its own
  candidacy had to be written for the other members to vote.
\<close>

lemma leader_messages_saved:
  assumes r: "raft_ok N D R V E i r" and l: "r_state r = StateLeader" and E: "elected_ok N D E"
    and D: "D i \<subseteq> R" and x: "x \<in> set (r_msgs r)"
  shows "msg_ok N D i (D i) x"
proof -
  have "(r_Term r, i) \<in> E" using r l by (simp add: raft_ok_def)
  then have d: "(r_Term r, i) \<in> D i" using E unfolding elected_ok_def by blast
  have v: "votes_bound V (r_Term r) (r_Vote r)" "r_Vote r = i" using r l by (auto simp: raft_ok_def role_ok_def)
  from r x have mx: "msg_ok N D i V x" "vote_msg x \<Longrightarrow> r_Term r \<le> MTerm x"
    using d D unfolding raft_ok_def by blast+
  have now: "c = i \<and> MTerm x = r_Term r" if "(MTerm x, c) \<in> V" "vote_msg x" for c
    using that mx(2) v unfolding votes_bound_def by (metis le_antisym)
  show ?thesis
    using mx(1) now d unfolding msg_ok_def vote_msg_def by metis
qed

lemma raft_ok_cleared:
  "raft_ok N D R V E i r \<Longrightarrow> raft_ok N D V V E i (r\<lparr>r_msgs := []\<rparr>)"
  by (auto simp: raft_ok_def role_ok_def split: StateType.splits)

lemma peer_ready_ok:
  assumes ok: "peer_ok N D R V E i p" and en: "node_enabled EvReady (pe_node p)"
    and st: "peer_ready p = Some (p', ms)" and E: "elected_ok N D E"
  shows "peer_ok N D V V E i p'" "\<forall>x \<in> set ms. msg_ok N D i (D i) x"
proof -
  let ?n = "pe_node p" let ?rd = "n_rd (pe_node p)" let ?r = "pe_raft p"
  have r: "raft_ok N D R V E i ?r" and sub: "D i \<subseteq> R" "R \<subseteq> V" "single_valued V" and a: "app_ok N D R i p"
    and nok: "node_ok ?n" and db: "votes_bound (D i) (HTerm (pe_disk p)) (HVote (pe_disk p))"
    using ok by (auto simp: peer_ok_def)
  have adv: "\<not> n_advancec ?n" using en nok by (auto simp: node_ok_def)
  then have none: "pe_app p = None" using a unfolding app_ok_def by blast
  have rd: "newReady ?r (n_prevSoftSt ?n) (n_prevHardSt ?n) = Some ?rd" using nok adv by (simp add: node_ok_def)
  note rf = newReady_fields [OF rd]
  from st obtain n where top: "node_top (node_takeReady ?n) = Some n"
    and p': "p' = p\<lparr>pe_node := n, pe_islead := (case rd_SoftState ?rd of None \<Rightarrow> pe_islead p | Some ss \<Rightarrow> ss_RaftState ss = StateLeader),
      pe_app := Some (?rd, False)\<rparr>" and ms: "ms = (if pe_islead p' then rd_Messages ?rd else [])"
    by (auto simp: peer_ready_def node_run_def bind_eq_Some_conv Let_def)
  note tf = node_top_fields [OF top] and kf = node_takeReady_fields [of ?n]
  have isl: "pe_islead p \<longleftrightarrow> ss_RaftState (n_prevSoftSt ?n) = StateLeader"
    using a unfolding app_ok_def by blast
  have lead: "pe_islead p' \<longleftrightarrow> r_state ?r = StateLeader"
  proof (cases "softState ?r = n_prevSoftSt ?n")
    case True
    then have "ss_RaftState (n_prevSoftSt ?n) = r_state ?r" by (metis SoftState.select_convs(2) softState_def)
    with True isl p' rf(2) show ?thesis by simp
  next
    case False
    with p' rf(2) show ?thesis by (simp add: softState_def)
  qed
  have "n_prevSoftSt n = softState ?r" using tf(3) kf(3) rf(2) by (auto split: if_splits)
  then have soft: "pe_islead p' \<longleftrightarrow> ss_RaftState (n_prevSoftSt n) = StateLeader"
    using lead by (simp add: softState_def)
  have hd: "handed p' = (if IsEmptyHardState (rd_HardState ?rd) then pe_disk p else rd_HardState ?rd)"
    using p' by (simp add: handed_def)
  have ph: "n_prevHardSt ?n = emptyState \<or> n_prevHardSt ?n = pe_disk p"
    using a none by (simp add: app_ok_def handed_def)
  have vb: "votes_bound V (r_Term ?r) (r_Vote ?r)" using r by (simp add: raft_ok_def)
  have hv: "votes_bound V (HTerm (handed p')) (HVote (handed p'))"
  proof (cases "hardState ?r = emptyState")
    case True
    then have "r_Term ?r = 0" by (simp add: hardState_def emptyState_def)
    with vb have "V = {}" by (auto simp: votes_bound_def)
    then show ?thesis by (simp add: votes_bound_def)
  next
    case False
    then have "handed p' = hardState ?r"
      using hd rf(3) ph by (auto simp: IsEmptyHardState_def isHardStateEqual_iff)
    then show ?thesis using vb by (simp add: hardState_def)
  qed
  have ph': "n_prevHardSt n = emptyState \<or> n_prevHardSt n = handed p'"
    using tf(2) kf(4) hd ph by auto
  have sn: "\<not> IsEmptySnap (rd_Snapshot ?rd) \<longrightarrow> set (snap_nodes (rd_Snapshot ?rd)) = N"
    using rf(4) r by (auto simp: raft_ok_def node_snap_def)
  have mv: "\<forall>x \<in> set (rd_Messages ?rd). msg_ok N D i V x" using r rf(1) by (simp add: raft_ok_def)
  have a': "app_ok N D V i p'"
    using p' tf(4) kf(2) soft ph' sn mv by (simp add: app_ok_def)
  have r': "raft_ok N D V V E i (pe_raft p')" using raft_ok_cleared [OF r] p' tf(1) kf(1) by simp
  show "peer_ok N D V V E i p'"
    using r' sub db hv a' p' tf by (auto simp: peer_ok_def node_ok_def)
  show "\<forall>x \<in> set ms. msg_ok N D i (D i) x"
    using ms lead leader_messages_saved [OF r _ E sub(1)] rf(1) by (auto split: if_splits)
qed

lemma ms_Append_snapshot: "ms_Append es st = Some st' \<Longrightarrow> ms_snapshot st' = ms_snapshot st"
  by (auto simp: ms_Append_def Let_def bind_eq_Some_conv split: if_splits)

lemma raft_ok_log:
  assumes "raft_ok N D R V E i r" "\<And>s. node_snap l s \<Longrightarrow> set (snap_nodes s) = N"
  shows "raft_ok N D R V E i (r\<lparr>r_raftLog := l\<rparr>)"
proof -
  have "role_ok (r\<lparr>r_raftLog := l\<rparr>) = role_ok r" by (simp add: role_ok_def split: StateType.split)
  then show ?thesis using assms by (simp add: raft_ok_def)
qed

lemma peer_save_ok:
  assumes ok: "peer_ok N D R V E i p" and st: "peer_save p = Some (p', ms)"
  shows "peer_ok N (D(i := R)) R V E i p'" "\<forall>x \<in> set ms. msg_ok N (D(i := R)) i R x"
proof -
  let ?D = "D(i := R)"
  have r: "raft_ok N D R V E i (pe_raft p)" and sub: "D i \<subseteq> R" "R \<subseteq> V" "single_valued V" and a: "app_ok N D R i p"
    and nok: "node_ok (pe_node p)" and rb: "votes_bound R (HTerm (handed p)) (HVote (handed p))"
    using ok by (auto simp: peer_ok_def)
  have D: "D j \<subseteq> ?D j" for j using sub(1) by simp
  obtain rd where app: "pe_app p = Some (rd, False)"
    using st by (auto simp: peer_save_def split: option.splits bool.splits)
  with st obtain mst where mst: "save_storage rd (l_storage (r_raftLog (pe_raft p))) = Some mst"
    and p': "p' = p\<lparr>pe_node := (pe_node p)\<lparr>n_raft := (pe_raft p)\<lparr>r_raftLog := (r_raftLog (pe_raft p))\<lparr>l_storage := mst\<rparr>\<rparr>\<rparr>,
      pe_disk := (if IsEmptyHardState (rd_HardState rd) then pe_disk p else rd_HardState rd), pe_app := Some (rd, True)\<rparr>"
    and ms: "ms = (if pe_islead p then [] else rd_Messages rd)"
    by (auto simp: peer_save_def bind_eq_Some_conv Let_def)
  have af: "n_advancec (pe_node p)" "pe_islead p \<longleftrightarrow> ss_RaftState (n_prevSoftSt (pe_node p)) = StateLeader"
    "n_prevHardSt (pe_node p) = emptyState \<or> n_prevHardSt (pe_node p) = handed p"
    "\<not> IsEmptySnap (rd_Snapshot rd) \<longrightarrow> set (snap_nodes (rd_Snapshot rd)) = N"
    "\<not> pe_islead p \<longrightarrow> (\<forall>x \<in> set (rd_Messages rd). msg_ok N D i R x)"
    using a app unfolding app_ok_def by simp_all
  have h: "handed p' = handed p" "pe_disk p' = handed p" using p' app by (simp_all add: handed_def)
  have "ms_snapshot mst = ms_snapshot (l_storage (r_raftLog (pe_raft p))) \<or> set (snap_nodes (ms_snapshot mst)) = N"
    using mst af(4) by (auto simp: save_storage_def ms_ApplySnapshot_def dest!: ms_Append_snapshot split: if_splits)
  moreover have ns: "node_snap (r_raftLog (pe_raft p)) s \<longrightarrow> set (snap_nodes s) = N" for s
    using r by (simp add: raft_ok_def)
  ultimately have "set (snap_nodes s) = N" if "node_snap ((r_raftLog (pe_raft p))\<lparr>l_storage := mst\<rparr>) s" for s
    using that ns [of s] by (auto simp: node_snap_def)
  from raft_ok_log [OF r this] have "raft_ok N D R V E i (pe_raft p')" using p' by simp
  then have r': "raft_ok N ?D R V E i (pe_raft p')"
    using raft_ok_mono [of N D R V E i "pe_raft p'" ?D E] D by simp
  have a': "app_ok N ?D R i p'" using p' af h by (simp add: app_ok_def)
  have n': "node_ok (pe_node p')" using p' nok af(1) by (simp add: node_ok_def)
  show "peer_ok N ?D R V E i p'" using r' sub rb h a' n' by (simp add: peer_ok_def)
  show "\<forall>x \<in> set ms. msg_ok N ?D i R x"
    using ms af(5) msg_ok_mono [of N D i R _ ?D R] D by (auto split: if_splits)
qed

lemma advance_log:
  assumes "node_advance n = Some n'"
  shows "\<exists>l. n_raft n' = (n_raft n)\<lparr>r_raftLog := l\<rparr> \<and> l_storage l = l_storage (r_raftLog (n_raft n)) \<and>
      (u_snapshot (l_unstable l) = None \<or> u_snapshot (l_unstable l) = u_snapshot (l_unstable (r_raftLog (n_raft n))))"
    "n_prevHardSt n' = n_prevHardSt n" "n_prevSoftSt n' = n_prevSoftSt n" "\<not> n_advancec n'"
proof -
  let ?l = "r_raftLog (n_raft n)"
  from assms obtain l1 l2 where
    l1: "(if HCommit (n_prevHardSt n) \<noteq> 0 then l_appliedTo (HCommit (n_prevHardSt n)) ?l else Some ?l) = Some l1"
    and l2: "(if n_havePrevLastUnstablei n
          then l_stableTo (fst (n_prevLastUnstable n)) (snd (n_prevLastUnstable n)) l1 else Some l1) = Some l2"
    and n': "n' = n\<lparr>n_raft := (n_raft n)\<lparr>r_raftLog := l_stableSnapTo (n_prevSnapi n) l2\<rparr>,
       n_havePrevLastUnstablei := False, n_advancec := False\<rparr>"
    unfolding node_advance_def Let_def bind_eq_Some_conv by blast
  have "l_storage l1 = l_storage ?l \<and> u_snapshot (l_unstable l1) = u_snapshot (l_unstable ?l)"
    using l1 by (auto simp: l_appliedTo_def split: if_splits)
  moreover have "l_storage l2 = l_storage l1 \<and> u_snapshot (l_unstable l2) = u_snapshot (l_unstable l1)"
    using l2 by (auto simp: l_stableTo_def u_stableTo_def bind_eq_Some_conv split: if_splits option.splits)
  ultimately have "l_storage (l_stableSnapTo (n_prevSnapi n) l2) = l_storage ?l \<and>
      (u_snapshot (l_unstable (l_stableSnapTo (n_prevSnapi n) l2)) = None \<or>
       u_snapshot (l_unstable (l_stableSnapTo (n_prevSnapi n) l2)) = u_snapshot (l_unstable ?l))"
    by (auto simp: l_stableSnapTo_def u_stableSnapTo_def split: option.splits)
  then show "\<exists>l. n_raft n' = (n_raft n)\<lparr>r_raftLog := l\<rparr> \<and> l_storage l = l_storage ?l \<and>
      (u_snapshot (l_unstable l) = None \<or> u_snapshot (l_unstable l) = u_snapshot (l_unstable ?l))"
    using n' by (intro exI [of _ "l_stableSnapTo (n_prevSnapi n) l2"]) simp
  show "n_prevHardSt n' = n_prevHardSt n" "n_prevSoftSt n' = n_prevSoftSt n" "\<not> n_advancec n'"
    using n' by simp_all
qed

lemma peer_advance_ok:
  assumes ok: "peer_ok N D R V E i p" and st: "peer_advance p = Some p'"
  shows "peer_ok N D R V E i p'"
proof -
  have r: "raft_ok N D R V E i (pe_raft p)" and a: "app_ok N D R i p" using ok by (auto simp: peer_ok_def)
  obtain rd where app: "pe_app p = Some (rd, True)"
    using st by (auto simp: peer_advance_def split: option.splits bool.splits)
  with st obtain n0 n where ad: "node_advance (pe_node p) = Some n0" and top: "node_top n0 = Some n"
    and p': "p' = p\<lparr>pe_node := n, pe_app := None\<rparr>"
    by (auto simp: peer_advance_def node_run_def bind_eq_Some_conv)
  note tf = node_top_fields [OF top] and al = advance_log [OF ad]
  have af: "pe_islead p \<longleftrightarrow> ss_RaftState (n_prevSoftSt (pe_node p)) = StateLeader"
    "n_prevHardSt (pe_node p) = emptyState \<or> n_prevHardSt (pe_node p) = handed p" "R = D i"
    using a app unfolding app_ok_def by simp_all
  have h: "handed p' = handed p" "pe_disk p' = pe_disk p" using p' app by (simp_all add: handed_def)
  have a': "app_ok N D R i p'" using p' af h tf(2-4) al(2-4) by (simp add: app_ok_def)
  from al(1) obtain l where l: "n_raft n0 = (pe_raft p)\<lparr>r_raftLog := l\<rparr>"
    "\<And>s. node_snap l s \<Longrightarrow> node_snap (r_raftLog (pe_raft p)) s"
    unfolding node_snap_def by fastforce
  have "raft_ok N D R V E i (pe_raft p')"
    using raft_ok_log [OF r, of l] r p' tf(1) l by (simp add: raft_ok_def)
  moreover have "node_ok (pe_node p')" using p' tf by (simp add: node_ok_def)
  ultimately show ?thesis using ok a' h by (simp add: peer_ok_def)
qed

lemma peer_boot_ok:
  assumes c: "boot_config N i hs c" and b: "peer_boot c hs = Some p"
    and vb: "votes_bound (D i) (HTerm hs) (HVote hs)" "single_valued (D i)"
  shows "peer_ok N D (D i) (D i) E i p"
proof -
  from c obtain st where st: "c_Storage c = Some st" "c_ID c = i" "ms_hardState st = hs" "set (boot_members c st) = N"
    "snap_index (ms_snapshot st) \<noteq> 0 \<longrightarrow> set (snap_nodes (ms_snapshot st)) = N"
    by (auto simp: boot_config_def split: option.splits)
  from b obtain r n where r: "newRaft c = Some r" and n: "node_start r = Some n"
    and p: "p = \<lparr>pe_node = n, pe_disk = hs, pe_app = None, pe_islead = False\<rparr>"
    by (auto simp: peer_boot_def RestartNode_def bind_eq_Some_conv)
  note f = newRaft_fields [OF r st(1)]
  note tf = node_top_fields [OF n [unfolded node_start_def]]
  have "raft_ok N D (D i) (D i) E i r"
    using f st vb by (auto simp: raft_ok_def role_ok_def node_snap_def)
  then show ?thesis
    using p tf vb f(4) by (simp add: peer_ok_def handed_def node_ok_def app_ok_def softState_def)
qed

section \<open>The cluster\<close>

lemma cluster_ok_put:
  assumes "cluster_ok N D R V E s" "peer_ok N D' R' V' E' i p" "elected_ok N D' E'"
    "\<And>j. D j \<subseteq> D' j" "\<And>j. j \<noteq> i \<Longrightarrow> D' j = D j" "E \<subseteq> E'" "i \<in> N"
    "\<forall>x \<in> set ms. msg_ok N D' i (D' i) x"
  shows "cluster_ok N D' (R(i := R')) (V(i := V')) E' (put_peer i p ms s)"
proof -
  have "net_ok N D' (cl_net s \<union> set ms)"
  proof -
    have "MFrom x \<in> N \<and> msg_ok N D' (MFrom x) (D' (MFrom x)) x" if "x \<in> cl_net s" for x
      using that assms(1) msg_ok_mono [of N D "MFrom x" "D (MFrom x)" x D' "D' (MFrom x)"] assms(4)
      by (auto simp: cluster_ok_def net_ok_def)
    moreover have "MFrom x = i" if "x \<in> set ms" for x using that assms(8) by (auto simp: msg_ok_def)
    ultimately show ?thesis using assms(7,8) by (auto simp: net_ok_def)
  qed
  moreover have "peer_ok N D' ((R(i := R')) j) ((V(i := V')) j) E' j (cl_peer (put_peer i p ms s) j)" if "j \<in> N" for j
  proof (cases "j = i")
    case True
    then show ?thesis using assms(2) by (simp add: put_peer_def)
  next
    case False
    have "peer_ok N D (R j) (V j) E j (cl_peer s j)" using assms(1) that by (simp add: cluster_ok_def)
    from peer_ok_mono [OF this assms(4) assms(5) [OF False] assms(6)] False show ?thesis
      by (simp add: put_peer_def)
  qed
  ultimately show ?thesis using assms(3) by (simp add: cluster_ok_def put_peer_def)
qed

definition good :: "u64 set \<Rightarrow> votes \<Rightarrow> cluster \<Rightarrow> bool" where
  "good N E s \<longleftrightarrow> (\<exists>D R V. cluster_ok N D R V E s)"

definition leaders :: "u64 set \<Rightarrow> cluster \<Rightarrow> votes" where
  "leaders N s = {(t, i). i \<in> N \<and> is_leader s t i}"

lemma local_input: "local_event ev \<Longrightarrow> raft_event ev \<and> input_ok N D i (raft_input i ev)"
  by (cases ev) (auto simp: input_ok_def election_input_def vote_msg_def)

lemma recv_input:
  assumes "node_Step m = Some ev" "input_ok N D i m"
  shows "raft_event ev \<and> input_ok N D i (raft_input i ev)"
proof (cases "MType m = MsgProp")
  case True
  with assms(1) have "ev = EvProp m" by (auto simp: node_Step_def split: if_splits)
  with True show ?thesis by (simp add: input_ok_def election_input_def vote_msg_def)
next
  case False
  with assms(1) have "ev = EvRecv m" by (auto simp: node_Step_def split: if_splits)
  with assms(2) show ?thesis by simp
qed

lemma cstep_good:
  assumes st: "cstep N s s'" and g: "good N E s" and N: "finite N" "2 \<le> card N" "0 \<notin> N"
  shows "\<exists>E'. E \<subseteq> E' \<and> good N E' s'"
proof -
  from g obtain D R V where c: "cluster_ok N D R V E s" by (auto simp: good_def)
  have E: "elected_ok N D E" and net: "net_ok N D (cl_net s)" using c by (auto simp: cluster_ok_def)
  have pk: "peer_ok N D (R i) (V i) E i (cl_peer s i)" if "i \<in> N" for i using c that by (simp add: cluster_ok_def)
  have event: ?thesis if "i \<in> N" "peer_event ev (cl_peer s i) = Some p" "raft_event ev"
    "input_ok N D i (raft_input i ev)" "r_Term (pe_raft (cl_peer s i)) < max_u64" "s' = put_peer i p [] s" for i ev p
  proof -
    note po = peer_event_ok [OF pk [OF that(1)] that(2-5) N(1,2) that(1) N(3) E]
    have "cluster_ok N D (R(i := R i)) (V(i := V i \<union> cast (pe_raft p))) (E \<union> wins (pe_raft p)) s'"
      unfolding that(6) by (rule cluster_ok_put [OF c po]) (use that(1) in auto)
    then show ?thesis by (auto simp: good_def)
  qed
  from st show ?thesis
  proof cases
    case (recv i m ev p)
    have "input_ok N D i m" by (rule net_input [OF net recv(3,4)])
    from recv_input [OF recv(5) this] event [OF recv(2) recv(8)] recv(7,1) show ?thesis by blast
  next
    case (local i ev p)
    from local_input [OF local(3)] event [OF local(2) local(6)] local(5,1) show ?thesis by blast
  next
    case (ready i p ms)
    note po = peer_ready_ok [OF pk [OF ready(2)] ready(3,4) E]
    have "cluster_ok N D (R(i := V i)) (V(i := V i)) E s'"
      unfolding ready(1) by (rule cluster_ok_put [OF c po(1) E]) (use ready(2) po(2) in auto)
    then show ?thesis by (auto simp: good_def)
  next
    case (save i p ms)
    note po = peer_save_ok [OF pk [OF save(2)] save(3)]
    have sub: "D i \<subseteq> R i" using pk [OF save(2)] by (simp add: peer_ok_def)
    have "elected_ok N (D(i := R i)) E" by (rule elected_ok_mono [OF E]) (use sub in simp)
    from cluster_ok_put [OF c po(1) this] have "cluster_ok N (D(i := R i)) (R(i := R i)) (V(i := V i)) E s'"
      unfolding save(1) using sub save(2) po(2) by simp
    then show ?thesis by (auto simp: good_def)
  next
    case (advance i p)
    have "cluster_ok N D (R(i := R i)) (V(i := V i)) E s'"
      unfolding advance(1) by (rule cluster_ok_put [OF c peer_advance_ok [OF pk [OF advance(2)] advance(4)] E])
        (use advance(2) in auto)
    then show ?thesis by (auto simp: good_def)
  next
    case (crash i cf p)
    have "votes_bound (D i) (HTerm (pe_disk (cl_peer s i))) (HVote (pe_disk (cl_peer s i)))" "single_valued (D i)"
      using pk [OF crash(2)] by (auto simp: peer_ok_def intro: single_valued_subset)
    from peer_boot_ok [where D = D and E = E, OF crash(3,4) this] have "cluster_ok N D (R(i := D i)) (V(i := D i)) E s'"
      unfolding crash(1) by (intro cluster_ok_put [OF c _ E]) (use crash(2) in auto)
    then show ?thesis by (auto simp: good_def)
  qed
qed

lemma cinit_good:
  assumes "cinit N s"
  shows "good N {} s"
proof -
  have "peer_ok N (\<lambda>_. {}) {} {} {} i (cl_peer s i)" if "i \<in> N" for i
    using assms that peer_boot_ok [where D = "\<lambda>_. {}" and i = i and N = N and p = "cl_peer s i"]
    by (auto simp: cinit_def votes_bound_def single_valued_def)
  then have "cluster_ok N (\<lambda>_. {}) (\<lambda>_. {}) (\<lambda>_. {}) {} s"
    using assms by (simp add: cluster_ok_def net_ok_def elected_ok_def cinit_def)
  then show ?thesis unfolding good_def by blast
qed

lemma good_leaders: "good N E s \<Longrightarrow> leaders N s \<subseteq> E"
  by (auto simp: good_def leaders_def is_leader_def cluster_ok_def peer_ok_def raft_ok_def)

text \<open>Two elected leaders of one term are one node.\<close>

lemma good_unique:
  assumes g: "good N E s" and N: "finite N" and e: "(t, i) \<in> E" "(t, j) \<in> E"
  shows "i = j"
proof -
  from g obtain D R V where c: "cluster_ok N D R V E s" by (auto simp: good_def)
  then have E: "elected_ok N D E" by (simp add: cluster_ok_def)
  obtain A where A: "A \<subseteq> N" "raft_quorum (card N) \<le> card A" "\<forall>k \<in> A. (t, i) \<in> D k"
    using E [unfolded elected_ok_def, rule_format, OF e(1)] by blast
  obtain B where B: "B \<subseteq> N" "raft_quorum (card N) \<le> card B" "\<forall>k \<in> B. (t, j) \<in> D k"
    using E [unfolded elected_ok_def, rule_format, OF e(2)] by blast
  from rq.quorums_intersect [OF N A(1) B(1) A(2) B(2)] obtain k where k: "k \<in> A" "k \<in> B" by blast
  with A B have d: "(t, i) \<in> D k" "(t, j) \<in> D k" "k \<in> N" by auto
  with c have "single_valued (D k)" by (auto simp: cluster_ok_def peer_ok_def intro: single_valued_subset)
  with d show ?thesis by (auto dest: single_valuedD)
qed

lemma run_good:
  assumes "(cstep N)\<^sup>*\<^sup>* s s'" "good N E s" "finite N" "2 \<le> card N" "0 \<notin> N"
  shows "\<exists>E'. E \<subseteq> E' \<and> good N E' s'"
  using assms
proof (induction rule: rtranclp_induct)
  case (step y z)
  then obtain E' where "E \<subseteq> E'" "good N E' y" by blast
  with cstep_good [OF step(2) this(2) step(5-7)] show ?case by blast
qed blast

end
