(* ===== verification/Raft_Cluster_Run.thy ===== *)
theory Raft_Cluster_Run
  imports Raft_Cluster_Safety "HOL-Library.Code_Target_Nat"
begin

text \<open>
  Executable runs of the cluster: a list of actions is carried out on an explicit state, and
  every run so computed is a run of the step relation.  With it the cluster theorems are
  applied to concrete executions.
\<close>

section \<open>Actions\<close>

datatype action = ARecv u64 Message | ALocal u64 nodeEvent | AReady u64 | ASave u64 | AAdvance u64 | ACrash u64 Config

record cstate =
  cs_peers :: "(u64 \<times> peer) list"
  cs_net :: "Message list"

definition cs_put :: "u64 \<Rightarrow> peer \<Rightarrow> Message list \<Rightarrow> cstate \<Rightarrow> cstate" where
  "cs_put i p ms c = \<lparr>cs_peers = AList.update i p (cs_peers c), cs_net = ms @ cs_net c\<rparr>"

definition cs_event :: "u64 \<Rightarrow> nodeEvent \<Rightarrow> cstate \<Rightarrow> cstate option" where
  "cs_event i ev c = do {
     p \<leftarrow> map_of (cs_peers c) i;
     _ \<leftarrow> panic_unless (node_enabled ev (pe_node p) \<and> r_Term (pe_raft p) < max_u64);
     p' \<leftarrow> peer_event ev p;
     Some (cs_put i p' [] c)
   }"

fun cs_act :: "u64 list \<Rightarrow> action \<Rightarrow> cstate \<Rightarrow> cstate option" where
  "cs_act N (ARecv i m) c = do {
     _ \<leftarrow> panic_unless (m \<in> set (cs_net c) \<and> MTo m = i);
     ev \<leftarrow> node_Step m;
     cs_event i ev c
   }"
| "cs_act N (ALocal i ev) c = do { _ \<leftarrow> panic_unless (local_event ev); cs_event i ev c }"
| "cs_act N (AReady i) c = do {
     p \<leftarrow> map_of (cs_peers c) i;
     _ \<leftarrow> panic_unless (node_enabled EvReady (pe_node p));
     res \<leftarrow> peer_ready p;
     Some (cs_put i (fst res) (snd res) c)
   }"
| "cs_act N (ASave i) c = do {
     p \<leftarrow> map_of (cs_peers c) i;
     res \<leftarrow> peer_save p;
     Some (cs_put i (fst res) (snd res) c)
   }"
| "cs_act N (AAdvance i) c = do {
     p \<leftarrow> map_of (cs_peers c) i;
     _ \<leftarrow> panic_unless (node_enabled EvAdvance (pe_node p));
     p' \<leftarrow> peer_advance p;
     Some (cs_put i p' [] c)
   }"
| "cs_act N (ACrash i cf) c = do {
     p \<leftarrow> map_of (cs_peers c) i;
     _ \<leftarrow> panic_unless (boot_config (set N) i (pe_disk p) cf);
     p' \<leftarrow> peer_boot cf (pe_disk p);
     Some (cs_put i p' [] c)
   }"

definition cs_run :: "u64 list \<Rightarrow> action list \<Rightarrow> cstate \<Rightarrow> cstate option" where
  "cs_run N as c = ofold (cs_act N) as c"

definition cs_start :: "(u64 \<times> Config) list \<Rightarrow> cstate option" where
  "cs_start cfs = ofold (\<lambda>(i, cf) c. do {
     p \<leftarrow> peer_boot cf emptyState;
     Some (cs_put i p [] c)
   }) cfs \<lparr>cs_peers = [], cs_net = []\<rparr>"

section \<open>Soundness\<close>

definition cs_abs :: "cstate \<Rightarrow> cluster" where
  "cs_abs c = \<lparr>cl_peer = (\<lambda>i. the (map_of (cs_peers c) i)), cl_net = set (cs_net c)\<rparr>"

definition cs_ok :: "u64 list \<Rightarrow> cstate \<Rightarrow> bool" where
  "cs_ok N c \<longleftrightarrow> fst ` set (cs_peers c) = set N"

lemma cs_put_abs: "cs_abs (cs_put i p ms c) = put_peer i p ms (cs_abs c)"
  by (auto simp: cs_abs_def cs_put_def put_peer_def update_conv')

lemma cs_put_ok: "cs_ok N c \<Longrightarrow> i \<in> set N \<Longrightarrow> cs_ok N (cs_put i p ms c)"
  by (auto simp: cs_ok_def cs_put_def keys_update)

lemma cs_peer: "cs_ok N c \<Longrightarrow> map_of (cs_peers c) i = Some p \<Longrightarrow> i \<in> set N \<and> cl_peer (cs_abs c) i = p"
  by (auto simp: cs_ok_def cs_abs_def dest: map_of_in_keys)

lemma cs_net_abs: "m \<in> set (cs_net c) \<Longrightarrow> m \<in> cl_net (cs_abs c)"
  by (simp add: cs_abs_def)

lemma cs_act_sound:
  assumes "cs_act N a c = Some c'" "cs_ok N c"
  shows "cstep (set N) (cs_abs c) (cs_abs c') \<and> cs_ok N c'"
proof (cases a)
  case (ARecv i m)
  with assms obtain ev p p' where
    "m \<in> set (cs_net c)" "MTo m = i" "node_Step m = Some ev" "map_of (cs_peers c) i = Some p"
    "node_enabled ev (pe_node p)" "r_Term (pe_raft p) < max_u64" "peer_event ev p = Some p'" "c' = cs_put i p' [] c"
    by (auto simp: cs_event_def bind_eq_Some_conv split: if_splits)
  with cs_peer [OF assms(2)] assms(2) show ?thesis
    by (auto simp: cs_put_abs intro: cs_put_ok cstep.recv cs_net_abs)
next
  case (ALocal i ev)
  with assms obtain p p' where "local_event ev" "map_of (cs_peers c) i = Some p"
    "node_enabled ev (pe_node p)" "r_Term (pe_raft p) < max_u64" "peer_event ev p = Some p'" "c' = cs_put i p' [] c"
    by (auto simp: cs_event_def bind_eq_Some_conv split: if_splits)
  with cs_peer [OF assms(2)] assms(2) show ?thesis
    by (auto simp: cs_put_abs intro: cs_put_ok cstep.local)
next
  case (AReady i)
  with assms obtain p p' ms where "map_of (cs_peers c) i = Some p" "node_enabled EvReady (pe_node p)"
    "peer_ready p = Some (p', ms)" "c' = cs_put i p' ms c"
    by (auto simp: bind_eq_Some_conv split: if_splits)
  with cs_peer [OF assms(2)] assms(2) show ?thesis
    by (auto simp: cs_put_abs intro: cs_put_ok cstep.ready)
next
  case (ASave i)
  with assms obtain p p' ms where "map_of (cs_peers c) i = Some p" "peer_save p = Some (p', ms)" "c' = cs_put i p' ms c"
    by (auto simp: bind_eq_Some_conv)
  with cs_peer [OF assms(2)] assms(2) show ?thesis
    by (auto simp: cs_put_abs intro: cs_put_ok cstep.save)
next
  case (AAdvance i)
  with assms obtain p p' where "map_of (cs_peers c) i = Some p" "node_enabled EvAdvance (pe_node p)"
    "peer_advance p = Some p'" "c' = cs_put i p' [] c"
    by (auto simp: bind_eq_Some_conv split: if_splits)
  with cs_peer [OF assms(2)] assms(2) show ?thesis
    by (auto simp: cs_put_abs intro: cs_put_ok cstep.advance)
next
  case (ACrash i cf)
  with assms obtain p p' where "map_of (cs_peers c) i = Some p" "boot_config (set N) i (pe_disk p) cf"
    "peer_boot cf (pe_disk p) = Some p'" "c' = cs_put i p' [] c"
    by (auto simp: bind_eq_Some_conv split: if_splits)
  with cs_peer [OF assms(2)] assms(2) show ?thesis
    by (auto simp: cs_put_abs intro: cs_put_ok cstep.crash)
qed

lemma cs_run_sound:
  "cs_run N as c = Some c' \<Longrightarrow> cs_ok N c \<Longrightarrow> (cstep (set N))\<^sup>*\<^sup>* (cs_abs c) (cs_abs c') \<and> cs_ok N c'"
proof (induction as arbitrary: c)
  case (Cons a as)
  from Cons.prems(1) obtain d where d: "cs_act N a c = Some d" "cs_run N as d = Some c'"
    by (auto simp: cs_run_def bind_eq_Some_conv)
  with cs_act_sound [OF d(1) Cons.prems(2)] Cons.IH [OF d(2)] show ?case
    by (auto intro: converse_rtranclp_into_rtranclp)
qed (simp add: cs_run_def)

section \<open>Two members\<close>

definition cfg2 :: "u64 \<Rightarrow> Config" where
  "cfg2 i = \<lparr>c_ID = i, c_peers = [1, 2], c_ElectionTick = 10, c_HeartbeatTick = 1,
     c_Storage = Some NewMemoryStorage, c_Applied = 0, c_MaxSizePerMsg = 1000, c_MaxInflightMsgs = 2, c_CheckQuorum = False\<rparr>"

definition start2 :: "cstate option" where
  "start2 = cs_start [(1, cfg2 1), (2, cfg2 2)]"

text \<open>Node 1 campaigns, node 2 votes for it, and node 1 takes the vote.\<close>

definition vote2 :: "action list" where
  "vote2 = [ALocal 1 node_Campaign, AReady 1, ASave 1,
     ARecv 2 (zero_message\<lparr>MType := MsgVote, MTo := 2, MFrom := 1, MTerm := 1\<rparr>), AReady 2, ASave 2,
     ARecv 1 (zero_message\<lparr>MType := MsgVoteResp, MTo := 1, MFrom := 2, MTerm := 1\<rparr>)]"

lemma start2_run: "\<exists>c c'. start2 = Some c \<and> cs_run [1, 2] vote2 c = Some c' \<and>
    map_option (\<lambda>p. (r_state (pe_raft p), r_Term (pe_raft p))) (map_of (cs_peers c') 1) = Some (StateLeader, 1)"
proof -
  have "(case start2 of None \<Rightarrow> False | Some c \<Rightarrow> (case cs_run [1, 2] vote2 c of None \<Rightarrow> False | Some c' \<Rightarrow>
     map_option (\<lambda>p. (r_state (pe_raft p), r_Term (pe_raft p))) (map_of (cs_peers c') 1) = Some (StateLeader, 1)))"
    by code_simp
  then show ?thesis by (auto split: option.splits)
qed

lemma start2_init:
  assumes "start2 = Some c"
  shows "cinit {1, 2} (cs_abs c) \<and> cs_ok [1, 2] c"
proof -
  from assms obtain p1 p2 where p: "peer_boot (cfg2 1) emptyState = Some p1" "peer_boot (cfg2 2) emptyState = Some p2"
    and c: "c = cs_put 2 p2 [] (cs_put 1 p1 [] \<lparr>cs_peers = [], cs_net = []\<rparr>)"
    unfolding start2_def cs_start_def by (auto simp: bind_eq_Some_conv)
  have b: "boot_config {1, 2} i emptyState (cfg2 i)" for i
    by (auto simp: boot_config_def cfg2_def NewMemoryStorage_def boot_members_def ms_InitialState_def
        zero_snapshot_def emptyState_def)
  have "\<exists>cf hs. boot_config {1, 2} i hs cf \<and> peer_boot cf hs = Some (cl_peer (cs_abs c) i)" if "i \<in> {1, 2}" for i
    using that b [of i] p by (intro exI [of _ "cfg2 i"] exI [of _ emptyState]) (auto simp: c cs_abs_def cs_put_def)
  then show ?thesis by (auto simp: cinit_def c cs_abs_def cs_put_def cs_ok_def)
qed

section \<open>Election safety\<close>



end
