(* ===== verification/Raft_Log_View.thy ===== *)
theory Raft_Log_View
  imports Raft_Log
begin

text \<open>
  The raft log as an abstract log: the well-formedness invariant \<open>log_inv\<close>, the reading
  operations (the raft log is a \<open>log_store\<close>), and the refinement lemmas of the operations
  that change the log.
\<close>

section \<open>Invariant and view\<close>

definition log_base :: "raftLog \<Rightarrow> u64" where
  "log_base l = (case u_snapshot (l_unstable l) of
     None \<Rightarrow> al_base (ms_view (l_storage l)) | Some s \<Rightarrow> snap_index s)"

definition log_bterm :: "raftLog \<Rightarrow> u64" where
  "log_bterm l = (case u_snapshot (l_unstable l) of
     None \<Rightarrow> al_bterm (ms_view (l_storage l)) | Some s \<Rightarrow> snap_term s)"

text \<open>The part of the stored entries that the unstable part does not replace.\<close>

definition log_stored :: "raftLog \<Rightarrow> Entry list" where
  "log_stored l = take (u_offset (l_unstable l) - Suc (log_base l))
     (drop (log_base l - al_base (ms_view (l_storage l))) (al_ents (ms_view (l_storage l))))"

definition log_view :: "raftLog \<Rightarrow> alog" where
  "log_view l = \<lparr>al_base = log_base l, al_bterm = log_bterm l,
     al_ents = log_stored l @ u_entries (l_unstable l)\<rparr>"

text \<open>
  The unstable part continues the storage: it starts right after a pending snapshot, or
  after some entry of the storage that is not before the base of the log.
\<close>

definition log_struct :: "raftLog \<Rightarrow> bool" where
  "log_struct l \<longleftrightarrow> (let u = l_unstable l; a = ms_view (l_storage l) in
     ms_inv (l_storage l) \<and> contig (u_offset u) (u_entries u) \<and>
     u_offset u + length (u_entries u) \<le> max_u64 \<and> log_base l < u_offset u \<and>
     ((\<exists>s. u_snapshot u = Some s \<and> u_offset u = Suc (snap_index s)) \<or>
      (al_base a \<le> log_base l \<and> u_offset u \<le> Suc (al_last a))))"

text \<open>With no unstable entries and no snapshot the last entry is the last stored one.\<close>

definition log_tight :: "raftLog \<Rightarrow> bool" where
  "log_tight l \<longleftrightarrow> (u_entries (l_unstable l) = [] \<longrightarrow>
     (case u_snapshot (l_unstable l) of
        None \<Rightarrow> u_offset (l_unstable l) = Suc (al_last (ms_view (l_storage l)))
      | Some s \<Rightarrow> u_offset (l_unstable l) = Suc (snap_index s)))"

definition log_wf :: "raftLog \<Rightarrow> bool" where
  "log_wf l \<longleftrightarrow> log_struct l \<and> log_tight l"

definition log_inv :: "raftLog \<Rightarrow> bool" where
  "log_inv l \<longleftrightarrow> log_wf l \<and> log_base l \<le> l_committed l \<and>
     l_committed l \<le> al_last (log_view l) \<and> l_applied l \<le> l_committed l"

lemma log_view_sel [simp]:
  "al_base (log_view l) = log_base l" "al_bterm (log_view l) = log_bterm l"
  "al_ents (log_view l) = log_stored l @ u_entries (l_unstable l)"
  by (simp_all add: log_view_def)

lemma log_base_snap: "u_snapshot (l_unstable l) = Some s \<Longrightarrow> log_base l = snap_index s"
  by (simp add: log_base_def)

lemma log_structD:
  assumes "log_struct l"
  shows "ms_inv (l_storage l)" "contig (u_offset (l_unstable l)) (u_entries (l_unstable l))"
    "u_offset (l_unstable l) + length (u_entries (l_unstable l)) \<le> max_u64"
    "log_base l < u_offset (l_unstable l)"
  using assms by (simp_all add: log_struct_def Let_def)

lemma log_struct_cases:
  assumes "log_struct l"
  obtains (pending) "u_offset (l_unstable l) = Suc (log_base l)" "log_stored l = []"
  | (stored) "al_base (ms_view (l_storage l)) \<le> log_base l"
      "u_offset (l_unstable l) \<le> Suc (al_last (ms_view (l_storage l)))"
  using assms by (auto simp: log_struct_def Let_def log_base_def log_stored_def)

lemma log_stored_length:
  assumes "log_struct l"
  shows "length (log_stored l) = u_offset (l_unstable l) - Suc (log_base l)"
  using assms
proof (cases rule: log_struct_cases)
  case stored
  with log_structD [OF assms] show ?thesis by (simp add: log_stored_def al_last_def)
qed simp

lemma log_last_view:
  assumes "log_struct l"
  shows "al_last (log_view l) + 1 = u_offset (l_unstable l) + length (u_entries (l_unstable l))"
  using log_structD [OF assms] log_stored_length [OF assms] by (simp add: al_last_def)

lemma log_stored_contig:
  assumes "log_struct l"
  shows "contig (Suc (log_base l)) (log_stored l)"
  using assms
proof (cases rule: log_struct_cases)
  case stored
  let ?a = "ms_view (l_storage l)"
  have c: "contig (Suc (al_base ?a)) (al_ents ?a)"
    using ms_inv_ok [OF log_structD(1) [OF assms]] by (simp add: al_ok_def)
  have "log_base l - al_base ?a \<le> length (al_ents ?a)"
    using stored log_structD [OF assms] by (simp add: al_last_def)
  from contig_drop [OF c this] stored show ?thesis by (simp add: log_stored_def contig_take)
qed simp

lemma log_view_ok: "log_struct l \<Longrightarrow> al_ok (log_view l)"
  using log_stored_contig [of l] log_structD [of l] by (simp add: al_ok_def log_stored_length)

lemma log_view_room: "log_struct l \<Longrightarrow> al_last (log_view l) < max_u64"
  using log_last_view [of l] log_structD [of l] by simp

section \<open>Reading\<close>

lemma l_firstIndex_view:
  assumes "log_struct l"
  shows "l_firstIndex l = Some (log_base l + 1)"
proof -
  have "log_base l + 1 < two64" using log_structD [OF assms] by simp
  then show ?thesis
    using ms_firstIndex_view [OF log_structD(1) [OF assms]]
    by (auto simp: l_firstIndex_def u_maybeFirstIndex_def log_base_def u64_simps split: option.splits)
qed

lemma u_maybeLastIndex_view:
  assumes "log_struct l" "u_entries (l_unstable l) \<noteq> []"
  shows "u_maybeLastIndex (l_unstable l) = Some (al_last (log_view l))"
proof -
  let ?u = "l_unstable l"
  have "0 < length (u_entries ?u)" using assms by simp
  with log_structD [OF assms(1)] have "sub64 (add64 (u_offset ?u) (length (u_entries ?u))) 1 =
      u_offset ?u + length (u_entries ?u) - 1"
    by (subst add64_small) (simp_all add: u64_simps)
  with log_last_view [OF assms(1)] assms(2) show ?thesis by (simp add: u_maybeLastIndex_def)
qed

lemma log_wf_struct [simp]: "log_wf l \<Longrightarrow> log_struct l"
  by (simp add: log_wf_def)

lemma log_inv_wf [simp]: "log_inv l \<Longrightarrow> log_wf l"
  by (simp add: log_inv_def)

lemma l_lastIndex_view:
  assumes "log_wf l"
  shows "l_lastIndex l = Some (al_last (log_view l))"
proof (cases "u_entries (l_unstable l) = []")
  case False
  with u_maybeLastIndex_view [of l] assms show ?thesis by (simp add: l_lastIndex_def)
next
  case True
  have "log_struct l" "log_tight l" using assms by (auto simp: log_wf_def)
  with True log_last_view [of l] ms_lastIndex_view [OF log_structD(1) [of l]]
  show ?thesis
    by (auto simp: l_lastIndex_def u_maybeLastIndex_def log_tight_def split: option.splits)
qed

lemma log_stored_term:
  assumes "log_struct l" "log_base l < i" "i < u_offset (l_unstable l)"
  shows "ms_Term (l_storage l) i = Some (Inr (al_term (log_view l) i))"
    and "al_base (ms_view (l_storage l)) < i" "i \<le> al_last (ms_view (l_storage l))"
proof -
  let ?a = "ms_view (l_storage l)" and ?o = "u_offset (l_unstable l)"
  from assms obtain st: "al_base ?a \<le> log_base l" "?o \<le> Suc (al_last ?a)"
    by (cases rule: log_struct_cases) auto
  show b: "al_base ?a < i" "i \<le> al_last ?a" using st assms by simp_all
  define j where "j = i - Suc (log_base l)"
  have "log_stored l ! j = al_ents ?a ! (log_base l - al_base ?a + j)"
    using st assms b by (simp add: log_stored_def j_def al_last_def)
  moreover have "log_base l - al_base ?a + j = i - Suc (al_base ?a)" using st assms by (simp add: j_def)
  ultimately have "log_stored l ! j = al_ents ?a ! (i - Suc (al_base ?a))" by simp
  moreover have "j < length (log_stored l)"
    using log_stored_length [OF assms(1)] assms by (simp add: j_def)
  moreover have "i \<le> al_last (log_view l)" using log_last_view [OF assms(1)] assms by simp
  ultimately have "al_term (log_view l) i = al_term ?a i"
    using assms b by (simp add: al_term_def nth_append j_def)
  with ms_Term_view [OF log_structD(1) [OF assms(1)]] b
  show "ms_Term (l_storage l) i = Some (Inr (al_term (log_view l) i))" by simp
qed

lemma u_maybeTerm_entry:
  assumes "log_struct l" "u_offset (l_unstable l) \<le> i"
  shows "u_maybeTerm (l_unstable l) i =
    (if i \<le> al_last (log_view l) then Some (Some (al_term (log_view l) i)) else Some None)"
proof (cases "u_entries (l_unstable l) = []")
  case True
  with assms log_last_view [OF assms(1)] log_structD(4) [OF assms(1)] show ?thesis
    by (auto simp: u_maybeTerm_def u_maybeLastIndex_def log_base_def split: option.splits)
next
  case False
  let ?u = "l_unstable l"
  have d: "u_maybeTerm ?u i = (if al_last (log_view l) < i then Some None
      else do { e \<leftarrow> idx (u_entries ?u) (sub64 i (u_offset ?u)); Some (Some (ETerm e)) })"
    using assms u_maybeLastIndex_view [OF assms(1) False] by (simp add: u_maybeTerm_def)
  show ?thesis
  proof (cases "i \<le> al_last (log_view l)")
    case True
    have i: "i < u_offset ?u + length (u_entries ?u)" using True log_last_view [OF assms(1)] by simp
    have s: "sub64 i (u_offset ?u) = i - u_offset ?u"
      using i assms log_structD [OF assms(1)] by (simp add: u64_simps)
    have "(log_stored l @ u_entries ?u) ! (i - Suc (log_base l)) = u_entries ?u ! (i - u_offset ?u)"
      using assms log_structD [OF assms(1)] log_stored_length [OF assms(1)]
      by (simp add: nth_append)
    with True i s assms d log_structD [OF assms(1)] show ?thesis by (auto simp: al_term_def)
  qed (simp add: d)
qed

lemma l_term_view:
  assumes "log_wf l"
  shows "l_term l i = Some (Inr (al_term (log_view l) i))"
proof -
  have st: "log_struct l" using assms by simp
  note D = log_structD [OF st]
  have fi: "sub64 (log_base l + 1) 1 = log_base l" using D by (simp add: u64_simps)
  consider (out) "i < log_base l \<or> al_last (log_view l) < i" | (base) "i = log_base l"
    | (mid) "log_base l < i" "i < u_offset (l_unstable l)" "i \<le> al_last (log_view l)"
    | (un) "u_offset (l_unstable l) \<le> i" "i \<le> al_last (log_view l)"
    by linarith
  then show ?thesis
  proof cases
    case out
    then have "l_term l i = Some (Inr 0)"
      using l_firstIndex_view [OF st] l_lastIndex_view [OF assms] fi by (auto simp: l_term_def)
    with out show ?thesis by (auto simp: al_term_def)
  next
    case base
    have "i \<le> al_last (log_view l)" using base by (simp add: al_last_def)
    moreover have "ms_Term (l_storage l) i = Some (Inr (al_term (ms_view (l_storage l)) i))"
      if "u_snapshot (l_unstable l) = None"
      using ms_Term_view [OF D(1)] base that by (simp add: log_base_def al_last_def)
    ultimately show ?thesis
      using base l_firstIndex_view [OF st] l_lastIndex_view [OF assms] fi D
      by (auto simp: l_term_def u_maybeTerm_def al_term_def al_last_def log_base_def log_bterm_def
          split: option.splits)
  next
    case mid
    have "u_maybeTerm (l_unstable l) i = Some None"
      using mid by (auto simp: u_maybeTerm_def log_base_def split: option.splits)
    with mid log_stored_term [OF st mid(1,2)] l_firstIndex_view [OF st] l_lastIndex_view [OF assms] fi
    show ?thesis by (auto simp: l_term_def)
  next
    case un
    with u_maybeTerm_entry [OF st un(1)] l_firstIndex_view [OF st] l_lastIndex_view [OF assms] fi D
    show ?thesis by (auto simp: l_term_def)
  qed
qed

lemma log_stored_slice:
  assumes "log_struct l" "log_base l < lo" "lo < u_offset (l_unstable l)" "lo \<le> h"
    "h \<le> u_offset (l_unstable l)"
  shows "al_slice (ms_view (l_storage l)) lo h = take (h - lo) (drop (lo - Suc (log_base l)) (log_stored l))"
proof -
  let ?a = "ms_view (l_storage l)" and ?o = "u_offset (l_unstable l)"
  from assms obtain st: "al_base ?a \<le> log_base l" "?o \<le> Suc (al_last ?a)"
    by (cases rule: log_struct_cases) auto
  have "lo - Suc (log_base l) + (log_base l - al_base ?a) = lo - Suc (al_base ?a)"
    using st assms by simp
  moreover have "?o - Suc (log_base l) - (lo - Suc (log_base l)) = ?o - lo" using assms by simp
  ultimately show ?thesis
    using assms by (simp add: al_slice_def log_stored_def drop_take min_def)
qed

lemma l_slice_view:
  assumes "log_wf l" "log_base l < lo" "lo < hi" "hi \<le> al_last (log_view l) + 1"
  shows "l_slice l lo hi m = Some (Inr (limitSize (al_slice (log_view l) lo hi) m))"
proof -
  have st: "log_struct l" using assms by simp
  note D = log_structD [OF st]
  let ?u = "l_unstable l" and ?o = "u_offset (l_unstable l)" and ?a = "ms_view (l_storage l)"
  have last: "al_last (log_view l) + 1 = ?o + length (u_entries ?u)" by (rule log_last_view [OF st])
  have len: "length (log_stored l) = ?o - Suc (log_base l)" by (rule log_stored_length [OF st])
  have bl: "log_base l \<le> al_last (log_view l)" by (simp add: al_last_def)
  have "add64 (sub64 (al_last (log_view l)) (log_base l + 1)) 1 = al_last (log_view l) - log_base l"
    if "log_base l < al_last (log_view l)" using that last D(3) by (simp add: u64_simps)
  then have chk: "l_mustCheckOutOfBounds l lo hi = Some (Inr ())"
    using assms last D(3) bl l_firstIndex_view [OF st] l_lastIndex_view [OF assms(1)]
    by (simp add: l_mustCheckOutOfBounds_def u64_simps)
  define X where "X = take (min hi ?o - lo) (drop (lo - Suc (log_base l)) (log_stored l))"
  define Y where "Y = take (hi - max lo ?o) (drop (max lo ?o - ?o) (u_entries ?u))"
  have split: "al_slice (log_view l) lo hi = X @ Y"
  proof (cases "lo < ?o")
    case True
    have "hi - lo - (?o - lo) = hi - ?o" "lo - Suc (log_base l) - length (log_stored l) = 0"
      using True assms len by simp_all
    moreover have "length (drop (lo - Suc (log_base l)) (log_stored l)) = ?o - lo"
      using True assms len by simp
    ultimately show ?thesis
      using True by (simp add: al_slice_def X_def Y_def max_def min_def)
  next
    case False
    have "lo - Suc (log_base l) - length (log_stored l) = lo - ?o" using False D len by simp
    with False len assms show ?thesis by (simp add: al_slice_def X_def Y_def max_def)
  qed
  have Xlen: "length X = min hi ?o - lo" using assms len by (simp add: X_def)
  have us: "u_slice ?u (max lo ?o) hi = Some Y" if "?o < hi"
  proof -
    have "hi \<le> ?o + length (u_entries ?u)" using assms(4) last by simp
    with that D(3) have "add64 ?o (length (u_entries ?u)) = ?o + length (u_entries ?u)"
      "sub64 (max lo ?o) ?o = max lo ?o - ?o" "sub64 hi ?o = hi - ?o"
      using assms(3) by (simp_all add: u64_simps)
    with that assms(3) \<open>hi \<le> ?o + length (u_entries ?u)\<close> show ?thesis
      by (simp add: u_slice_def u_mustCheckOutOfBounds_def Y_def max_def split: if_splits)
  qed
  have Ynil: "Y = []" if "\<not> ?o < hi" using that by (simp add: Y_def)
  show ?thesis
  proof (cases "lo < ?o")
    case True
    have ms: "al_slice ?a lo (min hi ?o) = X"
      using log_stored_slice [OF st assms(2) True, of "min hi ?o"] True assms(3) by (simp add: X_def)
    have rng: "lo < min hi ?o" "al_base ?a < lo" "lo \<le> al_last ?a"
      using log_stored_term(2,3) [OF st assms(2) True] True assms(3) by auto
    from st True assms(2) have "?o \<le> Suc (al_last ?a)" by (cases rule: log_struct_cases) auto
    then have "min hi ?o \<le> al_last ?a + 1" by simp
    from ms_Entries_view [OF D(1) rng(2,1) this] ms
    have ent: "ms_Entries (l_storage l) lo (min hi ?o) m = Some (Inr (limitSize X m))" by simp
    have sub: "sub64 (min hi ?o) lo = length X"
      using Xlen True assms(3) D(3) by (simp add: u64_simps)
    show ?thesis
    proof (cases "length (limitSize X m) < length X")
      case cut: True
      then have "limitSize (X @ Y) m = limitSize X m" by (rule limitSize_append_cut)
      with cut True ent sub chk split assms(3) show ?thesis
        by (simp add: l_slice_def l_slice_stored_def)
    next
      case False
      then have full: "limitSize X m = X" by (simp add: limitSize_full)
      have "X \<noteq> []" using Xlen True assms(3) by auto
      with full True ent sub chk split assms(3) us Ynil show ?thesis
        by (auto simp: l_slice_def l_slice_stored_def)
    qed
  next
    case False
    then have "X = []" using Xlen by simp
    with False chk split us assms(3) show ?thesis
      by (simp add: l_slice_def l_slice_stored_def)
  qed
qed

lemma l_slice_compacted:
  "log_wf l \<Longrightarrow> lo \<le> log_base l \<Longrightarrow> lo \<le> hi \<Longrightarrow> l_slice l lo hi m = Some (Inl ErrCompacted)"
  by (simp add: l_slice_def l_mustCheckOutOfBounds_def l_firstIndex_view)

interpretation rl: log_store log_wf log_view l_firstIndex l_lastIndex l_term l_slice
  by unfold_locales
    (simp_all add: log_view_ok log_view_room l_firstIndex_view l_lastIndex_view l_term_view
      l_slice_view l_slice_compacted del: log_view_sel(3))

lemma l_matchTerm_view: "log_wf l \<Longrightarrow> l_matchTerm l i t = Some (al_term (log_view l) i = t)"
  by (simp add: l_matchTerm_def l_term_view)

lemma l_lastTerm_view:
  "log_wf l \<Longrightarrow> l_lastTerm l = Some (al_term (log_view l) (al_last (log_view l)))"
  by (simp add: l_lastTerm_def l_lastIndex_view l_term_view)

lemma l_isUpToDate_view:
  "log_wf l \<Longrightarrow> l_isUpToDate l lasti t =
     Some (t > al_term (log_view l) (al_last (log_view l)) \<or>
       t = al_term (log_view l) (al_last (log_view l)) \<and> lasti \<ge> al_last (log_view l))"
  by (simp add: l_isUpToDate_def l_lastTerm_view l_lastIndex_view)

lemma l_entries_view:
  assumes "log_wf l" "log_base l < i"
  shows "l_entries l i m = Some (Inr (limitSize (drop (i - Suc (log_base l)) (al_ents (log_view l))) m))"
proof (cases "al_last (log_view l) < i")
  case True
  then have "drop (i - Suc (log_base l)) (al_ents (log_view l)) = []"
    using assms by (simp add: al_last_def)
  with True assms show ?thesis by (simp add: l_entries_def l_lastIndex_view)
next
  case False
  have a: "add64 (al_last (log_view l)) 1 = al_last (log_view l) + 1"
    using rl.view_room [OF assms(1)] by (simp add: u64_simps)
  have "al_slice (log_view l) i (al_last (log_view l) + 1) =
      drop (i - Suc (log_base l)) (al_ents (log_view l))"
    using False assms by (simp add: al_slice_def al_last_def)
  with False assms a l_slice_view [of l i "al_last (log_view l) + 1" m] show ?thesis
    by (simp add: l_entries_def l_lastIndex_view)
qed

lemmas log_reads = l_firstIndex_view l_lastIndex_view l_term_view l_matchTerm_view
  l_lastTerm_view l_isUpToDate_view

section \<open>Appending\<close>

lemma u_truncateAndAppend_view:
  assumes "log_struct l" "es \<noteq> []" "contig k es" "log_base l < k" "k \<le> al_last (log_view l) + 1"
    "k + length es \<le> max_u64"
  shows "\<exists>u. u_truncateAndAppend es (l_unstable l) = Some u \<and>
    log_wf (l\<lparr>l_unstable := u\<rparr>) \<and> log_view (l\<lparr>l_unstable := u\<rparr>) = al_append (log_view l) es \<and>
    u_snapshot u = u_snapshot (l_unstable l)"
proof -
  note D = log_structD [OF assms(1)]
  let ?u = "l_unstable l" and ?o = "u_offset (l_unstable l)"
  let ?n = "length (u_entries ?u)"
  have last: "al_last (log_view l) + 1 = ?o + ?n" by (rule log_last_view [OF assms(1)])
  have len: "length (log_stored l) = ?o - Suc (log_base l)" by (rule log_stored_length [OF assms(1)])
  have h: "EIndex (es ! 0) = k" "EIndex (hd es) = k" using assms by (simp_all add: contig_hd contig_nth)
  have ar: "sub64 k 1 = k - 1" "sub64 (add64 ?o ?n) 1 = ?o + ?n - 1" "add64 (k - 1) 1 = k"
    using assms D by (simp_all add: u64_simps)
  have k1: "(k - 1 = ?o + ?n - 1) = (k = ?o + ?n)" "(k - 1 < ?o) = (k \<le> ?o)"
    using assms(4) D(4) by auto
  define u where "u = (if k = ?o + ?n then ?u\<lparr>u_entries := u_entries ?u @ es\<rparr>
    else if k \<le> ?o then ?u\<lparr>u_offset := k, u_entries := es\<rparr>
    else ?u\<lparr>u_entries := take (k - ?o) (u_entries ?u) @ es\<rparr>)"
  have sl: "u_slice ?u ?o k = Some (take (k - ?o) (u_entries ?u))" if "?o < k"
    using that assms(5) last D(3)
    by (simp add: u_slice_def u_mustCheckOutOfBounds_def u64_simps)
  have fn: "u_truncateAndAppend es ?u = Some u"
    using assms(2) h ar k1 sl by (auto simp: u_truncateAndAppend_def u_def Let_def)
  let ?l = "l\<lparr>l_unstable := u\<rparr>"
  have base: "log_base ?l = log_base l" "log_bterm ?l = log_bterm l"
    by (simp_all add: log_base_def log_bterm_def u_def split: option.split)
  have st: "log_stored ?l @ u_entries u = take (k - Suc (log_base l)) (log_stored l @ u_entries ?u) @ es"
  proof (cases "k \<le> ?o \<and> k \<noteq> ?o + ?n")
    case True
    then have "log_stored ?l = take (k - Suc (log_base l)) (log_stored l)"
      using base diff_le_mono [of k ?o "Suc (log_base l)"] by (simp add: log_stored_def u_def min_def)
    with True len D(4) show ?thesis by (simp add: u_def)
  next
    case False
    then have "log_stored ?l = log_stored l" using base by (auto simp: log_stored_def u_def)
    moreover have "k - Suc (log_base l) - length (log_stored l) = k - ?o" "?o \<le> k"
      using False len D(4) by auto
    ultimately show ?thesis using False len by (auto simp: u_def)
  qed
  then have view: "log_view ?l = al_append (log_view l) es"
    using base assms(2) h by (simp add: log_view_def al_append_def)
  consider "k = ?o + ?n" | "k \<noteq> ?o + ?n" "k \<le> ?o" | "?o < k" "k < ?o + ?n"
    using assms(5) last by linarith
  then have "contig (u_offset u) (u_entries u)"
    by cases (use D assms(3) in \<open>auto simp: u_def contig_take min_def\<close>)
  moreover have "u_offset u + length (u_entries u) \<le> max_u64"
    using D assms(5,6) last by (auto simp: u_def min_def)
  moreover have "log_base l < u_offset u" "u_offset u \<le> ?o" "u_snapshot u = u_snapshot ?u"
    using D assms(4) by (auto simp: u_def)
  ultimately have "log_struct ?l"
    using assms(1) base log_base_snap [of l] by (auto simp: log_struct_def Let_def)
  moreover have "u_entries u \<noteq> []" using assms(2) by (simp add: u_def)
  ultimately have "log_wf ?l" by (simp add: log_wf_def log_tight_def)
  with fn view \<open>u_snapshot u = u_snapshot ?u\<close> show ?thesis by blast
qed

lemma l_append_view:
  assumes "log_inv l" "es \<noteq> []" "contig k es" "l_committed l < k" "k \<le> al_last (log_view l) + 1"
    "k + length es \<le> max_u64"
  shows "\<exists>l'. l_append es l = Some (l', k + length es - 1) \<and> log_inv l' \<and>
    log_view l' = al_append (log_view l) es \<and> l_committed l' = l_committed l \<and>
    l_applied l' = l_applied l \<and> l_storage l' = l_storage l"
proof -
  have bk: "log_base l < k" using assms by (simp add: log_inv_def)
  have wf: "log_wf l" using assms by simp
  from u_truncateAndAppend_view [OF log_wf_struct [OF wf] assms(2,3) bk assms(5,6)] obtain u
    where u: "u_truncateAndAppend es (l_unstable l) = Some u" "log_wf (l\<lparr>l_unstable := u\<rparr>)"
      "log_view (l\<lparr>l_unstable := u\<rparr>) = al_append (log_view l) es"
      "u_snapshot u = u_snapshot (l_unstable l)" by blast
  let ?l = "l\<lparr>l_unstable := u\<rparr>"
  have ap: "al_last (al_append (log_view l) es) = k + length es - 1"
    using al_ok_append(2) [OF rl.view_ok [OF wf] assms(2,3)] bk assms(5) by simp
  have h: "EIndex (hd es) = k" using assms by (simp add: contig_hd)
  have s: "sub64 k 1 = k - 1" using assms by (simp add: u64_simps)
  have "l_append es l = Some (?l, k + length es - 1)"
    using assms(2,4) u h s l_lastIndex_view [OF u(2)] ap by (simp add: l_append_def)
  moreover have "log_inv ?l"
  proof -
    have "log_base ?l = log_base l" using u(4) by (simp add: log_base_def split: option.split)
    moreover have "l_committed l \<le> k + length es - 1" using assms(4) by linarith
    ultimately show ?thesis using assms(1) u(2,3) ap unfolding log_inv_def by simp
  qed
  ultimately show ?thesis using u(3) by simp
qed

lemma al_append_term:
  assumes "al_base a < k" "k \<le> al_last a + 1" "contig k es" "e \<in> set es"
  shows "al_term (al_append a es) (EIndex e) = ETerm e"
proof -
  from assms(4) obtain j where j: "j < length es" "es ! j = e" by (metis in_set_conv_nth)
  then have i: "EIndex e = k + j" using contig_nth [OF assms(3)] by auto
  have h: "es \<noteq> []" using assms(4) by auto
  then have hd: "EIndex (hd es) = k" by (rule contig_hd [OF assms(3)])
  have l: "length (take (k - Suc (al_base a)) (al_ents a)) = k - Suc (al_base a)"
    using assms by (simp add: al_last_def)
  have "al_last (al_append a es) = k + length es - 1"
    using assms(1) h hd l by (simp add: al_append_def al_last_def)
  then have "\<not> al_last (al_append a es) < EIndex e" using j(1) i by simp
  moreover have "al_base (al_append a es) = al_base a" by (simp add: al_append_def)
  ultimately have "al_term (al_append a es) (EIndex e) =
      ETerm (al_ents (al_append a es) ! (EIndex e - Suc (al_base a)))"
    using i assms(1) by (simp add: al_term_def)
  moreover have "EIndex e - Suc (al_base a) = (k - Suc (al_base a)) + j" using i assms(1) by simp
  ultimately show ?thesis
    using h hd l j by (simp add: al_append_def nth_append)
qed

section \<open>Conflicts and maybeAppend\<close>

abbreviation entry_matches :: "alog \<Rightarrow> Entry \<Rightarrow> bool" where
  "entry_matches a e \<equiv> al_term a (EIndex e) = ETerm e"

lemma l_findConflict_view:
  "log_wf l \<Longrightarrow> l_findConflict l es =
     Some (case dropWhile (entry_matches (log_view l)) es of [] \<Rightarrow> 0 | e # _ \<Rightarrow> EIndex e)"
  by (induction es) (simp_all add: l_matchTerm_view)

lemma log_frame:
  assumes "l_storage l' = l_storage l" "l_unstable l' = l_unstable l"
  shows "log_view l' = log_view l" "log_base l' = log_base l" "log_wf l' = log_wf l"
  unfolding log_view_def log_base_def log_bterm_def log_stored_def log_wf_def log_struct_def
    log_tight_def assms by (rule refl)+

lemma log_view_commit [simp]:
  "log_view (l\<lparr>l_committed := c\<rparr>) = log_view l" "log_base (l\<lparr>l_committed := c\<rparr>) = log_base l"
  "log_wf (l\<lparr>l_committed := c\<rparr>) = log_wf l"
  "log_view (l\<lparr>l_applied := c\<rparr>) = log_view l" "log_base (l\<lparr>l_applied := c\<rparr>) = log_base l"
  "log_wf (l\<lparr>l_applied := c\<rparr>) = log_wf l"
  by (rule log_frame; simp)+

lemma l_commitTo_view:
  assumes "log_inv l" "c \<le> al_last (log_view l)"
  shows "\<exists>l'. l_commitTo c l = Some l' \<and> log_inv l' \<and> log_view l' = log_view l \<and>
    l_committed l' = max (l_committed l) c \<and> l_applied l' = l_applied l \<and>
    l_storage l' = l_storage l \<and> l_unstable l' = l_unstable l"
proof -
  let ?l = "if l_committed l < c then l\<lparr>l_committed := c\<rparr> else l"
  have "l_commitTo c l = Some ?l"
    using assms by (simp add: l_commitTo_def l_lastIndex_view)
  moreover have "log_view ?l = log_view l" "log_base ?l = log_base l" "log_wf ?l = log_wf l"
    by simp_all
  ultimately show ?thesis
    using assms by (intro exI [of _ ?l]) (auto simp: log_inv_def)
qed

lemma al_term_pos_last: "0 < al_term a i \<Longrightarrow> i \<le> al_last a"
  by (auto simp: al_term_def split: if_splits)

text \<open>
  The matching prefix of the new entries lies inside the log, so the first conflict is at
  most one past its end.
\<close>

lemma conflict_position:
  assumes "contig (Suc i) es" "i \<le> al_last a" "\<forall>e \<in> set es. 0 < ETerm e"
    and "dropWhile (entry_matches a) es = r # rs"
  defines "ms \<equiv> takeWhile (entry_matches a) es"
  shows "es = ms @ r # rs" "EIndex r = Suc (i + length ms)" "contig (EIndex r) (r # rs)"
    "EIndex r \<le> al_last a + 1" "\<not> entry_matches a r"
proof -
  show es: "es = ms @ r # rs" using assms(4) takeWhile_dropWhile_id [of "entry_matches a" es]
    by (simp add: ms_def)
  then have c: "contig (Suc i) ms" "contig (Suc (i + length ms)) (r # rs)" using assms(1) by auto
  then show r: "EIndex r = Suc (i + length ms)" by simp
  with c show "contig (EIndex r) (r # rs)" by simp
  show "\<not> entry_matches a r" using hd_dropWhile [of "entry_matches a" es] assms(4) by simp
  show "EIndex r \<le> al_last a + 1"
  proof (cases "ms = []")
    case False
    have "entry_matches a (last ms)"
      using set_takeWhileD [of "last ms" "entry_matches a" es] last_in_set [OF False]
      by (simp add: ms_def)
    moreover have "0 < ETerm (last ms)" using assms(3) es last_in_set [OF False] by auto
    ultimately have "EIndex (last ms) \<le> al_last a" by (metis al_term_pos_last)
    with contig_last [OF c(1) False] r show ?thesis by simp
  qed (use assms(2) r in simp)
qed

text \<open>The log after a successful \<^verbatim>\<open>maybeAppend\<close>.\<close>

definition al_merge :: "alog \<Rightarrow> Entry list \<Rightarrow> alog" where
  "al_merge a es = al_append a (dropWhile (entry_matches a) es)"

lemma al_merge_agree:
  assumes "al_ok a" "contig (Suc i) es" "al_base a \<le> i" "i \<le> al_last a" "\<forall>e \<in> set es. 0 < ETerm e"
    and nc: "\<forall>e \<in> set es. EIndex e \<le> c \<longrightarrow> entry_matches a e"
  shows "al_agree a (al_merge a es) (max i c)"
proof (cases "dropWhile (entry_matches a) es")
  case (Cons r rs)
  note cp = conflict_position [OF assms(2,4,5) Cons]
  have "c < EIndex r" using nc cp(1,5) by (metis in_set_conv_decomp leI)
  moreover have "i < EIndex r" using cp(2) by simp
  moreover have "al_agree a (al_merge a es) (EIndex r - 1)"
    unfolding al_merge_def Cons using al_ok_append(3) [OF assms(1) _ cp(3)] cp(2,4) assms(3) by simp
  ultimately show ?thesis by (elim al_agree_mono) linarith
qed (simp add: al_merge_def al_append_def)

lemma al_merge_holds:
  assumes "al_ok a" "contig (Suc i) es" "al_base a \<le> i" "i \<le> al_last a" "\<forall>e \<in> set es. 0 < ETerm e"
    and e: "e \<in> set es"
  shows "al_term (al_merge a es) (EIndex e) = ETerm e"
proof (cases "dropWhile (entry_matches a) es")
  case Nil
  then show ?thesis using e by (simp add: al_merge_def al_append_def dropWhile_eq_Nil_conv)
next
  case (Cons r rs)
  note cp = conflict_position [OF assms(2,4,5) Cons]
  let ?ms = "takeWhile (entry_matches a) es"
  have k: "al_base a < EIndex r" using cp(2) assms(3) by simp
  note ap = al_ok_append [OF assms(1) _ cp(3) k]
  show ?thesis
  proof (cases "e \<in> set (r # rs)")
    case True
    with al_append_term [OF k cp(4) cp(3)] show ?thesis by (simp add: al_merge_def Cons)
  next
    case False
    with e cp(1) have ms: "e \<in> set ?ms" by (metis Un_iff set_append)
    then have m: "entry_matches a e" by (auto dest: set_takeWhileD)
    have "contig (Suc i) ?ms" using assms(2) by (subst (asm) cp(1)) simp
    from contig_index_bound [OF this ms] cp(2) have lt: "EIndex e < EIndex r" by simp
    have "al_term a (EIndex e) = al_term (al_append a (r # rs)) (EIndex e)"
      by (rule al_term_agree [of _ _ "EIndex r - 1"]) (use ap cp(4) lt in auto)
    with m show ?thesis by (simp add: al_merge_def Cons)
  qed
qed

lemma l_maybeAppend_view:
  assumes inv: "log_inv l" and i: "log_base l \<le> i" "i \<le> al_last (log_view l)"
    and m: "al_term (log_view l) i = t" and c: "contig (Suc i) es" "i + length es < max_u64"
    and pos: "\<forall>e \<in> set es. 0 < ETerm e"
    and nc: "\<forall>e \<in> set es. EIndex e \<le> l_committed l \<longrightarrow> entry_matches (log_view l) e"
  shows "\<exists>l'. l_maybeAppend i t cm es l = Some (l', Some (i + length es)) \<and> log_inv l' \<and>
    log_view l' = al_merge (log_view l) es \<and>
    l_committed l' = max (l_committed l) (min cm (i + length es)) \<and>
    l_applied l' = l_applied l \<and> l_storage l' = l_storage l"
proof -
  let ?a = "log_view l"
  have wf: "log_wf l" using inv by simp
  have lastnewi: "add64 i (length es) = i + length es" "add64 i 1 = i + 1"
    using c(2) by (simp_all add: u64_simps)
  have mt: "l_matchTerm l i t = Some True" using m by (simp add: l_matchTerm_view [OF wf])
  show ?thesis
  proof (cases "dropWhile (entry_matches ?a) es")
    case Nil
    have fc: "l_findConflict l es = Some 0" unfolding l_findConflict_view [OF wf] Nil by simp
    have "i + length es \<le> al_last ?a"
    proof (cases "es = []")
      case False
      have "entry_matches ?a (last es)" using Nil False by (simp add: dropWhile_eq_Nil_conv)
      with pos False have "EIndex (last es) \<le> al_last ?a" by (metis al_term_pos_last last_in_set)
      with contig_last [OF c(1) False] show ?thesis by simp
    qed (use i in simp)
    then have "min cm (i + length es) \<le> al_last ?a" by simp
    from l_commitTo_view [OF inv this] fc mt lastnewi Nil show ?thesis
      by (auto simp: l_maybeAppend_def al_merge_def al_append_def)
  next
    case (Cons r rs)
    note cp = conflict_position [OF c(1) i(2) pos Cons]
    define ms where "ms = takeWhile (entry_matches ?a) es"
    have fc: "l_findConflict l es = Some (EIndex r)"
      unfolding l_findConflict_view [OF wf] Cons by simp
    have nr: "l_committed l < EIndex r" using nc cp(1,5) by (metis in_set_conv_decomp leI)
    have tot: "EIndex r + length (r # rs) = Suc (i + length es)"
      using arg_cong [OF cp(1), of length] cp(2) by simp
    from l_append_view [OF inv _ cp(3) nr cp(4)] tot c(2) obtain l1
      where l1: "l_append (r # rs) l = Some (l1, i + length es)" "log_inv l1"
        "log_view l1 = al_append ?a (r # rs)" "l_committed l1 = l_committed l"
        "l_applied l1 = l_applied l" "l_storage l1 = l_storage l" by auto
    have "al_last (log_view l1) = i + length es"
      using l1(3) tot al_ok_append(2) [OF rl.view_ok [OF wf] _ cp(3) _ ] cp(4) nr inv
      by (simp add: log_inv_def)
    then have "min cm (i + length es) \<le> al_last (log_view l1)" by simp
    from l_commitTo_view [OF l1(2) this] obtain l2
      where l2: "l_commitTo (min cm (i + length es)) l1 = Some l2" "log_inv l2"
        "log_view l2 = log_view l1" "l_committed l2 = max (l_committed l1) (min cm (i + length es))"
        "l_applied l2 = l_applied l1" "l_storage l2 = l_storage l1" by blast
    have "sub64 (EIndex r) (i + 1) = length ms"
      using cp(2) tot c(2) by (simp add: u64_simps ms_def)
    moreover have "drop (length ms) es = r # rs" "length ms \<le> length es"
      using cp(1) ms_def by (metis append_eq_conv_conj) (simp add: ms_def length_takeWhile_le)
    moreover have "subslice es (length ms) (length es) = Some (drop (length ms) es)"
      using \<open>length ms \<le> length es\<close> by simp
    ultimately have "subslice es (sub64 (EIndex r) (add64 i 1)) (length es) = Some (r # rs)"
      using lastnewi by simp
    moreover have "EIndex r \<noteq> 0" "\<not> EIndex r \<le> l_committed l" using cp(2) nr by simp_all
    ultimately have "l_maybeAppend i t cm es l = Some (l2, Some (i + length es))"
      using mt fc lastnewi l1(1) l2(1) by (simp add: l_maybeAppend_def)
    with l1 l2 Cons show ?thesis by (auto simp: al_merge_def)
  qed
qed

section \<open>Start, restore, hand over to the application\<close>

lemma newLog_view:
  assumes "ms_inv ms"
  shows "\<exists>l. newLog ms = Some l \<and> log_inv l \<and> log_view l = ms_view ms \<and>
    l_committed l = al_base (ms_view ms) \<and> l_applied l = al_base (ms_view ms) \<and> l_storage l = ms"
proof -
  let ?a = "ms_view ms"
  let ?l = "\<lparr>l_storage = ms,
       l_unstable = \<lparr>u_snapshot = None, u_entries = [], u_offset = al_last ?a + 1\<rparr>,
       l_committed = al_base ?a, l_applied = al_base ?a\<rparr>"
  have r: "al_last ?a < max_u64" "al_base ?a \<le> al_last ?a"
    using ms_inv_room [OF assms] by (simp_all add: al_last_def)
  then have "newLog ms = Some ?l"
    using assms by (simp add: newLog_def ms_views u64_simps)
  moreover have base: "log_base ?l = al_base ?a" by (simp add: log_base_def)
  moreover have "log_view ?l = ?a"
    using base by (simp add: log_view_def log_bterm_def log_stored_def al_last_def)
  moreover have "log_wf ?l"
    using assms r base by (simp add: log_wf_def log_struct_def log_tight_def)
  ultimately show ?thesis using r by (auto simp: log_inv_def)
qed

lemma l_restore_view:
  assumes "log_wf l" "snap_index s < max_u64" "l_applied l \<le> snap_index s"
  shows "log_inv (l_restore s l)"
    "log_view (l_restore s l) = \<lparr>al_base = snap_index s, al_bterm = snap_term s, al_ents = []\<rparr>"
    "l_committed (l_restore s l) = snap_index s"
proof -
  let ?l = "l_restore s l"
  have a: "add64 (snap_index s) 1 = Suc (snap_index s)" using assms by (simp add: u64_simps)
  have u: "u_offset (l_unstable ?l) = Suc (snap_index s)" "u_entries (l_unstable ?l) = []"
    "u_snapshot (l_unstable ?l) = Some s" "l_storage ?l = l_storage l"
    "l_committed ?l = snap_index s" "l_applied ?l = l_applied l"
    using a by (simp_all add: l_restore_def u_restore_def)
  then have b: "log_base ?l = snap_index s" by (simp add: log_base_snap)
  have v: "log_view ?l = \<lparr>al_base = snap_index s, al_bterm = snap_term s, al_ents = []\<rparr>"
    using u b by (simp add: log_view_def log_bterm_def log_stored_def)
  then show "log_view ?l = \<lparr>al_base = snap_index s, al_bterm = snap_term s, al_ents = []\<rparr>" .
  have "log_wf ?l"
    using u b assms log_structD(1) [OF log_wf_struct [OF assms(1)]]
    by (simp add: log_wf_def log_struct_def log_tight_def)
  with u b v assms show "log_inv ?l" by (simp add: log_inv_def al_last_def)
  show "l_committed ?l = snap_index s" by (rule u)
qed

lemma limit_rest_noLimit:
  "sz + total_size es \<le> m \<Longrightarrow> limit_rest sz m es = es"
  by (induction es arbitrary: sz) (auto simp: total_size_def)

lemma limitSize_noLimit: "total_size es \<le> m \<Longrightarrow> limitSize es m = es"
  by (cases es) (auto simp: limit_rest_noLimit total_size_def)

lemma l_nextEnts_view:
  assumes "log_inv l" "total_size (al_ents (log_view l)) \<le> noLimit"
  shows "l_nextEnts l = Some (al_slice (log_view l) (Suc (max (l_applied l) (log_base l))) (Suc (l_committed l)))"
    and "l_hasNextEnts l = Some (max (l_applied l) (log_base l) < l_committed l)"
proof -
  let ?a = "log_view l" and ?lo = "Suc (max (l_applied l) (log_base l))" and ?hi = "Suc (l_committed l)"
  have wf: "log_wf l" and b: "log_base l \<le> l_committed l" "l_committed l \<le> al_last ?a"
    "l_applied l \<le> l_committed l"
    using assms by (simp_all add: log_inv_def)
  have ar: "add64 (l_applied l) 1 = Suc (l_applied l)" "add64 (l_committed l) 1 = ?hi"
    using b rl.view_room [OF wf] by (simp_all add: u64_simps)
  have off: "max (Suc (l_applied l)) (Suc (log_base l)) = ?lo" by simp
  show "l_hasNextEnts l = Some (max (l_applied l) (log_base l) < l_committed l)"
    using wf ar off by (simp add: l_hasNextEnts_def l_firstIndex_view)
  have sz: "total_size (al_slice ?a ?lo ?hi) \<le> noLimit"
  proof -
    have *: "total_size (take m (drop n es)) \<le> total_size es" for m n es
    proof -
      have "total_size es = total_size (take n es) + (total_size (take m (drop n es)) +
          total_size (drop m (drop n es)))"
        unfolding total_size_def
        by (metis append_take_drop_id map_append sum_list_append)
      then show ?thesis by simp
    qed
    show ?thesis using * assms(2) unfolding al_slice_def by (rule order.trans)
  qed
  show "l_nextEnts l = Some (al_slice ?a ?lo ?hi)"
  proof (cases "?lo < ?hi")
    case True
    have "l_slice l ?lo ?hi noLimit = Some (Inr (limitSize (al_slice ?a ?lo ?hi) noLimit))"
      by (rule l_slice_view [OF wf]) (use True b in auto)
    with True wf sz ar off show ?thesis
      by (simp add: l_nextEnts_def l_firstIndex_view limitSize_noLimit del: max_Suc_Suc)
  next
    case False
    then have "?hi - ?lo = 0" by linarith
    then have "al_slice ?a ?lo ?hi = []" unfolding al_slice_def by (metis take0)
    with False wf ar off show ?thesis
      by (auto simp: l_nextEnts_def l_firstIndex_view simp del: max_Suc_Suc)
  qed
qed

lemma l_allEntries_view:
  assumes "log_wf l" "total_size (al_ents (log_view l)) \<le> noLimit"
  shows "l_allEntries l = Some (al_ents (log_view l))"
  using assms l_entries_view [OF assms(1), of "Suc (log_base l)" noLimit]
  by (subst l_allEntries.simps) (simp add: l_firstIndex_view limitSize_noLimit)

lemma l_appliedTo_view:
  assumes "log_inv l" "l_appliedTo i l = Some l'"
  shows "log_inv l'" "log_view l' = log_view l" "l_committed l' = l_committed l"
    "l_applied l \<le> l_applied l'"
  using assms by (auto simp: l_appliedTo_def log_inv_def split: if_splits)

section \<open>Persisting\<close>

text \<open>
  The application writes a pending snapshot and a prefix of the unstable entries to the
  storage and then reports them stable.  The content of the log does not change.
\<close>

definition persisted :: "raftLog \<Rightarrow> Entry list \<Rightarrow> MemoryStorage option" where
  "persisted l es =
     ms_Append es (case u_snapshot (l_unstable l) of
                     None \<Rightarrow> l_storage l
                   | Some s \<Rightarrow> ms_ApplySnapshot s (l_storage l))"

lemma persisted_view:
  assumes "log_struct l" "u_entries (l_unstable l) = es @ rest"
    and "\<And>s. u_snapshot (l_unstable l) = Some s \<Longrightarrow> u_offset (l_unstable l) = Suc (snap_index s)"
  shows "\<exists>st. persisted l es = Some st \<and> ms_inv st \<and>
    ms_view st = \<lparr>al_base = log_base l, al_bterm = log_bterm l,
      al_ents = (if es = [] \<and> u_snapshot (l_unstable l) = None then al_ents (ms_view (l_storage l))
                 else log_stored l @ es)\<rparr>"
proof -
  note D = log_structD [OF assms(1)]
  let ?o = "u_offset (l_unstable l)"
  define st0 where "st0 = (case u_snapshot (l_unstable l) of
      None \<Rightarrow> l_storage l | Some s \<Rightarrow> ms_ApplySnapshot s (l_storage l))"
  have "ms_inv st0 \<and> al_base (ms_view st0) = log_base l \<and> al_bterm (ms_view st0) = log_bterm l \<and>
    take (?o - Suc (log_base l)) (al_ents (ms_view st0)) = log_stored l \<and>
    ?o \<le> Suc (al_last (ms_view st0)) \<and>
    (u_snapshot (l_unstable l) = None \<longrightarrow> st0 = l_storage l) \<and>
    (u_snapshot (l_unstable l) \<noteq> None \<longrightarrow> al_ents (ms_view st0) = log_stored l)"
  proof (cases "u_snapshot (l_unstable l)")
    case None
    then have "?o \<le> Suc (al_last (ms_view (l_storage l)))"
      using assms(1) by (simp add: log_struct_def Let_def)
    with None D(1) show ?thesis by (simp add: st0_def log_base_def log_bterm_def log_stored_def)
  next
    case (Some s)
    have "snap_index s < max_u64" using assms(3) [OF Some] D(3) by simp
    note v = ms_ApplySnapshot_view [OF this, of "l_storage l"]
    with Some assms(3) [OF Some] log_base_snap [OF Some] show ?thesis
      by (simp add: st0_def log_bterm_def log_stored_def al_last_def)
  qed
  then have st0: "ms_inv st0" "al_base (ms_view st0) = log_base l" "al_bterm (ms_view st0) = log_bterm l"
    "take (?o - Suc (log_base l)) (al_ents (ms_view st0)) = log_stored l"
    "?o \<le> Suc (al_last (ms_view st0))"
    "u_snapshot (l_unstable l) = None \<Longrightarrow> st0 = l_storage l"
    "u_snapshot (l_unstable l) \<noteq> None \<Longrightarrow> al_ents (ms_view st0) = log_stored l" by blast+
  show ?thesis
  proof (cases "es = []")
    case True
    then have "persisted l es = Some st0" by (simp add: persisted_def ms_Append_def st0_def)
    with True st0 show ?thesis by (cases "u_snapshot (l_unstable l)") auto
  next
    case False
    have c: "contig ?o es" using D assms(2) by simp
    have len: "?o + length es < two64" using D(3) assms(2) by simp
    have r: "al_base (ms_view st0) < ?o" "?o \<le> al_last (ms_view st0) + 1" using st0(2,5) D(4) by simp_all
    from ms_Append_view [OF st0(1) False c r len] obtain st
      where st: "ms_Append es st0 = Some st" "ms_inv st" "ms_view st = al_append (ms_view st0) es" by blast
    have "ms_view st = \<lparr>al_base = log_base l, al_bterm = log_bterm l, al_ents = log_stored l @ es\<rparr>"
      using st(3) False st0(2,3,4) contig_hd [OF c False] by (simp add: al_append_def)
    with st False show ?thesis by (auto simp: persisted_def st0_def)
  qed
qed

definition stabilise :: "Entry list \<Rightarrow> Snapshot option \<Rightarrow> raftLog \<Rightarrow> raftLog option" where
  "stabilise es snap l = do {
     l \<leftarrow> (if es = [] then Some l else l_stableTo (EIndex (last es)) (ETerm (last es)) l);
     Some (case snap of None \<Rightarrow> l | Some s \<Rightarrow> l_stableSnapTo (snap_index s) l)
   }"

lemma u_stableTo_prefix:
  assumes "log_struct l" "u_entries (l_unstable l) = es @ rest" "es \<noteq> []"
  shows "u_stableTo (EIndex (last es)) (ETerm (last es)) (l_unstable l) =
    Some ((l_unstable l)\<lparr>u_entries := rest, u_offset := u_offset (l_unstable l) + length es\<rparr>)"
proof -
  note D = log_structD [OF assms(1)]
  let ?o = "u_offset (l_unstable l)" and ?i = "EIndex (last es)"
  have c: "contig ?o es" using D assms(2) by simp
  have pos: "0 < length es" using assms(3) by simp
  have i: "?i = ?o + length es - 1" by (rule contig_last [OF c assms(3)])
  have il: "?o \<le> ?i" "?i \<le> al_last (log_view l)"
    using i pos log_last_view [OF assms(1), unfolded assms(2) length_append] by linarith+
  have "al_ents (log_view l) ! (?i - Suc (log_base l)) = last es"
  proof -
    have "?i - Suc (log_base l) = length (log_stored l) + (length es - 1)"
      using i pos log_stored_length [OF assms(1)] D(4) by linarith
    then have "al_ents (log_view l) ! (?i - Suc (log_base l)) = (es @ rest) ! (length es - 1)"
      by (simp only: log_view_sel assms(2) nth_append_length_plus)
    then show ?thesis using assms(3) by (simp add: nth_append last_conv_nth)
  qed
  then have t: "al_term (log_view l) ?i = ETerm (last es)"
    using il D(4) by (auto simp: al_term_def)
  have a: "add64 ?i 1 = ?o + length es" using i pos D(3) assms(2) by (simp add: u64_simps)
  have "sub64 (?o + length es) ?o = length es" using D(3) assms(2) by (simp add: u64_simps)
  with a t u_maybeTerm_entry [OF assms(1) il(1)] il assms(2) show ?thesis
    by (simp add: u_stableTo_def)
qed

lemma stabilise_view:
  assumes inv: "log_inv l" and ents: "u_entries (l_unstable l) = es @ rest"
    and off: "\<And>s. u_snapshot (l_unstable l) = Some s \<Longrightarrow> u_offset (l_unstable l) = Suc (snap_index s)"
    and st: "persisted l es = Some st"
  shows "\<exists>l'. stabilise es (u_snapshot (l_unstable l)) (l\<lparr>l_storage := st\<rparr>) = Some l' \<and>
    log_inv l' \<and> log_view l' = log_view l \<and> l_committed l' = l_committed l \<and>
    l_applied l' = l_applied l \<and> l_storage l' = st \<and>
    l_unstable l' = \<lparr>u_snapshot = None, u_entries = rest,
      u_offset = u_offset (l_unstable l) + length es\<rparr>"
proof -
  have wf: "log_wf l" and str: "log_struct l" using inv by simp_all
  note D = log_structD [OF str]
  let ?u = "l_unstable l" and ?o = "u_offset (l_unstable l)"
  let ?u' = "\<lparr>u_snapshot = None, u_entries = rest, u_offset = ?o + length es\<rparr>"
  let ?l = "l\<lparr>l_storage := st, l_unstable := ?u'\<rparr>"
  from persisted_view [OF str ents off] st
  have stv: "ms_inv st" "al_base (ms_view st) = log_base l" "al_bterm (ms_view st) = log_bterm l"
    "al_ents (ms_view st) = (if es = [] \<and> u_snapshot ?u = None
       then al_ents (ms_view (l_storage l)) else log_stored l @ es)" by auto
  have len: "length (log_stored l) = ?o - Suc (log_base l)" by (rule log_stored_length [OF str])
  have base: "log_base ?l = log_base l" "log_bterm ?l = log_bterm l"
    using stv by (simp_all add: log_base_def log_bterm_def)
  have tk: "take (?o + length es - Suc (log_base l)) (al_ents (ms_view st)) = log_stored l @ es"
  proof (cases "es = [] \<and> u_snapshot ?u = None")
    case True
    with stv(2,4) show ?thesis by (simp add: log_stored_def log_base_def)
  next
    case False
    have "?o + length es - Suc (log_base l) = length (log_stored l @ es)" using len D(4) by simp
    moreover have "al_ents (ms_view st) = log_stored l @ es" using False stv(4) by meson
    ultimately show ?thesis by simp
  qed
  have view: "log_view ?l = log_view l"
    using base stv(2) tk ents by (simp add: log_view_def log_stored_def)
  have le: "?o + length es \<le> Suc (al_last (ms_view st))"
    using arg_cong [OF tk, of length] len stv(2) D(4) by (simp add: al_last_def)
  have c: "contig (?o + length es) rest" "?o + length es + length rest \<le> max_u64"
    using D(2,3) ents by simp_all
  have struct: "log_struct ?l"
    using stv(1,2) base c le D(4) by (auto simp: log_struct_def Let_def)
  have tight: "log_tight ?l"
  proof -
    have "?o + length es = Suc (al_last (ms_view st))" if "rest = []"
    proof (cases "es = [] \<and> u_snapshot ?u = None")
      case True
      with that wf ents stv show ?thesis
        by (auto simp: log_wf_def log_tight_def al_last_def log_base_def)
    next
      case False
      with stv len D(4) show ?thesis by (auto simp: al_last_def)
    qed
    then show ?thesis by (simp add: log_tight_def)
  qed
  have "log_inv ?l"
    using struct tight inv base view by (simp add: log_inv_def log_wf_def)
  moreover have "stabilise es (u_snapshot ?u) (l\<lparr>l_storage := st\<rparr>) = Some ?l"
    using u_stableTo_prefix [OF str ents] ents
    by (auto simp: stabilise_def l_stableTo_def l_stableSnapTo_def u_stableSnapTo_def
        split: option.splits)
  ultimately show ?thesis using view by auto
qed

end
