(* ===== verification/Raft_Log_Props.thy ===== *)
theory Raft_Log_Props
  imports Raft_Log_View
begin

text \<open>
  The properties of the storage, the unstable part and the raft log, each with a concrete log
  at which it applies.
\<close>

section \<open>Logs for the witnesses\<close>

definition ent :: "u64 \<Rightarrow> u64 \<Rightarrow> Entry" where
  "ent i t = \<lparr>EType = EntryNormal, ETerm = t, EIndex = i, EData = None\<rparr>"

definition store3 :: MemoryStorage where
  "store3 = NewMemoryStorage\<lparr>ms_ents := [zero_entry, ent 1 1, ent 2 1, ent 3 2]\<rparr>"

text \<open>Two stored entries, one stored entry that the unstable part replaces, two unstable ones.\<close>

definition log4 :: raftLog where
  "log4 = \<lparr>l_storage = store3,
     l_unstable = \<lparr>u_snapshot = None, u_entries = [ent 3 3, ent 4 3], u_offset = 3\<rparr>,
     l_committed = 2, l_applied = 1\<rparr>"

lemmas sample_defs = ent_def store3_def log4_def NewMemoryStorage_def zero_entry_def

lemma store3_view: "ms_view store3 = \<lparr>al_base = 0, al_bterm = 0, al_ents = [ent 1 1, ent 2 1, ent 3 2]\<rparr>"
  by (simp add: sample_defs ms_view_def)

lemma store3_inv: "ms_inv store3"
  by (simp add: ms_inv_def store3_view al_ok_def al_last_def ent_def) (simp add: store3_def)

lemma log4_view: "log_view log4 = \<lparr>al_base = 0, al_bterm = 0, al_ents = [ent 1 1, ent 2 1, ent 3 3, ent 4 3]\<rparr>"
  by (simp add: log_view_def log_base_def log_bterm_def log_stored_def log4_def store3_view)

lemma log4_inv: "log_inv log4" "log_wf log4"
  using store3_inv
  by (simp_all add: log_inv_def log_wf_def log_struct_def log_tight_def log4_view al_last_def)
    (simp_all add: log4_def log_base_def store3_view ent_def Let_def al_last_def)

lemma log4_sel: "log_base log4 = 0" "l_committed log4 = 2" "l_applied log4 = 1"
  by (simp_all add: log4_def log_base_def store3_view)

section \<open>The storage\<close>

text \<open>C24. Appending a run of entries to the memory storage, starting after the dummy entry and
  at most one past the last entry, succeeds and is the append of the abstract log: the stored
  entries before the run stay, those from its first index on are replaced by it.  The
  invariant of the storage is kept and the snapshot does not change.\<close>

theorem ms_Append_refines:
  assumes "ms_inv ms" "es \<noteq> []" "contig k es" "al_base (ms_view ms) < k"
    "k \<le> al_last (ms_view ms) + 1" "k + length es < two64"
  shows "\<exists>ms'. ms_Append es ms = Some ms' \<and> ms_inv ms' \<and> ms_snapshot ms' = ms_snapshot ms \<and>
    ms_view ms' = al_append (ms_view ms) es \<and> al_agree (ms_view ms) (ms_view ms') (k - 1) \<and>
    al_last (ms_view ms') = k + length es - 1"
  using ms_Append_view [OF assms] al_ok_append [OF ms_inv_ok [OF assms(1)] assms(2-4)] assms(5) by auto

theorem ms_Append_refines_witness:
  "\<exists>ms'. ms_Append [ent 3 4, ent 4 4] store3 = Some ms' \<and> ms_inv ms' \<and>
     ms_view ms' = \<lparr>al_base = 0, al_bterm = 0, al_ents = [ent 1 1, ent 2 1, ent 3 4, ent 4 4]\<rparr>"
  using ms_Append_refines [of store3 "[ent 3 4, ent 4 4]" 3] store3_inv
  by (auto simp: store3_view al_last_def al_append_def ent_def)

text \<open>C33. Compacting the storage at an index between the dummy entry and the last entry succeeds;
  the entry at the index becomes the dummy entry, and every later index keeps its term, so
  the log past the compaction index is what it was.\<close>

theorem ms_Compact_keeps:
  assumes "ms_inv ms" "al_base (ms_view ms) < i" "i \<le> al_last (ms_view ms)"
  shows "\<exists>ms'. ms_Compact i ms = Some (Inr (), ms') \<and> ms_inv ms' \<and> ms_firstIndex ms' = Some (i + 1) \<and>
    ms_lastIndex ms' = ms_lastIndex ms \<and> (\<forall>j. i \<le> j \<and> j \<le> al_last (ms_view ms) \<longrightarrow> ms_Term ms' j = ms_Term ms j)"
proof -
  from ms_Compact_view [OF assms] obtain ms' where
    m: "ms_Compact i ms = Some (Inr (), ms')" "ms_inv ms'" "ms_view ms' = al_compact (ms_view ms) i" by blast
  have l: "al_last (ms_view ms') = al_last (ms_view ms)" "al_base (ms_view ms') = i"
    using assms m(3) by (auto simp: al_compact_def al_last_def)
  have t: "al_term (ms_view ms') j = al_term (ms_view ms) j" if "i \<le> j" for j
    using al_compact_term [OF assms(2,3) that] by (simp add: m(3))
  have "ms_Term ms' j = ms_Term ms j" if "i \<le> j" "j \<le> al_last (ms_view ms)" for j
    using that assms(2) by (simp add: ms_Term_view m(2) assms(1) l t)
  then show ?thesis
    using m l by (auto simp: ms_views assms(1))
qed

theorem ms_Compact_keeps_witness:
  "\<exists>ms'. ms_Compact 2 store3 = Some (Inr (), ms') \<and> ms_firstIndex ms' = Some 3 \<and> ms_Term ms' 3 = ms_Term store3 3"
  using ms_Compact_keeps [of store3 2] store3_inv by (auto simp: store3_view al_last_def)

section \<open>Reading the log\<close>



text \<open>C32. The entries handed to the application are exactly those after the applied index (and
  after the snapshot) up to the committed index, and the quick check agrees with them.\<close>

theorem nextEnts_correct:
  assumes "log_inv l" "total_size (al_ents (log_view l)) \<le> noLimit"
  shows "\<exists>es. l_nextEnts l = Some es \<and>
    contig (Suc (max (l_applied l) (log_base l))) es \<and>
    length es = l_committed l - max (l_applied l) (log_base l) \<and>
    (\<forall>e \<in> set es. al_term (log_view l) (EIndex e) = ETerm e) \<and>
    l_hasNextEnts l = Some (es \<noteq> [])"
proof -
  let ?b = "max (l_applied l) (log_base l)"
  have "al_ok (log_view l)" using rl.view_ok [of l] assms(1) by simp
  note r = al_slice_run [OF this, of ?b "l_committed l"]
  have i: "log_base l \<le> l_committed l" "l_committed l \<le> al_last (log_view l)" "l_applied l \<le> l_committed l"
    using assms(1) by (auto simp: log_inv_def)
  then have "?b < l_committed l \<longleftrightarrow> al_slice (log_view l) (Suc ?b) (Suc (l_committed l)) \<noteq> []"
    using r(2) by (metis length_greater_0_conv log_view_sel(1) max.bounded_iff max.cobounded2 zero_less_diff)
  with l_nextEnts_view [OF assms] r i show ?thesis by simp
qed

theorem nextEnts_correct_witness:
  "\<exists>es. l_nextEnts log4 = Some es \<and> length es = 1 \<and> l_hasNextEnts log4 = Some (es \<noteq> [])"
  using nextEnts_correct [of log4] log4_inv
  by (auto simp: log4_sel log4_view total_size_def noLimit_def entry_Size_def ent_def sovRaft.simps)

section \<open>Appending to the log\<close>

lemma l_maybeAppend_merges:
  assumes inv: "log_inv l" and i: "log_base l \<le> i" "i \<le> al_last (log_view l)"
    and m: "al_term (log_view l) i = t" and c: "contig (Suc i) es" "i + length es < max_u64"
    and pos: "\<forall>e \<in> set es. 0 < ETerm e"
    and nc: "\<forall>e \<in> set es. EIndex e \<le> l_committed l \<longrightarrow> entry_matches (log_view l) e"
  shows "\<exists>l'. l_maybeAppend i t cm es l = Some (l', Some (i + length es)) \<and> log_inv l' \<and>
    al_agree (log_view l) (log_view l') (max i (l_committed l)) \<and>
    (\<forall>e \<in> set es. al_term (log_view l') (EIndex e) = ETerm e) \<and>
    l_committed l' = max (l_committed l) (min cm (i + length es)) \<and> l_applied l' = l_applied l"
proof -
  have b: "log_base l \<le> l_committed l" using inv by (simp add: log_inv_def)
  have ok: "al_ok (log_view l)" using rl.view_ok inv by simp
  have i': "al_base (log_view l) \<le> i" using i by simp
  from al_merge_agree [OF ok c(1) i' i(2) pos nc] al_merge_holds [OF ok c(1) i' i(2) pos]
  have "al_agree (log_view l) (al_merge (log_view l) es) (max i (l_committed l))"
    "\<forall>e \<in> set es. al_term (al_merge (log_view l) es) (EIndex e) = ETerm e" by auto
  with l_maybeAppend_view [OF assms, of cm] show ?thesis by auto
qed

text \<open>C5. A follower that accepts an append (the entry before the new ones matches, and no new
  entry conflicts with a committed one) does not panic.  Afterwards the invariant holds, the
  committed part of the log is unchanged, so is everything up to the preceding index, every
  new entry is in the log with its term, and the committed index is the old one or the
  leader's, cut to the last new entry.\<close>

theorem maybeAppend_accepts:
  assumes inv: "log_inv l" and i: "log_base l \<le> i" "i \<le> al_last (log_view l)"
    and m: "al_term (log_view l) i = t" and c: "contig (Suc i) es" "i + length es < max_u64"
    and pos: "\<forall>e \<in> set es. 0 < ETerm e"
    and nc: "\<forall>e \<in> set es. EIndex e \<le> l_committed l \<longrightarrow> entry_matches (log_view l) e"
  shows "\<exists>l'. l_maybeAppend i t cm es l = Some (l', Some (i + length es)) \<and> log_inv l' \<and>
    al_agree (log_view l) (log_view l') (max i (l_committed l)) \<and>
    (\<forall>e \<in> set es. al_term (log_view l') (EIndex e) = ETerm e) \<and>
    l_committed l' = max (l_committed l) (min cm (i + length es)) \<and> l_applied l' = l_applied l"
  by (rule l_maybeAppend_merges [OF assms])

theorem maybeAppend_accepts_witness:
  "\<exists>l'. l_maybeAppend 2 1 9 [ent 3 3, ent 4 4, ent 5 4] log4 = Some (l', Some 5) \<and> log_inv l' \<and>
     al_term (log_view l') 4 = 4 \<and> l_committed l' = 5"
  using maybeAppend_accepts [of log4 2 1 "[ent 3 3, ent 4 4, ent 5 4]" 9] log4_inv
  by (auto simp: log4_sel log4_view al_last_def al_term_def ent_def)

text \<open>An append whose preceding entry is missing or has another term is refused and leaves
  the log as it is.\<close>

theorem maybeAppend_rejects:
  assumes "log_wf l" "al_term (log_view l) i \<noteq> t"
  shows "l_maybeAppend i t cm es l = Some (l, None)"
  using assms by (simp add: l_maybeAppend_def l_matchTerm_view)

theorem maybeAppend_rejects_witness: "l_maybeAppend 3 2 9 [ent 4 5] log4 = Some (log4, None)"
  using maybeAppend_rejects [of log4 3 2] log4_inv by (simp add: log4_view al_term_def al_last_def ent_def)

text \<open>C31. An append that would replace a committed entry panics: a committed entry is never
  overwritten.\<close>

theorem maybeAppend_committed_conflict:
  assumes "log_wf l" "al_term (log_view l) i = t" "e \<in> set es" "0 < EIndex e" "contig (Suc i) es"
    "EIndex e \<le> l_committed l" "al_term (log_view l) (EIndex e) \<noteq> ETerm e"
  shows "l_maybeAppend i t cm es l = None"
proof -
  let ?a = "log_view l"
  obtain r rs where r: "dropWhile (entry_matches ?a) es = r # rs"
    using assms(3,7) by (cases "dropWhile (entry_matches ?a) es") (auto simp: dropWhile_eq_Nil_conv)
  have d: "es = takeWhile (entry_matches ?a) es @ r # rs" using r takeWhile_dropWhile_id by metis
  have "e \<notin> set (takeWhile (entry_matches ?a) es)" using assms(7) by (auto dest: set_takeWhileD)
  with assms(3) d have er: "e \<in> set (r # rs)" by (metis Un_iff set_append)
  have c: "contig (Suc i + length (takeWhile (entry_matches ?a) es)) (r # rs)"
    using assms(5) d contig_append by metis
  then have "EIndex r \<le> EIndex e" "0 < EIndex r" using contig_index_bound [OF c er] by auto
  then show ?thesis
    using assms(1,2,6) r by (simp add: l_maybeAppend_def l_matchTerm_view l_findConflict_view)
qed

theorem maybeAppend_committed_conflict_witness: "l_maybeAppend 1 1 9 [ent 2 7] log4 = None"
  using maybeAppend_committed_conflict [of log4 1 1 "ent 2 7" "[ent 2 7]"] log4_inv
  by (simp add: log4_view al_term_def al_last_def ent_def log4_sel)

section \<open>Persisting\<close>

text \<open>C16. When the application has written the pending snapshot and a prefix of the unstable
  entries to the storage and reports them stable, the log has the same content as before,
  only the split between stored and unstable entries has moved.\<close>

theorem persist_keeps_log:
  assumes inv: "log_inv l" and ents: "u_entries (l_unstable l) = es @ rest"
    and off: "\<forall>s. u_snapshot (l_unstable l) = Some s \<longrightarrow> u_offset (l_unstable l) = Suc (snap_index s)"
  shows "\<exists>st l'. persisted l es = Some st \<and>
    stabilise es (u_snapshot (l_unstable l)) (l\<lparr>l_storage := st\<rparr>) = Some l' \<and> log_inv l' \<and>
    log_view l' = log_view l \<and> l_committed l' = l_committed l \<and> l_applied l' = l_applied l \<and>
    u_entries (l_unstable l') = rest"
proof -
  have "log_struct l" using inv by (simp add: log_inv_def log_wf_def)
  from persisted_view [OF this ents] off obtain st where st: "persisted l es = Some st" by blast
  from stabilise_view [OF inv ents _ st] off st show ?thesis by fastforce
qed

theorem persist_keeps_log_witness:
  "\<exists>st l'. persisted log4 [ent 3 3] = Some st \<and>
    stabilise [ent 3 3] (u_snapshot (l_unstable log4)) (log4\<lparr>l_storage := st\<rparr>) = Some l' \<and>
    log_view l' = log_view log4 \<and> u_entries (l_unstable l') = [ent 4 3]"
proof -
  have "u_entries (l_unstable log4) = [ent 3 3] @ [ent 4 3]" "u_snapshot (l_unstable log4) = None"
    by (simp_all add: log4_def)
  with persist_keeps_log [OF log4_inv(1), of "[ent 3 3]" "[ent 4 3]"] show ?thesis by auto
qed

end
