(* ===== verification/Raft_Props.thy ===== *)
theory Raft_Props
  imports Raft_Election Raft_Log_Props Raft_Node "HOL-Library.Multiset"
begin

text \<open>
  Properties of the raft state machine of one node and of the node around it: votes,
  commitment, appending, timeouts, and what is handed to the application.
\<close>

section \<open>Nodes for the witnesses\<close>

definition prog :: "u64 \<Rightarrow> Progress" where
  "prog m = (newProgress m 5 4)\<lparr>p_RecentActive := True\<rparr>"

text \<open>A follower with id 1 in term 3 and the log of four entries.\<close>

definition raft1 :: raft where
  "raft1 = \<lparr>r_id = 1, r_Term = 3, r_Vote = NoNode, r_raftLog = log4, r_maxInflight = 4, r_maxMsgSize = 1000,
     r_prs = [(1, prog 4), (2, prog 4), (3, prog 2)], r_state = StateFollower, r_votes = [], r_msgs = [],
     r_lead = NoNode, r_pendingConf = False, r_electionElapsed = 0, r_heartbeatElapsed = 0, r_checkQuorum = True,
     r_heartbeatTimeout = 1, r_electionTimeout = 2, r_tick = TickElection, r_step = StepFollower\<rparr>"

definition leader1 :: raft where
  "leader1 = raft1\<lparr>r_state := StateLeader, r_step := StepLeader, r_tick := TickHeartbeat, r_Vote := 1, r_lead := 1\<rparr>"

lemmas raft1_defs = raft1_def leader1_def prog_def

section \<open>Votes and terms\<close>


definition ask :: Message where
  "ask = zero_message\<lparr>MType := MsgVote, MFrom := 2, MTo := 1, MTerm := 3, MLogTerm := 3, MIndex := 4\<rparr>"

lemma raft1_role: "role_ok raft1" "role_ok leader1"
  by (simp_all add: raft1_defs role_ok_def)

lemma raft1_votes: "\<exists>r'. Step ask (raft1\<lparr>r_Vote := 2\<rparr>) = Some r' \<and> r_Term r' = 3"
  using log4_inv(2)
  by (simp add: ask_def raft1_def Step_def step_fn_def stepFollower_def zero_message_def l_isUpToDate_view rejectVote_def send_def)


text \<open>C21. How a follower answers a vote request of its term: it grants the vote exactly when it
  has not voted for another node and the candidate's last entry has a later term than its
  own last entry, or the same term and at least the same index; otherwise it refuses.  In
  both cases it does nothing else but reset its election timer when it grants.\<close>

theorem follower_vote:
  assumes "r_step r = StepFollower" "log_wf (r_raftLog r)" "MType m = MsgVote" "MTerm m = r_Term r"
  shows "Step m r =
    (let a = log_view (r_raftLog r);
         uptodate = (MLogTerm m > al_term a (al_last a) \<or> MLogTerm m = al_term a (al_last a) \<and> MIndex m \<ge> al_last a);
         resp = zero_message\<lparr>MTo := MFrom m, MType := MsgVoteResp, MFrom := r_id r, MTerm := r_Term r\<rparr>
     in if (r_Vote r = NoNode \<or> r_Vote r = MFrom m) \<and> uptodate
        then Some (r\<lparr>r_electionElapsed := 0, r_Vote := MFrom m, r_msgs := r_msgs r @ [resp]\<rparr>)
        else Some (r\<lparr>r_msgs := r_msgs r @ [resp\<lparr>MReject := True\<rparr>]\<rparr>))"
  using assms
  by (auto simp: Step_def step_fn_def stepFollower_def l_isUpToDate_view rejectVote_def send_def Let_def)

theorem follower_vote_witness:
  "Step ask raft1 = Some (raft1\<lparr>r_Vote := 2,
     r_msgs := [zero_message\<lparr>MTo := 2, MType := MsgVoteResp, MFrom := 1, MTerm := 3\<rparr>]\<rparr>)"
  using follower_vote [of raft1 ask] log4_inv(2)
  by (simp add: ask_def raft1_def log4_view al_term_def al_last_def ent_def zero_message_def)

section \<open>Commitment\<close>



definition acks :: "raft \<Rightarrow> u64 \<Rightarrow> nat" where
  "acks r n = length (filter (\<lambda>(i, pr). n \<le> p_Match pr) (r_prs r))"

text \<open>The element at position \<open>k\<close> of the values in descending order.\<close>

lemma length_filter_sort: "length (filter P (rev (sort xs))) = length (filter P xs)"
proof -
  have "mset (filter P (rev (sort xs))) = mset (filter P xs)" by simp
  then show ?thesis by (rule mset_eq_length)
qed

lemma kth_largest:
  fixes xs :: "nat list"
  assumes "k < length xs"
  defines "v \<equiv> rev (sort xs) ! k"
  shows "k < length (filter (\<lambda>x. v \<le> x) xs)" "v < n \<Longrightarrow> length (filter (\<lambda>x. n \<le> x) xs) \<le> k"
proof -
  let ?ys = "rev (sort xs)"
  have desc: "?ys ! j \<le> ?ys ! i" if "i \<le> j" "j < length xs" for i j
  proof -
    have "?ys ! j = sort xs ! (length xs - Suc j)" "?ys ! i = sort xs ! (length xs - Suc i)"
      using that by (simp_all add: rev_nth)
    moreover have "length xs - Suc j \<le> length xs - Suc i" using that by simp
    ultimately show ?thesis using that by (simp add: sorted_nth_mono)
  qed
  have "\<forall>x \<in> set (take (Suc k) ?ys). v \<le> x"
    using desc assms(1) by (auto simp: v_def in_set_conv_nth)
  then have "filter (\<lambda>x. v \<le> x) (take (Suc k) ?ys) = take (Suc k) ?ys" by (simp add: filter_id_conv)
  then have "Suc k \<le> length (filter (\<lambda>x. v \<le> x) ?ys)"
    using assms(1) append_take_drop_id [of "Suc k" ?ys] filter_append length_append
    by (metis le_add1 length_rev length_sort length_take min.absorb2 Suc_leI)
  then show "k < length (filter (\<lambda>x. v \<le> x) xs)" by (simp add: length_filter_sort)
  assume "v < n"
  then have "\<not> n \<le> drop k ?ys ! i" if "i < length (drop k ?ys)" for i
    using desc [of k "k + i"] that by (simp add: v_def less_diff_conv add.commute)
  then have "\<forall>x \<in> set (drop k ?ys). \<not> n \<le> x" by (metis in_set_conv_nth)
  then have "filter (\<lambda>x. n \<le> x) (drop k ?ys) = []" by (simp add: filter_empty_conv)
  then have "length (filter (\<lambda>x. n \<le> x) ?ys) = length (filter (\<lambda>x. n \<le> x) (take k ?ys))"
    by (metis append_Nil2 append_take_drop_id filter_append)
  also have "\<dots> \<le> k" using length_filter_le [of _ "take k ?ys"] assms(1) by (metis le_trans length_take min.cobounded2)
  finally show "length (filter (\<lambda>x. n \<le> x) xs) \<le> k" by (simp only: length_filter_sort)
qed

lemma acks_map: "acks r n = length (filter (\<lambda>x. n \<le> x) (map (\<lambda>(i, pr). p_Match pr) (r_prs r)))"
  by (simp add: acks_def filter_map comp_def case_prod_unfold)

text \<open>What \<^verbatim>\<open>maybeCommit\<close> computes: the largest index that a quorum has acknowledged.\<close>

lemma maybeCommit_index:
  assumes "r_prs r \<noteq> []"
  obtains v where "idx (rev (sort (map (\<lambda>(i, pr). p_Match pr) (r_prs r)))) (quorum r - 1) = Some v"
    "quorum r \<le> acks r v" "\<And>n. quorum r \<le> acks r n \<Longrightarrow> n \<le> v"
proof -
  let ?xs = "map (\<lambda>(i, pr). p_Match pr) (r_prs r)"
  have q: "quorum r - 1 < length ?xs" using assms by (cases "r_prs r") (auto simp: quorum_def)
  note k = kth_largest [OF q]
  have "quorum r \<noteq> 0" by (simp add: quorum_def)
  show ?thesis
  proof (rule that [of "rev (sort ?xs) ! (quorum r - 1)"])
    show "idx (rev (sort ?xs)) (quorum r - 1) = Some (rev (sort ?xs) ! (quorum r - 1))" using q by simp
    show "quorum r \<le> acks r (rev (sort ?xs) ! (quorum r - 1))" using k(1) \<open>quorum r \<noteq> 0\<close> by (simp add: acks_map)
    fix n assume "quorum r \<le> acks r n"
    then have "\<not> acks r n \<le> quorum r - 1" using \<open>quorum r \<noteq> 0\<close> by linarith
    with k(2) [of n] show "n \<le> rev (sort ?xs) ! (quorum r - 1)" unfolding acks_map by (meson not_le)
  qed
qed

lemma maybeCommit_view:
  assumes "log_inv (r_raftLog r)" "r_prs r \<noteq> []" "0 < r_Term r"
  shows "\<exists>r' b. maybeCommit r = Some (r', b) \<and> log_inv (r_raftLog r') \<and>
    log_view (r_raftLog r') = log_view (r_raftLog r) \<and> r_prs r' = r_prs r \<and>
    (if b then l_committed (r_raftLog r) < l_committed (r_raftLog r') \<and>
         quorum r \<le> acks r (l_committed (r_raftLog r')) \<and>
         al_term (log_view (r_raftLog r)) (l_committed (r_raftLog r')) = r_Term r
     else r' = r)"
proof -
  let ?l = "r_raftLog r"
  obtain v where v: "idx (rev (sort (map (\<lambda>(i, pr). p_Match pr) (r_prs r)))) (quorum r - 1) = Some v"
    "quorum r \<le> acks r v" by (rule maybeCommit_index [OF assms(2)])
  have wf: "log_wf ?l" using assms(1) by simp
  show ?thesis
  proof (cases "l_committed ?l < v \<and> al_term (log_view ?l) v = r_Term r")
    case True
    then have "v \<le> al_last (log_view ?l)" using assms(3) al_term_pos_last [of "log_view ?l" v] by simp
    from l_commitTo_view [OF assms(1) this] obtain l' where l': "l_commitTo v ?l = Some l'" "log_inv l'"
      "log_view l' = log_view ?l" "l_committed l' = max (l_committed ?l) v" by blast
    have "maybeCommit r = Some (r\<lparr>r_raftLog := l'\<rparr>, True)"
      using v(1) True l'(1) by (simp add: maybeCommit_def l_maybeCommit_def l_term_view [OF wf] l_zeroTermOnErrCompacted_def)
    then show ?thesis using l' True v(2) by (intro exI [of _ "r\<lparr>r_raftLog := l'\<rparr>"] exI [of _ True]) simp
  next
    case False
    then have "maybeCommit r = Some (r, False)"
      using v(1) by (auto simp: maybeCommit_def l_maybeCommit_def l_term_view [OF wf] l_zeroTermOnErrCompacted_def)
    then show ?thesis using assms(1) by (intro exI [of _ r] exI [of _ False]) simp
  qed
qed

text \<open>C6. When a leader advances its committed index, the new one is larger than the old one, it
  is acknowledged by a quorum of the members, and its entry is of the leader's own term; the
  content of the log does not change.  Otherwise nothing changes.  It never panics.\<close>

theorem maybeCommit_quorum:
  assumes "log_inv (r_raftLog r)" "r_prs r \<noteq> []" "0 < r_Term r"
  shows "\<exists>r' b. maybeCommit r = Some (r', b) \<and> log_inv (r_raftLog r') \<and>
    log_view (r_raftLog r') = log_view (r_raftLog r) \<and> r_prs r' = r_prs r \<and>
    (if b then l_committed (r_raftLog r) < l_committed (r_raftLog r') \<and>
         quorum r \<le> acks r (l_committed (r_raftLog r')) \<and>
         al_term (log_view (r_raftLog r)) (l_committed (r_raftLog r')) = r_Term r
     else r' = r)"
  by (rule maybeCommit_view [OF assms])

theorem maybeCommit_quorum_witness:
  "\<exists>r' b. maybeCommit leader1 = Some (r', b) \<and>
    (if b then 2 < l_committed (r_raftLog r') \<and> 2 \<le> acks leader1 (l_committed (r_raftLog r')) else r' = leader1)"
proof -
  have l: "quorum leader1 = 2" "r_raftLog leader1 = log4" "r_prs leader1 \<noteq> []" "0 < r_Term leader1"
    by (simp_all add: raft1_defs quorum_def)
  obtain r' b where "maybeCommit leader1 = Some (r', b)"
    "if b then l_committed (r_raftLog leader1) < l_committed (r_raftLog r') \<and>
       quorum leader1 \<le> acks leader1 (l_committed (r_raftLog r')) \<and>
       al_term (log_view (r_raftLog leader1)) (l_committed (r_raftLog r')) = r_Term leader1 else r' = leader1"
    using maybeCommit_quorum [of leader1] log4_inv(1) l(2-4) by auto
  then show ?thesis unfolding l(1,2) log4_sel by (intro exI [of _ r'] exI [of _ b]) (simp split: if_splits)
qed

text \<open>C19. A leader commits what it can: an index that a quorum has acknowledged and from which on
  all entries are of the leader's term is committed afterwards, provided that no progress is
  ahead of the log.\<close>

theorem maybeCommit_complete:
  assumes "log_inv (r_raftLog r)" "0 < r_Term r" "quorum r \<le> acks r n"
    "\<forall>(i, pr) \<in> set (r_prs r). p_Match pr \<le> al_last (log_view (r_raftLog r))"
    "\<forall>i \<in> {n..al_last (log_view (r_raftLog r))}. al_term (log_view (r_raftLog r)) i = r_Term r"
  shows "\<exists>r' b. maybeCommit r = Some (r', b) \<and> n \<le> l_committed (r_raftLog r')"
proof -
  let ?l = "r_raftLog r"
  have ne: "r_prs r \<noteq> []" using assms(3) by (auto simp: acks_def quorum_def)
  obtain v where v: "idx (rev (sort (map (\<lambda>(i, pr). p_Match pr) (r_prs r)))) (quorum r - 1) = Some v"
    "quorum r \<le> acks r v" "n \<le> v" using maybeCommit_index [OF ne] assms(3) by metis
  have "v \<in> set (rev (sort (map (\<lambda>(i, pr). p_Match pr) (r_prs r))))"
    using v(1) by (metis idx_def nth_mem option.distinct(1) option.inject)
  then have le: "v \<le> al_last (log_view ?l)" using assms(4) by auto
  with v(3) assms(5) have t: "al_term (log_view ?l) v = r_Term r" by simp
  from l_commitTo_view [OF assms(1) le] obtain l' where l': "l_commitTo v ?l = Some l'"
    "l_committed l' = max (l_committed ?l) v" by blast
  have "maybeCommit r = Some (if l_committed ?l < v then (r\<lparr>r_raftLog := l'\<rparr>, True) else (r, False))"
    using v(1) t l'(1) log_inv_wf [OF assms(1)]
    by (simp add: maybeCommit_def l_maybeCommit_def l_term_view l_zeroTermOnErrCompacted_def)
  then show ?thesis using v(3) l'(2) by (cases "l_committed ?l < v") auto
qed

theorem maybeCommit_complete_witness: "\<exists>r' b. maybeCommit leader1 = Some (r', b) \<and> 4 \<le> l_committed (r_raftLog r')"
proof -
  have t: "al_term (log_view log4) 3 = 3" "al_term (log_view log4) 4 = 3" "al_last (log_view log4) = 4"
    by (simp_all add: log4_view al_term_def al_last_def ent_def)
  have "\<forall>i \<in> {4..4}. al_term (log_view log4) i = 3" using t by simp
  then show ?thesis
    using maybeCommit_complete [of leader1 4] log4_inv(1) t
    by (simp add: raft1_defs acks_def quorum_def newProgress_def)
qed

section \<open>Appending\<close>

lemma stamp_entries_run:
  "i + length es \<le> max_u64 \<Longrightarrow> contig i (stamp_entries t i es) \<and> length (stamp_entries t i es) = length es \<and>
     (\<forall>e \<in> set (stamp_entries t i es). ETerm e = t)"
proof (induction es arbitrary: i)
  case (Cons e es)
  then show ?case using Cons.IH [of "Suc i"] by (simp add: u64_simps)
qed simp

text \<open>C20. A leader only appends: proposing entries leaves the log as it was up to its old last
  index and adds the entries after it, numbered from the next index on and stamped with the
  leader's term.  The committed index does not go back, and nothing panics.\<close>

theorem appendEntry_appends:
  assumes "log_inv (r_raftLog r)" "0 < r_Term r" "es \<noteq> []" "promotable r"
    "al_last (log_view (r_raftLog r)) + length es < max_u64"
  defines "a \<equiv> log_view (r_raftLog r)"
  defines "es' \<equiv> stamp_entries (r_Term r) (al_last a + 1) es"
  shows "\<exists>r'. appendEntry es r = Some r' \<and> log_inv (r_raftLog r') \<and>
    log_view (r_raftLog r') = a\<lparr>al_ents := al_ents a @ es'\<rparr> \<and> contig (al_last a + 1) es' \<and>
    length es' = length es \<and> (\<forall>e \<in> set es'. ETerm e = r_Term r) \<and>
    l_committed (r_raftLog r) \<le> l_committed (r_raftLog r')"
proof -
  let ?l = "r_raftLog r"
  have wf: "log_wf ?l" using assms(1) by simp
  have st: "contig (al_last a + 1) es'" "length es' = length es" "\<forall>e \<in> set es'. ETerm e = r_Term r"
    using stamp_entries_run [of "al_last a + 1" es "r_Term r"] assms(5) unfolding es'_def a_def by simp_all
  have ne: "es' \<noteq> []" using st(2) assms(3) by auto
  have c: "l_committed ?l < al_last a + 1" using assms(1) by (simp add: log_inv_def a_def)
  from l_append_view [OF assms(1) ne st(1) c] st(2) assms(5) obtain l' where
    l': "l_append es' ?l = Some (l', al_last a + length es)" "log_inv l'" "log_view l' = al_append a es'"
      "l_committed l' = l_committed ?l" by (auto simp: a_def)
  have v: "al_append a es' = a\<lparr>al_ents := al_ents a @ es'\<rparr>"
    using ne contig_hd [OF st(1) ne] by (simp add: al_append_def al_last_def)
  have li: "l_lastIndex ?l = Some (al_last a)" "add64 (al_last a) 1 = al_last a + 1"
    using l_lastIndex_view [OF wf] assms(5) by (simp_all add: a_def u64_simps)
  have li': "l_lastIndex l' = Some (al_last (log_view l'))" using l_lastIndex_view l'(2) by simp
  obtain pr where pr: "map_of (r_prs r) (r_id r) = Some pr" using assms(4) by (auto simp: promotable_def)
  define s where "s = put_pr (r_id r) (fst (p_maybeUpdate (al_last (log_view l')) pr)) (r\<lparr>r_raftLog := l'\<rparr>)"
  have s: "r_raftLog s = l'" "r_prs s \<noteq> []" "r_Term s = r_Term r"
    using pr by (auto simp: s_def put_pr_def dest: arg_cong [where f = "map fst"] split: list.splits)
  from maybeCommit_view [of s] s l'(2) assms(2) obtain r' b where r': "maybeCommit s = Some (r', b)"
    "log_inv (r_raftLog r')" "log_view (r_raftLog r') = log_view l'"
    "if b then l_committed l' < l_committed (r_raftLog r') else r' = s" by auto
  have "appendEntry es r = Some r'"
    using li li' l'(1) pr r'(1) by (simp add: appendEntry_def r_lastIndex_def es'_def s_def)
  moreover have "l_committed ?l \<le> l_committed (r_raftLog r')" using r'(4) s(1) l'(4) by (auto split: if_splits)
  ultimately show ?thesis using r'(2,3) l'(3) v st by auto
qed

theorem appendEntry_appends_witness:
  "\<exists>r'. appendEntry [zero_entry] leader1 = Some r' \<and>
     al_ents (log_view (r_raftLog r')) = [ent 1 1, ent 2 1, ent 3 3, ent 4 3, ent 5 3]"
proof -
  have l: "r_raftLog leader1 = log4" "r_Term leader1 = 3" "promotable leader1"
    by (simp_all add: raft1_defs promotable_def)
  have v: "al_last (log_view log4) = 4" "al_ents (log_view log4) = [ent 1 1, ent 2 1, ent 3 3, ent 4 3]"
    by (simp_all only: log4_view) (simp_all add: al_last_def)
  show ?thesis
    using appendEntry_appends [of leader1 "[zero_entry]"] log4_inv(1) l v
    by (auto simp: zero_entry_def ent_def simp del: log_view_sel(3))
qed

end
