(* ===== verification/Raft_Flow_Props.thy ===== *)
theory Raft_Flow_Props
  imports Raft_Props "HOL-Library.Code_Target_Nat"
begin

text \<open>
  Properties of replication, of timeouts and of the hand-over to the application: what the
  messages of a leader contain and what a follower makes of them, when an election starts,
  and that a Ready is complete and is not delivered twice.
\<close>

section \<open>Elections\<close>

lemma tick_waits:
  assumes "r_tick r = TickElection" "promotable r" "0 < r_electionTimeout r" "r_state r \<noteq> StateLeader"
  defines "e \<equiv> r_electionElapsed r + 1"
  shows "tick rnd r =
    (if r_electionTimeout r < e \<and> rnd mod r_electionTimeout r < e - r_electionTimeout r
     then campaign (r\<lparr>r_electionElapsed := 0\<rparr>) else Some (r\<lparr>r_electionElapsed := e\<rparr>))"
  using assms by (auto simp: tick_def tickElection_def isElectionTimeout_def Step_def zero_message_def promotable_def Let_def)

text \<open>C22. A follower or candidate that hears nothing starts an election after more ticks than its
  election timeout and after at most twice as many, whatever random numbers it draws; until
  then only its timer changes.\<close>

theorem election_timeout_fires:
  assumes "r_tick r = TickElection" "promotable r" "0 < r_electionTimeout r" "r_state r \<noteq> StateLeader"
    "r_electionElapsed r = 0" "length rnds = 2 * r_electionTimeout r"
  shows "\<exists>k. r_electionTimeout r < k \<and> k \<le> 2 * r_electionTimeout r \<and>
    (\<forall>j < k. ofold tick (take j rnds) r = Some (r\<lparr>r_electionElapsed := j\<rparr>)) \<and>
    ofold tick (take k rnds) r = campaign (r\<lparr>r_electionElapsed := 0\<rparr>)"
proof -
  let ?T = "r_electionTimeout r"
  define fire where "fire k \<longleftrightarrow> ?T < k \<and> rnds ! (k - 1) mod ?T < k - ?T" for k
  define k where "k = (LEAST k. fire k)"
  have last: "fire (2 * ?T)" using assms(3) by (simp add: fire_def)
  then have k: "fire k" "k \<le> 2 * ?T" unfolding k_def by (rule LeastI, rule Least_le)
  have no: "\<not> fire j" if "j < k" for j using that not_less_Least unfolding k_def by blast
  have step: "ofold tick (take (Suc j) rnds) r =
      Option.bind (ofold tick (take j rnds) r) (tick (rnds ! j))" if "j < k" for j
    using that k(2) assms(6) by (simp add: take_Suc_conv_app_nth ofold_append split: Option.bind_split)
  have tk: "tick rnd (r\<lparr>r_electionElapsed := j\<rparr>) =
      (if ?T < Suc j \<and> rnd mod ?T < Suc j - ?T then campaign (r\<lparr>r_electionElapsed := 0\<rparr>)
       else Some (r\<lparr>r_electionElapsed := Suc j\<rparr>))" for rnd j
    using tick_waits [of "r\<lparr>r_electionElapsed := j\<rparr>" rnd] assms(1-4) by (simp add: promotable_def)
  have w: "ofold tick (take j rnds) r = Some (r\<lparr>r_electionElapsed := j\<rparr>)" if "j < k" for j
    using that
  proof (induction j)
    case 0
    then show ?case using assms(5) by (metis ofold.simps(1) raft.surjective raft.update_convs(13) take_0)
  next
    case (Suc j)
    have "\<not> fire (Suc j)" using no Suc.prems by blast
    then show ?case using Suc step [of j] by (auto simp: fire_def tk)
  qed
  obtain j where j: "k = Suc j" using k(1) by (cases k) (auto simp: fire_def)
  have "ofold tick (take k rnds) r = campaign (r\<lparr>r_electionElapsed := 0\<rparr>)"
    using step [of j] w [of j] k(1) by (simp add: j tk fire_def)
  with k w show ?thesis by (auto simp: fire_def)
qed

theorem election_timeout_fires_witness:
  "\<exists>k. 2 < k \<and> k \<le> 4 \<and> ofold tick (take k [7, 8, 9, 10]) raft1 = campaign raft1"
proof -
  have r: "raft1\<lparr>r_electionElapsed := 0\<rparr> = raft1" by (simp add: raft1_def)
  show ?thesis using election_timeout_fires [of raft1 "[7, 8, 9, 10]"] unfolding r
    by (auto simp: raft1_def promotable_def)
qed

section \<open>Replication\<close>

text \<open>What a leader sends a follower that is not paused and whose next entry is in the log.\<close>

lemma sendAppend_msg:
  assumes "log_wf (r_raftLog r)" "map_of (r_prs r) to = Some pr" "pr_inv pr" "\<not> p_isPaused pr"
    "log_base (r_raftLog r) < p_Next pr" "p_Next pr \<le> al_last (log_view (r_raftLog r)) + 1"
  shows "\<exists>r'. sendAppend to r = Some r' \<and> r_raftLog r' = r_raftLog r \<and>
    r_msgs r' = r_msgs r @ [zero_message\<lparr>MTo := to, MType := MsgApp, MFrom := r_id r, MTerm := r_Term r,
      MIndex := p_Next pr - 1, MLogTerm := al_term (log_view (r_raftLog r)) (p_Next pr - 1),
      MEntries := limitSize (drop (p_Next pr - Suc (log_base (r_raftLog r))) (al_ents (log_view (r_raftLog r)))) (r_maxMsgSize r),
      MCommit := l_committed (r_raftLog r)\<rparr>]"
proof -
  let ?l = "r_raftLog r"
  let ?es = "limitSize (drop (p_Next pr - Suc (log_base ?l)) (al_ents (log_view ?l))) (r_maxMsgSize r)"
  have nx: "sub64 (p_Next pr) 1 = p_Next pr - 1" using assms(3,5) by (simp add: pr_inv_def u64_simps)
  have t: "l_term ?l (p_Next pr - 1) = Some (Inr (al_term (log_view ?l) (p_Next pr - 1)))"
    using l_term_view [OF assms(1)] assms(5) by simp
  have e: "l_entries ?l (p_Next pr) (r_maxMsgSize r) = Some (Inr ?es)" by (rule l_entries_view [OF assms(1,5)])
  have "\<exists>pr'. (if ?es = [] then Some pr
       else case p_State pr of
         ProgressStateReplicate \<Rightarrow> do {
           ins \<leftarrow> in_add (EIndex (last ?es)) (p_ins pr);
           Some ((p_optimisticUpdate (EIndex (last ?es)) pr)\<lparr>p_ins := ins\<rparr>)
         }
       | ProgressStateProbe \<Rightarrow> Some (p_pause pr)
       | ProgressStateSnapshot \<Rightarrow> None) = Some pr'"
    using assms(3,4) win.add_room [of "p_ins pr" "EIndex (last ?es)"]
    by (cases "p_State pr") (auto simp: p_isPaused_def pr_inv_def)
  then obtain pr' where "(if ?es = [] then Some pr
       else case p_State pr of
         ProgressStateReplicate \<Rightarrow> do {
           ins \<leftarrow> in_add (EIndex (last ?es)) (p_ins pr);
           Some ((p_optimisticUpdate (EIndex (last ?es)) pr)\<lparr>p_ins := ins\<rparr>)
         }
       | ProgressStateProbe \<Rightarrow> Some (p_pause pr)
       | ProgressStateSnapshot \<Rightarrow> None) = Some pr'" by blast
  then have "sendAppend to r = Some (send (zero_message\<lparr>MTo := to, MType := MsgApp, MIndex := p_Next pr - 1,
      MLogTerm := al_term (log_view ?l) (p_Next pr - 1), MEntries := ?es, MCommit := l_committed ?l\<rparr>) (put_pr to pr' r))"
    using assms(2,4) nx t e unfolding sendAppend_def by (simp only: bind.simps prod.case sum.case if_False)
  then show ?thesis by (simp add: send_def put_pr_def zero_message_def)
qed

text \<open>C4. Replication step: a leader sends a follower the entries from the next index on, and the
  follower, whose log has the same term before them, takes them over.  The message holds at
  least one entry if the leader has one; afterwards the follower's log has the leader's terms
  at all the sent indexes and is unchanged before them, its committed index follows the
  leader's as far as the sent entries go, and it acknowledges the last sent index.\<close>

theorem replication_step:
  assumes "log_inv (r_raftLog r)" "map_of (r_prs r) to = Some pr" "pr_inv pr" "\<not> p_isPaused pr"
    "log_base (r_raftLog r) < p_Next pr" "p_Next pr \<le> al_last (log_view (r_raftLog r)) + 1"
    "\<forall>e \<in> set (al_ents (log_view (r_raftLog r))). 0 < ETerm e"
    and f: "log_inv (r_raftLog f)" "l_committed (r_raftLog f) < p_Next pr" "p_Next pr \<le> al_last (log_view (r_raftLog f)) + 1"
    "al_term (log_view (r_raftLog f)) (p_Next pr - 1) = al_term (log_view (r_raftLog r)) (p_Next pr - 1)"
  defines "a \<equiv> log_view (r_raftLog r)"
  shows "\<exists>r' m f' n. sendAppend to r = Some r' \<and> r_msgs r' = r_msgs r @ [m] \<and>
    handleAppendEntries m f = Some f' \<and> log_inv (r_raftLog f') \<and>
    p_Next pr - 1 \<le> n \<and> n \<le> al_last a \<and> (p_Next pr \<le> al_last a \<longrightarrow> p_Next pr \<le> n) \<and>
    (\<forall>i. p_Next pr \<le> i \<and> i \<le> n \<longrightarrow> al_term (log_view (r_raftLog f')) i = al_term a i) \<and>
    al_agree (log_view (r_raftLog f)) (log_view (r_raftLog f')) (p_Next pr - 1) \<and>
    l_committed (r_raftLog f') = max (l_committed (r_raftLog f)) (min (l_committed (r_raftLog r)) n) \<and>
    r_msgs f' = r_msgs f @ [zero_message\<lparr>MTo := r_id r, MType := MsgAppResp, MFrom := r_id f, MTerm := r_Term f, MIndex := n\<rparr>]"
proof -
  let ?l = "r_raftLog r" and ?N = "p_Next pr"
  define es where "es = limitSize (drop (?N - Suc (log_base ?l)) (al_ents a)) (r_maxMsgSize r)"
  define n where "n = ?N - 1 + length es"
  have wf: "log_wf ?l" using assms(1) by simp
  have ok: "al_ok a" using rl.view_ok [OF wf] by (simp add: a_def)
  have N: "0 < ?N" "al_base a < ?N" using assms(5) by (simp_all add: a_def)
  obtain k where k: "k \<le> length (drop (?N - Suc (al_base a)) (al_ents a))" "es = take k (drop (?N - Suc (al_base a)) (al_ents a))"
    using limitSize_prefix [of "drop (?N - Suc (al_base a)) (al_ents a)" "r_maxMsgSize r"] by (auto simp: es_def a_def)
  then have kl: "length es = k" "k \<le> al_last a - (?N - 1)" using N by (auto simp: al_last_def)
  have nl: "n \<le> al_last a" using kl assms(6) N by (simp add: n_def a_def)
  have sl: "es = al_slice a (Suc (?N - 1)) (Suc n)"
    using k(2) kl(1) N by (simp add: al_slice_def n_def)
  have bn: "al_base a \<le> ?N - 1" "?N - 1 \<le> n" using N by (simp_all add: n_def)
  have run: "contig (Suc (?N - 1)) es" "\<forall>e \<in> set es. al_term a (EIndex e) = ETerm e"
    using al_slice_run [OF ok bn nl] by (simp_all only: sl [symmetric])
  have full: "?N \<le> al_last a \<longrightarrow> ?N \<le> n"
  proof
    assume "?N \<le> al_last a"
    then have "drop (?N - Suc (al_base a)) (al_ents a) \<noteq> []" using N by (simp add: al_last_def)
    then have "es \<noteq> []" by (simp add: es_def a_def del: log_view_sel(3))
    then show "?N \<le> n" using N by (cases es) (auto simp: n_def)
  qed
  from sendAppend_msg [OF wf assms(2-6)] obtain r' where r': "sendAppend to r = Some r'"
    "r_msgs r' = r_msgs r @ [zero_message\<lparr>MTo := to, MType := MsgApp, MFrom := r_id r, MTerm := r_Term r,
      MIndex := ?N - 1, MLogTerm := al_term a (?N - 1), MEntries := es, MCommit := l_committed ?l\<rparr>]"
    unfolding es_def a_def by blast
  have fb: "log_base (r_raftLog f) \<le> ?N - 1" "?N - 1 \<le> al_last (log_view (r_raftLog f))"
    using f N by (auto simp: log_inv_def)
  have len: "?N - 1 + length es < max_u64" using nl rl.view_room [OF wf] by (simp add: n_def a_def)
  have pos: "\<forall>e \<in> set es. 0 < ETerm e" using assms(7) k(2) by (auto simp: a_def dest!: in_set_takeD in_set_dropD simp del: log_view_sel(3))
  have nc: "\<forall>e \<in> set es. EIndex e \<le> l_committed (r_raftLog f) \<longrightarrow> entry_matches (log_view (r_raftLog f)) e"
    using contig_index_bound [OF run(1)] f(2) N(1) by fastforce
  from l_maybeAppend_merges [OF f(1) fb f(4) run(1) len pos nc, of "l_committed ?l"] obtain l' where
    l': "l_maybeAppend (?N - 1) (al_term a (?N - 1)) (l_committed ?l) es (r_raftLog f) = Some (l', Some n)" "log_inv l'"
      "al_agree (log_view (r_raftLog f)) (log_view l') (max (?N - 1) (l_committed (r_raftLog f)))"
      "\<forall>e \<in> set es. al_term (log_view l') (EIndex e) = ETerm e"
      "l_committed l' = max (l_committed (r_raftLog f)) (min (l_committed ?l) n)"
    unfolding n_def a_def by blast
  have tm: "al_term (log_view l') i = al_term a i" if "?N \<le> i" "i \<le> n" for i
  proof -
    have "i - ?N < length es" using that N by (simp add: n_def)
    then have "es ! (i - ?N) \<in> set es" "EIndex (es ! (i - ?N)) = i"
      using contig_nth [OF run(1)] that N by auto
    then show ?thesis using l'(4) run(2) by metis
  qed
  have ag: "al_agree (log_view (r_raftLog f)) (log_view l') (?N - 1)" using al_agree_mono [OF l'(3)] by simp
  let ?m = "zero_message\<lparr>MTo := to, MType := MsgApp, MFrom := r_id r, MTerm := r_Term r,
    MIndex := ?N - 1, MLogTerm := al_term a (?N - 1), MEntries := es, MCommit := l_committed ?l\<rparr>"
  let ?f = "f\<lparr>r_raftLog := l',
    r_msgs := r_msgs f @ [zero_message\<lparr>MTo := r_id r, MType := MsgAppResp, MFrom := r_id f, MTerm := r_Term f, MIndex := n\<rparr>]\<rparr>"
  have "handleAppendEntries ?m f = Some ?f"
    using f(2) l'(1) by (simp add: handleAppendEntries_def send_def zero_message_def)
  then show ?thesis using r' l'(2,5) nl full tm ag bn(2)
    by (intro exI [of _ r'] exI [of _ ?m] exI [of _ ?f] exI [of _ n]) simp
qed

definition log3 :: raftLog where
  "log3 = \<lparr>l_storage = store3, l_unstable = \<lparr>u_snapshot = None, u_entries = [], u_offset = 4\<rparr>, l_committed = 2, l_applied = 1\<rparr>"

lemma log3_view: "log_view log3 = \<lparr>al_base = 0, al_bterm = 0, al_ents = [ent 1 1, ent 2 1, ent 3 2]\<rparr>"
  by (simp add: log_view_def log_base_def log_bterm_def log_stored_def log3_def store3_view)

lemma log3_inv: "log_inv log3"
  using store3_inv
  by (simp add: log_inv_def log_wf_def log_struct_def log_tight_def log3_view al_last_def)
    (simp add: log3_def log_base_def store3_view Let_def al_last_def)

theorem replication_step_witness:
  "\<exists>r' m f'. sendAppend 3 (leader1\<lparr>r_prs := [(3, (prog 2)\<lparr>p_Next := 3\<rparr>)]\<rparr>) = Some r' \<and>
     r_msgs r' = [m] \<and> handleAppendEntries m (raft1\<lparr>r_raftLog := log3\<rparr>) = Some f' \<and>
     al_term (log_view (r_raftLog f')) 3 = 3"
proof -
  let ?r = "leader1\<lparr>r_prs := [(3, (prog 2)\<lparr>p_Next := 3\<rparr>)]\<rparr>" and ?f = "raft1\<lparr>r_raftLog := log3\<rparr>"
  have v: "al_last (log_view log4) = 4" "al_ents (log_view log4) = [ent 1 1, ent 2 1, ent 3 3, ent 4 3]"
    "al_term (log_view log4) 2 = 1" "al_term (log_view log4) 3 = 3" "al_last (log_view log3) = 3" "al_term (log_view log3) 2 = 1"
    by (simp_all only: log4_view log3_view) (simp_all add: al_last_def al_term_def ent_def)
  have pr: "pr_inv ((prog 2)\<lparr>p_Next := 3\<rparr>)" "\<not> p_isPaused ((prog 2)\<lparr>p_Next := 3\<rparr>)" "p_Next ((prog 2)\<lparr>p_Next := 3\<rparr>) = 3"
    using in_inv_new [of 4]
    by (simp_all add: prog_def pr_inv_def newProgress_def p_isPaused_def)
  have l: "r_raftLog ?r = log4" "map_of (r_prs ?r) 3 = Some ((prog 2)\<lparr>p_Next := 3\<rparr>)" "r_raftLog ?f = log3" "r_msgs ?r = []"
    by (simp_all add: raft1_defs)
  let ?pr = "(prog 2)\<lparr>p_Next := 3\<rparr>"
  have h: "log_inv (r_raftLog ?r)" "log_base (r_raftLog ?r) < p_Next ?pr" "p_Next ?pr \<le> al_last (log_view (r_raftLog ?r)) + 1"
    "\<forall>e \<in> set (al_ents (log_view (r_raftLog ?r))). 0 < ETerm e" "log_inv (r_raftLog ?f)"
    "l_committed (r_raftLog ?f) < p_Next ?pr" "p_Next ?pr \<le> al_last (log_view (r_raftLog ?f)) + 1"
    "al_term (log_view (r_raftLog ?f)) (p_Next ?pr - 1) = al_term (log_view (r_raftLog ?r)) (p_Next ?pr - 1)"
    unfolding l pr(3) v(1,2,5) using v log4_inv(1) log3_inv log4_sel by (simp_all add: ent_def, simp add: log3_def)
  obtain r' m f' n where "sendAppend 3 ?r = Some r'" "r_msgs r' = r_msgs ?r @ [m]" "handleAppendEntries m ?f = Some f'"
    "3 \<le> n" "\<forall>i. 3 \<le> i \<and> i \<le> n \<longrightarrow> al_term (log_view (r_raftLog f')) i = al_term (log_view log4) i"
    using replication_step [OF h(1) l(2) pr(1,2) h(2-8)] unfolding l(1) pr(3) v(1) by auto
  then show ?thesis using v(4) l(4) by (intro exI [of _ r'] exI [of _ m] exI [of _ f']) simp
qed

section \<open>The hand-over to the application\<close>

text \<open>C25. The quick check whether something is ready agrees with building the Ready: it answers
  true exactly when the Ready contains a state, a snapshot, entries to store, entries to
  apply or messages.\<close>

theorem HasReady_containsUpdates:
  assumes "log_inv (r_raftLog (rn_raft rn))" "total_size (al_ents (log_view (r_raftLog (rn_raft rn)))) \<le> noLimit"
  shows "\<exists>rd. rn_newReady rn = Some rd \<and> rn_HasReady rn = Some (containsUpdates rd)"
proof -
  let ?l = "r_raftLog (rn_raft rn)"
  note nx = l_nextEnts_view [OF assms]
  have "al_slice (log_view ?l) (Suc (max (l_applied ?l) (log_base ?l))) (Suc (l_committed ?l)) \<noteq> [] \<longleftrightarrow>
      max (l_applied ?l) (log_base ?l) < l_committed ?l"
    using assms(1) by (auto simp: al_slice_def al_last_def log_inv_def)
  then show ?thesis
    by (auto simp: rn_newReady_def newReady_def nx rn_HasReady_def containsUpdates_def Let_def
        IsEmptyHardState_def isHardStateEqual_def IsEmptySnap_def emptyState_def zero_snapshot_def
        split: option.splits)
qed

definition rawnode1 :: RawNode where
  "rawnode1 = \<lparr>rn_raft = raft1, rn_prevSoftSt = softState raft1, rn_prevHardSt = emptyState\<rparr>"

lemma log4_size: "total_size (al_ents (log_view log4)) \<le> noLimit"
  by (simp add: log4_view total_size_def noLimit_def entry_Size_def ent_def sovRaft.simps del: log_view_sel(3))

theorem HasReady_containsUpdates_witness:
  "\<exists>rd. rn_newReady rawnode1 = Some rd \<and> rn_HasReady rawnode1 = Some (containsUpdates rd)"
  using HasReady_containsUpdates [of rawnode1] log4_inv(1) log4_size
  by (simp add: rawnode1_def raft1_def del: log_view_sel(3))

text \<open>What remains in the log after a whole Ready has been acknowledged.\<close>

lemma commitReady_log:
  assumes inv: "log_inv (r_raftLog (rn_raft rn))" and rd: "rn_newReady rn = Some rd"
    and ad: "rn_commitReady rd (rn\<lparr>rn_raft := (rn_raft rn)\<lparr>r_msgs := []\<rparr>\<rparr>) = Some rn'"
    and sn: "\<forall>s. u_snapshot (l_unstable (r_raftLog (rn_raft rn))) = Some s \<longrightarrow> 0 < snap_index s"
  defines "l' \<equiv> r_raftLog (rn_raft rn')"
  shows "u_entries (l_unstable l') = []" "u_snapshot (l_unstable l') = None" "l_committed l' = l_committed (r_raftLog (rn_raft rn))"
    "l_storage l' = l_storage (r_raftLog (rn_raft rn))" "l_applied l' = l_committed l'"
proof -
  let ?l = "r_raftLog (rn_raft rn)"
  have st: "log_struct ?l" using inv by simp
  have rde: "rd_Entries rd = u_entries (l_unstable ?l)"
    "rd_Snapshot rd = (case u_snapshot (l_unstable ?l) of None \<Rightarrow> zero_snapshot | Some s \<Rightarrow> s)"
    "rd_HardState rd = (if \<not> isHardStateEqual (hardState (rn_raft rn)) (rn_prevHardSt rn) then hardState (rn_raft rn) else emptyState)"
    using rd by (auto simp: rn_newReady_def newReady_def l_unstableEntries_def bind_eq_Some_conv)
  define hs where "hs = (if \<not> IsEmptyHardState (rd_HardState rd) then rd_HardState rd else rn_prevHardSt rn)"
  obtain l1 l2 where l1: "(if HCommit hs \<noteq> 0 then l_appliedTo (HCommit hs) ?l else Some ?l) = Some l1"
    and l2: "(if u_entries (l_unstable ?l) \<noteq> [] then l_stableTo (EIndex (last (u_entries (l_unstable ?l))))
         (ETerm (last (u_entries (l_unstable ?l)))) l1 else Some l1) = Some l2"
    and l': "l' = (if \<not> IsEmptySnap (rd_Snapshot rd) then l_stableSnapTo (snap_index (rd_Snapshot rd)) l2 else l2)"
    using ad unfolding rn_commitReady_def l'_def hs_def rde(1)
    by (cases "rd_SoftState rd") (auto simp: Let_def bind_eq_Some_conv split: if_splits)
  have b: "l_applied ?l \<le> l_committed ?l" using inv by (simp add: log_inv_def)
  have hc: "HCommit hs = l_committed ?l \<or> HCommit hs = 0 \<and> l_committed ?l = 0 \<or> l_committed ?l = 0"
    by (auto simp: hs_def rde(3) isHardStateEqual_def IsEmptyHardState_def hardState_def emptyState_def)
  have f1: "l_unstable l1 = l_unstable ?l" "l_committed l1 = l_committed ?l" "l_storage l1 = l_storage ?l" "l_applied l1 = l_committed ?l"
    using l1 hc b by (auto simp: l_appliedTo_def split: if_splits)
  have us: "u_entries (l_unstable l2) = [] \<and> u_snapshot (l_unstable l2) = u_snapshot (l_unstable ?l) \<and>
      l_committed l2 = l_committed ?l \<and> l_storage l2 = l_storage ?l \<and> l_applied l2 = l_committed ?l"
  proof (cases "u_entries (l_unstable ?l) = []")
    case False
    from u_stableTo_prefix [OF st _ False, of "[]"] l2 f1 False show ?thesis by (auto simp: l_stableTo_def)
  qed (use l2 f1 in auto)
  show "u_entries (l_unstable l') = []" "l_committed l' = l_committed ?l" "l_storage l' = l_storage ?l" "l_applied l' = l_committed l'"
    using us by (auto simp: l' l_stableSnapTo_def u_stableSnapTo_def split: option.splits)
  show "u_snapshot (l_unstable l') = None"
    using us sn by (auto simp: l' rde(2) IsEmptySnap_def l_stableSnapTo_def u_stableSnapTo_def zero_snapshot_def split: option.splits)
qed

lemma commitReady_fields:
  assumes "rn_commitReady rd rn = Some rn'"
  shows "\<exists>l. rn_raft rn' = (rn_raft rn)\<lparr>r_raftLog := l\<rparr>"
    "rn_prevSoftSt rn' = (case rd_SoftState rd of None \<Rightarrow> rn_prevSoftSt rn | Some ss \<Rightarrow> ss)"
    "rn_prevHardSt rn' = (if \<not> IsEmptyHardState (rd_HardState rd) then rd_HardState rd else rn_prevHardSt rn)"
proof -
  define rn1 where "rn1 = (case rd_SoftState rd of None \<Rightarrow> rn | Some ss \<Rightarrow> rn\<lparr>rn_prevSoftSt := ss\<rparr>)"
  define rn2 where "rn2 = (if \<not> IsEmptyHardState (rd_HardState rd) then rn1\<lparr>rn_prevHardSt := rd_HardState rd\<rparr> else rn1)"
  obtain l where l: "rn' = rn2\<lparr>rn_raft := (rn_raft rn2)\<lparr>r_raftLog := l\<rparr>\<rparr>"
    using assms unfolding rn_commitReady_def Let_def rn1_def [symmetric] rn2_def [symmetric]
    by (auto simp: bind_eq_Some_conv)
  have "rn_raft rn2 = rn_raft rn" by (simp add: rn2_def rn1_def split: option.split)
  with l show "\<exists>l. rn_raft rn' = (rn_raft rn)\<lparr>r_raftLog := l\<rparr>" by auto
  show "rn_prevSoftSt rn' = (case rd_SoftState rd of None \<Rightarrow> rn_prevSoftSt rn | Some ss \<Rightarrow> ss)"
    "rn_prevHardSt rn' = (if \<not> IsEmptyHardState (rd_HardState rd) then rd_HardState rd else rn_prevHardSt rn)"
    by (simp_all add: l rn2_def rn1_def split: option.split)
qed

text \<open>C17. Nothing is delivered twice: after a Ready has been taken and acknowledged, and with no
  other event in between, there is nothing ready.  In particular no entry is applied twice.\<close>

theorem ready_delivered_once:
  assumes "log_inv (r_raftLog (rn_raft rn))"
    "\<forall>s. u_snapshot (l_unstable (r_raftLog (rn_raft rn))) = Some s \<longrightarrow> 0 < snap_index s"
    "rn_Ready rn = Some (rn1, rd)" "rn_Advance rd rn1 = Some rn2"
  shows "rn_HasReady rn2 = Some False"
proof -
  let ?r = "rn_raft rn"
  have rd: "rn_newReady rn = Some rd" and rn1: "rn1 = rn\<lparr>rn_raft := ?r\<lparr>r_msgs := []\<rparr>\<rparr>"
    using assms(3) by (auto simp: rn_Ready_def bind_eq_Some_conv)
  note l = commitReady_log [OF assms(1) rd _ assms(2), of rn2]
  have ad: "rn_commitReady rd (rn\<lparr>rn_raft := ?r\<lparr>r_msgs := []\<rparr>\<rparr>) = Some rn2"
    using assms(4) rn1 by (simp add: rn_Advance_def)
  let ?l = "r_raftLog (rn_raft rn2)"
  note F = commitReady_fields [OF ad]
  have rdf: "rd_SoftState rd = (if \<not> ss_equal (softState ?r) (rn_prevSoftSt rn) then Some (softState ?r) else None)"
    "rd_HardState rd = (if \<not> isHardStateEqual (hardState ?r) (rn_prevHardSt rn) then hardState ?r else emptyState)"
    using rd by (auto simp: rn_newReady_def newReady_def bind_eq_Some_conv)
  have r2: "ss_equal (softState ?r) (rn_prevSoftSt rn2)"
    "IsEmptyHardState (hardState ?r) \<or> isHardStateEqual (hardState ?r) (rn_prevHardSt rn2)"
    unfolding F(2,3) rdf by (auto simp: ss_equal_def isHardStateEqual_def IsEmptyHardState_def)
  obtain k where k: "rn_raft rn2 = ?r\<lparr>r_msgs := [], r_raftLog := k\<rparr>" using F(1) by auto
  have "softState (rn_raft rn2) = softState ?r" by (simp add: k softState_def)
  moreover have "hardState (rn_raft rn2) = hardState ?r" using l(3) [OF ad] by (simp add: k hardState_def)
  moreover have "r_msgs (rn_raft rn2) = []" by (simp add: k)
  moreover have "ms_inv (l_storage ?l)" using l(4) [OF ad] assms(1) by (simp add: log_inv_def log_wf_def log_struct_def Let_def)
  then have "l_hasNextEnts ?l = Some False"
    by (simp add: l_hasNextEnts_def l_firstIndex_def u_maybeFirstIndex_def l [OF ad] ms_views)
  ultimately show ?thesis using r2 l(1,2) [OF ad]
    by (auto simp: rn_HasReady_def Let_def l_unstableEntries_def)
qed

theorem ready_delivered_once_witness:
  "\<exists>rn1 rd rn2. rn_Ready rawnode1 = Some (rn1, rd) \<and> rn_Advance rd rn1 = Some rn2 \<and> rn_HasReady rn2 = Some False"
proof -
  have "case rn_Ready rawnode1 of None \<Rightarrow> False | Some (rn1, rd) \<Rightarrow> rn_Advance rd rn1 \<noteq> None" by code_simp
  then obtain rn1 rd rn2 where r: "rn_Ready rawnode1 = Some (rn1, rd)" "rn_Advance rd rn1 = Some rn2"
    by (auto split: option.splits)
  have "r_raftLog (rn_raft rawnode1) = log4" "u_snapshot (l_unstable log4) = None"
    by (simp_all add: rawnode1_def raft1_def log4_def)
  with ready_delivered_once [OF _ _ r] r log4_inv(1) show ?thesis by auto
qed

section \<open>Flow control\<close>

text \<open>C26. The ring buffer of the messages in flight is a window over a list of at most its size:
  adding to a full one panics, adding to one with room appends to the list, and freeing up to
  an index drops exactly the leading entries that are not above it, also when the entries
  wrap around the end of the buffer.\<close>

theorem inflights_window:
  assumes "in_inv w"
  shows "length (in_content w) \<le> in_size w \<and>
    (if length (in_content w) = in_size w then in_add x w = None
     else \<exists>w'. in_add x w = Some w' \<and> in_inv w' \<and> in_content w' = in_content w @ [x] \<and> in_size w' = in_size w) \<and>
    (\<exists>w'. in_freeTo x w = Some w' \<and> in_inv w' \<and> in_content w' = dropWhile (\<lambda>y. y \<le> x) (in_content w) \<and>
       in_size w' = in_size w)"
  using win.bounded [OF assms] win.full_iff [OF assms] win.add_full [OF assms] win.add_room [OF assms] win.freeTo_content [OF assms]
  by auto

definition ring4 :: inflights where
  "ring4 = \<lparr>in_start = 3, in_count = 2, in_size = 4, in_buffer = [9, 0, 0, 8]\<rparr>"

theorem inflights_window_witness:
  "\<exists>w'. in_freeTo 8 ring4 = Some w' \<and> in_inv w' \<and> in_content w' = [9] \<and> in_size w' = 4"
proof -
  have "in_inv ring4" "in_content ring4 = [8, 9]" "in_size ring4 = 4"
    by (simp_all add: ring4_def in_inv_def in_content_def in_pos_def Let_def upt_conv_Cons)
  then show ?thesis using inflights_window [of ring4 8] by auto
qed

end
