(* ===== verification/Raft_Pb_Decode.thy ===== *)
theory Raft_Pb_Decode
  imports Raft_Pb
begin

unbundle bit_operations_syntax

text \<open>
  The decoding half of \<^verbatim>\<open>raft/raftpb/raft.pb.go\<close>.  The generated \<^verbatim>\<open>Unmarshal\<close> methods are all the
  same loop over the fields of their message; here the loop is written once and a message is
  the table of its cases.  A result is a value, an error, or a panic: on 64-bit platforms an
  index that runs past \<^term>\<open>2 ^ 63\<close> wraps to a negative one, which passes the bounds check and
  then panics in the slice expression.  A loop that did not end would be \<^term>\<open>None\<close>.  The bytes
  of unknown fields, which the code keeps in \<^verbatim>\<open>XXX_unrecognized\<close>, are checked and dropped.
\<close>

section \<open>Results\<close>

datatype pb_err = ErrIntOverflowRaft | ErrUnexpectedEOF | ErrInvalidLengthRaft | ErrEndGroup
  | ErrIllegalTag | ErrWrongWireType | ErrIllegalWireType

datatype 'a dec = DOk 'a | DErr pb_err | DPanic

fun dec_then :: "'a dec \<Rightarrow> ('a \<Rightarrow> 'b dec) \<Rightarrow> 'b dec" where
  "dec_then (DOk x) f = f x"
| "dec_then (DErr e) f = DErr e"
| "dec_then DPanic f = DPanic"

abbreviation two63 :: nat where
  "two63 \<equiv> 9223372036854775808"

section \<open>Integers\<close>

text \<open>The loop that reads a variable-length integer; the bits past the 64th are shifted out.\<close>

function decodeVarint :: "bytes \<Rightarrow> nat \<Rightarrow> nat \<Rightarrow> u64 \<Rightarrow> (u64 \<times> nat) dec" where
  "decodeVarint data i shift v =
     (if shift \<ge> 64 then DErr ErrIntOverflowRaft
      else if length data \<le> i then DErr ErrUnexpectedEOF
      else let b = of_char (data ! i);
               v = v OR (push_bit shift (b mod 128) mod two64)
           in if b < 128 then DOk (v, i + 1) else decodeVarint data (i + 1) (shift + 7) v)"
  by pat_completeness auto
termination
  by (relation "measure (\<lambda>(data, i, shift, v). 64 - shift)") auto

declare decodeVarint.simps [simp del]

lemma decodeVarint_next: "decodeVarint data i shift v = DOk (w, j) \<Longrightarrow> i < j \<and> j \<le> length data"
  by (induction data i shift v rule: decodeVarint.induct)
    (subst (asm) (2) decodeVarint.simps, force simp: Let_def split: if_splits)

lemma decodeVarint_no_panic [simp]: "decodeVarint data i shift v \<noteq> DPanic"
  by (induction data i shift v rule: decodeVarint.induct) (subst decodeVarint.simps, auto simp: Let_def)

section \<open>Unknown fields\<close>

text \<open>Addition of Go's \<^verbatim>\<open>int\<close>.\<close>

definition wrap_int :: "int \<Rightarrow> int" where
  "wrap_int x = (x + 2 ^ 63) mod 2 ^ 64 - 2 ^ 63"

text \<open>
  \<^verbatim>\<open>skipRaft\<close> and the loop of its group case.  The position after a member of a group is
  larger than the one before it, or negative after an overflow; reading at a negative
  position panics.
\<close>

function skipRaft :: "bytes \<Rightarrow> int dec" and skipGroup :: "bytes \<Rightarrow> nat \<Rightarrow> int dec" where
  "skipRaft data =
     (if data = [] then DPanic
      else case decodeVarint data 0 0 0 of
        DErr e \<Rightarrow> DErr e
      | DPanic \<Rightarrow> DPanic
      | DOk (wire, i) \<Rightarrow>
          (let wireType = wire mod 8
           in if wireType = 0 then dec_then (decodeVarint data i 0 0) (\<lambda>(_, j). DOk (int j))
              else if wireType = 1 then DOk (int i + 8)
              else if wireType = 2 then dec_then (decodeVarint data i 0 0) (\<lambda>(v, j).
                if v \<ge> two63 then DErr ErrInvalidLengthRaft else DOk (wrap_int (int j + int v)))
              else if wireType = 3 then skipGroup data i
              else if wireType = 4 then DOk (int i)
              else if wireType = 5 then DOk (int i + 4)
              else DErr ErrIllegalWireType))"
| "skipGroup data start =
     (case decodeVarint data start 0 0 of
        DErr e \<Rightarrow> DErr e
      | DPanic \<Rightarrow> DPanic
      | DOk (innerWire, i) \<Rightarrow>
          if innerWire mod 8 = 4 then DOk (int i)
          else (case skipRaft (drop start data) of
                  DErr e \<Rightarrow> DErr e
                | DPanic \<Rightarrow> DPanic
                | DOk nxt \<Rightarrow>
                    if wrap_int (int start + nxt) \<le> int start then DPanic
                    else skipGroup data (nat (wrap_int (int start + nxt)))))"
  by pat_completeness auto
termination
proof (relation "measure (case_sum (\<lambda>data. 2 * length data + 1) (\<lambda>(data, i). 2 * (length data - i) + 2))", goal_cases)
  case 1
  then show ?case by simp
next
  case (2 data x wire i)
  then show ?case using decodeVarint_next [of data 0 0 0 wire i] by auto
next
  case (3 data start x innerWire i)
  then show ?case by simp
next
  case (4 data start x innerWire i nxt)
  then show ?case using decodeVarint_next [of data start 0 0 innerWire i] by (auto simp: nat_less_iff)
qed

declare skipRaft.simps [simp del] skipGroup.simps [simp del]

section \<open>Fields\<close>

text \<open>
  The cases of the switch: a number, a wire type and what is done from the position after
  the tag on.  The result is the next position and the message.
\<close>

type_synonym 'm handler = "bytes \<Rightarrow> nat \<Rightarrow> 'm \<Rightarrow> (nat \<times> 'm) dec option"

type_synonym 'm fields = "(nat \<times> nat \<times> 'm handler) list"

definition varint_field :: "(u64 \<Rightarrow> 'm \<Rightarrow> 'm) \<Rightarrow> 'm handler" where
  "varint_field put data i m = Some (dec_then (decodeVarint data i 0 0) (\<lambda>(v, j). DOk (j, put v m)))"

text \<open>The length of a field and its bytes.\<close>

definition read_chunk :: "bytes \<Rightarrow> nat \<Rightarrow> (nat \<times> bytes) dec" where
  "read_chunk data i = dec_then (decodeVarint data i 0 0) (\<lambda>(v, j).
     if v \<ge> two63 then DErr ErrInvalidLengthRaft
     else if j + v \<ge> two63 then DPanic
     else if j + v > length data then DErr ErrUnexpectedEOF
     else DOk (j + v, take v (drop j data)))"

definition bytes_field :: "(bytes option \<Rightarrow> 'm \<Rightarrow> 'm) \<Rightarrow> 'm handler" where
  "bytes_field put data i m = Some (dec_then (read_chunk data i) (\<lambda>(j, d). DOk (j, put (Some d) m)))"

definition message_field :: "(bytes \<Rightarrow> 'm \<Rightarrow> 'm dec option) \<Rightarrow> 'm handler" where
  "message_field unm data i m =
     (case read_chunk data i of
        DErr e \<Rightarrow> Some (DErr e)
      | DPanic \<Rightarrow> Some DPanic
      | DOk (j, d) \<Rightarrow> map_option (\<lambda>r. dec_then r (\<lambda>m. DOk (j, m))) (unm d m))"

text \<open>An unknown field is skipped.\<close>

definition skip_field :: "bytes \<Rightarrow> nat \<Rightarrow> 'm \<Rightarrow> (nat \<times> 'm) dec" where
  "skip_field data i m = dec_then (skipRaft (drop i data)) (\<lambda>skippy.
     if skippy < 0 then DErr ErrInvalidLengthRaft
     else if i + nat skippy \<ge> two63 then DPanic
     else if i + nat skippy > length data then DErr ErrUnexpectedEOF
     else DOk (i + nat skippy, m))"

definition unmarshal_field :: "'m fields \<Rightarrow> bytes \<Rightarrow> nat \<Rightarrow> 'm \<Rightarrow> (nat \<times> 'm) dec option" where
  "unmarshal_field fs data i m =
     (case decodeVarint data i 0 0 of
        DErr e \<Rightarrow> Some (DErr e)
      | DPanic \<Rightarrow> Some DPanic
      | DOk (wire, j) \<Rightarrow>
          (let fieldNum = (wire div 8) mod 2 ^ 32; wireType = wire mod 8
           in if wireType = 4 then Some (DErr ErrEndGroup)
              else if fieldNum = 0 \<or> fieldNum \<ge> 2 ^ 31 then Some (DErr ErrIllegalTag)
              else case map_of fs fieldNum of
                Some (wt, h) \<Rightarrow> if wireType \<noteq> wt then Some (DErr ErrWrongWireType) else h data j m
              | None \<Rightarrow> Some (skip_field data i m)))"

partial_function (option) unmarshal_loop :: "'m fields \<Rightarrow> bytes \<Rightarrow> nat \<Rightarrow> 'm \<Rightarrow> 'm dec option" where
  "unmarshal_loop fs data i m =
     (if i < length data
      then Option.bind (unmarshal_field fs data i m) (\<lambda>r.
        case r of
          DErr e \<Rightarrow> Some (DErr e)
        | DPanic \<Rightarrow> Some DPanic
        | DOk jm \<Rightarrow> unmarshal_loop fs data (fst jm) (snd jm))
      else if i > length data then Some (DErr ErrUnexpectedEOF)
      else Some (DOk m))"

declare unmarshal_loop.simps [code]

definition unmarshal :: "'m fields \<Rightarrow> bytes \<Rightarrow> 'm \<Rightarrow> 'm dec option" where
  "unmarshal fs data m = unmarshal_loop fs data 0 m"

section \<open>Messages\<close>

text \<open>The enumerations are the low 32 bits of what is read.\<close>

definition entry_type_of :: "u64 \<Rightarrow> EntryType" where
  "entry_type_of v = (let n = v mod 2 ^ 32 in
     if n = 0 then EntryNormal else if n = 1 then EntryConfChange else EntryTypeOther n)"

definition conf_change_type_of :: "u64 \<Rightarrow> ConfChangeType" where
  "conf_change_type_of v = (let n = v mod 2 ^ 32 in
     if n = 0 then ConfChangeAddNode else if n = 1 then ConfChangeRemoveNode
     else if n = 2 then ConfChangeUpdateNode else ConfChangeTypeOther n)"

definition message_types :: "MessageType list" where
  "message_types = [MsgHup, MsgBeat, MsgProp, MsgApp, MsgAppResp, MsgVote, MsgVoteResp, MsgSnap,
     MsgHeartbeat, MsgHeartbeatResp, MsgUnreachable, MsgSnapStatus, MsgCheckQuorum]"

definition message_type_of :: "u64 \<Rightarrow> MessageType" where
  "message_type_of v = (let n = v mod 2 ^ 32 in
     if n < length message_types then message_types ! n else MsgTypeOther n)"

definition Entry_fields :: "Entry fields" where
  "Entry_fields =
     [(1, 0, varint_field (\<lambda>v m. m\<lparr>EType := entry_type_of v\<rparr>)),
      (2, 0, varint_field (\<lambda>v m. m\<lparr>ETerm := v\<rparr>)),
      (3, 0, varint_field (\<lambda>v m. m\<lparr>EIndex := v\<rparr>)),
      (4, 2, bytes_field (\<lambda>d m. m\<lparr>EData := d\<rparr>))]"

definition Entry_Unmarshal :: "bytes \<Rightarrow> Entry \<Rightarrow> Entry dec option" where
  "Entry_Unmarshal data m = unmarshal Entry_fields data m"

definition HardState_fields :: "HardState fields" where
  "HardState_fields =
     [(1, 0, varint_field (\<lambda>v m. m\<lparr>HTerm := v\<rparr>)),
      (2, 0, varint_field (\<lambda>v m. m\<lparr>HVote := v\<rparr>)),
      (3, 0, varint_field (\<lambda>v m. m\<lparr>HCommit := v\<rparr>))]"

definition HardState_Unmarshal :: "bytes \<Rightarrow> HardState \<Rightarrow> HardState dec option" where
  "HardState_Unmarshal data m = unmarshal HardState_fields data m"

definition ConfState_fields :: "u64 list fields" where
  "ConfState_fields = [(1, 0, varint_field (\<lambda>v ns. ns @ [v]))]"

definition ConfState_Unmarshal :: "bytes \<Rightarrow> u64 list \<Rightarrow> u64 list dec option" where
  "ConfState_Unmarshal data m = unmarshal ConfState_fields data m"

definition ConfChange_fields :: "ConfChange fields" where
  "ConfChange_fields =
     [(1, 0, varint_field (\<lambda>v m. m\<lparr>CCID := v\<rparr>)),
      (2, 0, varint_field (\<lambda>v m. m\<lparr>CCType := conf_change_type_of v\<rparr>)),
      (3, 0, varint_field (\<lambda>v m. m\<lparr>CCNodeID := v\<rparr>)),
      (4, 2, bytes_field (\<lambda>d m. m\<lparr>CCContext := d\<rparr>))]"

definition ConfChange_Unmarshal :: "bytes \<Rightarrow> ConfChange \<Rightarrow> ConfChange dec option" where
  "ConfChange_Unmarshal data m = unmarshal ConfChange_fields data m"

text \<open>The decoding of a part of a message: its old value is the start value.\<close>

definition part :: "(bytes \<Rightarrow> 'p \<Rightarrow> 'p dec option) \<Rightarrow> ('m \<Rightarrow> 'p) \<Rightarrow> ('p \<Rightarrow> 'm \<Rightarrow> 'm) \<Rightarrow> bytes \<Rightarrow> 'm \<Rightarrow> 'm dec option" where
  "part unm get put data m = map_option (\<lambda>r. dec_then r (\<lambda>p. DOk (put p m))) (unm data (get m))"

definition SnapshotMetadata_fields :: "SnapshotMetadata fields" where
  "SnapshotMetadata_fields =
     [(1, 2, message_field (part ConfState_Unmarshal SConf (\<lambda>c m. m\<lparr>SConf := c\<rparr>))),
      (2, 0, varint_field (\<lambda>v m. m\<lparr>SIndex := v\<rparr>)),
      (3, 0, varint_field (\<lambda>v m. m\<lparr>STerm := v\<rparr>))]"

definition SnapshotMetadata_Unmarshal :: "bytes \<Rightarrow> SnapshotMetadata \<Rightarrow> SnapshotMetadata dec option" where
  "SnapshotMetadata_Unmarshal data m = unmarshal SnapshotMetadata_fields data m"

definition Snapshot_fields :: "Snapshot fields" where
  "Snapshot_fields =
     [(1, 2, bytes_field (\<lambda>d m. m\<lparr>SData := d\<rparr>)),
      (2, 2, message_field (part SnapshotMetadata_Unmarshal SMetadata (\<lambda>x m. m\<lparr>SMetadata := x\<rparr>)))]"

definition Snapshot_Unmarshal :: "bytes \<Rightarrow> Snapshot \<Rightarrow> Snapshot dec option" where
  "Snapshot_Unmarshal data m = unmarshal Snapshot_fields data m"

text \<open>The header fields of a message and the rest.\<close>

definition Message_head :: "Message fields" where
  "Message_head =
     [(1, 0, varint_field (\<lambda>v m. m\<lparr>MType := message_type_of v\<rparr>)),
      (2, 0, varint_field (\<lambda>v m. m\<lparr>MTo := v\<rparr>)),
      (3, 0, varint_field (\<lambda>v m. m\<lparr>MFrom := v\<rparr>)),
      (4, 0, varint_field (\<lambda>v m. m\<lparr>MTerm := v\<rparr>)),
      (5, 0, varint_field (\<lambda>v m. m\<lparr>MLogTerm := v\<rparr>)),
      (6, 0, varint_field (\<lambda>v m. m\<lparr>MIndex := v\<rparr>))]"

definition Message_body :: "Message fields" where
  "Message_body =
     [(7, 2, message_field (part Entry_Unmarshal (\<lambda>m. zero_entry) (\<lambda>e m. m\<lparr>MEntries := MEntries m @ [e]\<rparr>))),
      (8, 0, varint_field (\<lambda>v m. m\<lparr>MCommit := v\<rparr>)),
      (9, 2, message_field (part Snapshot_Unmarshal MSnapshot (\<lambda>s m. m\<lparr>MSnapshot := s\<rparr>))),
      (10, 0, varint_field (\<lambda>v m. m\<lparr>MReject := (v \<noteq> 0)\<rparr>)),
      (11, 0, varint_field (\<lambda>v m. m\<lparr>MRejectHint := v\<rparr>))]"

definition Message_Unmarshal :: "bytes \<Rightarrow> Message \<Rightarrow> Message dec option" where
  "Message_Unmarshal data m = unmarshal (Message_head @ Message_body) data m"

end
