(* ===== verification/Raft_Pb_Props.thy ===== *)
theory Raft_Pb_Props
  imports Raft_Pb_Decode "HOL-Library.Sublist" "HOL-Library.Code_Target_Nat"
begin

text \<open>
  Properties of the codec: what is marshalled is read back, decoding ends on every input, the
  computed sizes are exact, and the inputs on which decoding panics.
\<close>

section \<open>Integers\<close>

lemma or_push_bit:
  fixes v x :: nat
  assumes "v < 2 ^ s"
  shows "v OR push_bit s x = v + push_bit s x"
proof -
  have "v AND push_bit s x = 0"
  proof (rule bit_eqI)
    fix n
    have "take_bit s v = v" using assms by (simp add: take_bit_nat_eq_self)
    then have "bit v n \<Longrightarrow> n < s" by (metis bit_take_bit_iff)
    then show "bit (v AND push_bit s x) n = bit 0 n" by (auto simp: bit_simps)
  qed
  then show ?thesis by (simp add: disjunctive_add_eq_or)
qed

lemma of_char_byte [simp]: "n < 256 \<Longrightarrow> of_char (byte n) = n"
  by simp

lemma decodeVarint_encode:
  assumes "drop i data = encodeVarintRaft w @ rest" "shift < 64" "v < 2 ^ shift" "w < 2 ^ (64 - shift)"
  shows "decodeVarint data i shift v = DOk (v + w * 2 ^ shift, i + sovRaft w)"
  using assms
proof (induction w arbitrary: i shift v rule: encodeVarintRaft.induct)
  case (1 w)
  let ?b = "if w \<ge> 128 then w mod 128 + 128 else w"
  have d: "drop i data = byte ?b # (if w \<ge> 128 then encodeVarintRaft (w div 128) @ rest else rest)"
    using "1.prems"(1) by (subst (asm) encodeVarintRaft.simps) simp
  then have i: "i < length data" by (metis drop_all list.distinct(1) not_le)
  then have b: "data ! i = byte ?b" using d by (metis Cons_nth_drop_Suc list.inject)
  have b256: "?b < 256" by auto
  have bm: "?b mod 128 = w mod 128" by auto
  have dr: "drop (Suc i) data = (if w \<ge> 128 then encodeVarintRaft (w div 128) @ rest else rest)"
    using arg_cong [OF d, of tl] by (simp add: drop_Suc tl_drop)
  have sm: "w mod 128 * 2 ^ shift < two64"
  proof -
    have "w mod 128 * 2 ^ shift \<le> w * 2 ^ shift" by simp
    also have "\<dots> < 2 ^ (64 - shift) * 2 ^ shift" using "1.prems"(4) by simp
    also have "\<dots> = 2 ^ 64" using "1.prems"(2) by (simp flip: power_add)
    finally show ?thesis by simp
  qed
  have v': "v OR (push_bit shift (w mod 128) mod two64) = v + w mod 128 * 2 ^ shift"
    using sm or_push_bit [OF "1.prems"(3), of "w mod 128"] by (simp add: push_bit_eq_mult)
  show ?case
  proof (cases "w \<ge> 128")
    case False
    then show ?thesis using i b b256 bm v' "1.prems"(2)
      by (subst decodeVarint.simps, subst sovRaft.simps) (simp add: Let_def)
  next
    case True
    have s: "shift + 7 < 64"
    proof (rule ccontr)
      assume "\<not> shift + 7 < 64"
      then have "64 - shift \<le> 7" by simp
      then have "(2::nat) ^ (64 - shift) \<le> 2 ^ 7" by (rule power_increasing) simp
      then show False using "1.prems"(4) True by simp
    qed
    have w: "w div 128 < 2 ^ (64 - (shift + 7))"
    proof -
      define k where "k = 64 - (shift + 7)"
      have e: "64 - shift = k + 7" using s by (simp add: k_def)
      have "w < 2 ^ k * 128" using "1.prems"(4) unfolding e by (simp add: power_add)
      then show ?thesis by (simp add: less_mult_imp_div_less k_def)
    qed
    have vb: "v + w mod 128 * 2 ^ shift < 2 ^ (shift + 7)"
    proof -
      have "w mod 128 \<le> 127" using mod_less_divisor [of 128 w] by linarith
      then have "w mod 128 * 2 ^ shift \<le> 127 * 2 ^ shift" by (rule mult_le_mono1)
      then have "v + w mod 128 * 2 ^ shift < 2 ^ shift + 127 * 2 ^ shift" using "1.prems"(3) by linarith
      then show ?thesis by (simp add: power_add)
    qed
    have dd: "drop (Suc i) data = encodeVarintRaft (w div 128) @ rest" using dr True by simp
    have "decodeVarint data i shift v = decodeVarint data (Suc i) (shift + 7) (v + w mod 128 * 2 ^ shift)"
      using i b b256 bm v' "1.prems"(2) True by (subst decodeVarint.simps) (simp add: Let_def)
    also have "\<dots> = DOk (v + w mod 128 * 2 ^ shift + w div 128 * 2 ^ (shift + 7), Suc i + sovRaft (w div 128))"
      by (rule "1.IH" [OF True dd s vb w])
    also have "v + w mod 128 * 2 ^ shift + w div 128 * 2 ^ (shift + 7) = v + w * 2 ^ shift"
    proof -
      have "w mod 128 * 2 ^ shift + w div 128 * 2 ^ (shift + 7) = (w mod 128 + w div 128 * 128) * 2 ^ shift"
        by (simp only: power_add add_mult_distrib mult.assoc mult.commute [of "2 ^ shift"]) simp
      also have "w mod 128 + w div 128 * 128 = w" by simp
      finally show ?thesis by simp
    qed
    also have "Suc i + sovRaft (w div 128) = i + sovRaft w"
      using True by (subst (2) sovRaft.simps) (simp add: div_eq_0_iff)
    finally show ?thesis .
  qed
qed

lemma decode_u64:
  "drop i data = encodeVarintRaft w @ rest \<Longrightarrow> w < two64 \<Longrightarrow> decodeVarint data i 0 0 = DOk (w, i + sovRaft w)"
  using decodeVarint_encode [of i data w rest 0 0] by simp

section \<open>Reading fields back\<close>

text \<open>The loop at the position where \<open>rest\<close> is left of the data.\<close>

definition unmarshal_rest :: "'m fields \<Rightarrow> bytes \<Rightarrow> bytes \<Rightarrow> 'm \<Rightarrow> 'm dec option" where
  "unmarshal_rest fs data rest m = unmarshal_loop fs data (length data - length rest) m"

lemma unmarshal_start: "unmarshal fs data m = unmarshal_rest fs data data m"
  by (simp add: unmarshal_def unmarshal_rest_def)

lemma unmarshal_rest_Nil [simp]: "unmarshal_rest fs data [] m = Some (DOk m)"
  by (simp add: unmarshal_rest_def unmarshal_loop.simps [of fs data "length data"])

lemma suffix_drop:
  assumes "suffix (xs @ rest) data"
  shows "drop (length data - length (xs @ rest)) data = xs @ rest"
    "length data - length (xs @ rest) + length xs = length data - length rest"
    "suffix rest data"
  using assms by (auto simp: suffix_def)

text \<open>A tag byte with its field number and wire type.\<close>

lemma unmarshal_tag:
  assumes "suffix (byte (8 * f + wt) # xs @ rest) data" "0 < f" "8 * f + wt < 128" "wt < 8" "wt \<noteq> 4"
    "map_of fs f = Some (wt, h)"
    "\<And>i. drop i data = xs @ rest \<Longrightarrow> i \<le> length data \<Longrightarrow> h data i m = Some (DOk (i + length xs, m'))"
  shows "unmarshal_rest fs data (byte (8 * f + wt) # xs @ rest) m = unmarshal_rest fs data rest m'"
proof -
  let ?t = "byte (8 * f + wt)"
  let ?i = "length data - length (?t # xs @ rest)"
  note S = suffix_drop [of "?t # xs" rest data, simplified, OF assms(1)]
  have i: "?i < length data" "?i + length xs + 1 = length data - length rest"
    using assms(1) by (auto simp: suffix_def)
  have d: "drop ?i data = encodeVarintRaft (8 * f + wt) @ xs @ rest"
    using S(1) assms(3) by (simp add: encodeVarintRaft.simps)
  have "sovRaft (8 * f + wt) = 1" using assms(3) by (simp add: sovRaft.simps)
  with decode_u64 [OF d] assms(3) have t: "decodeVarint data ?i 0 0 = DOk (8 * f + wt, ?i + 1)" by simp
  have d': "drop (?i + 1) data = xs @ rest" using arg_cong [OF S(1), of tl] by (simp add: drop_Suc tl_drop)
  have f: "(8 * f + wt) div 8 = f" "(8 * f + wt) mod 8 = wt" using assms(4) by simp_all
  have "?i + 1 \<le> length data" "?i + 1 + length xs = length data - length rest" using i by simp_all
  with assms(7) [OF d'] have "h data (?i + 1) m = Some (DOk (length data - length rest, m'))" by metis
  then have "unmarshal_field fs data ?i m = Some (DOk (length data - length rest, m'))"
    using t f assms(2,3,5,6) by (simp add: unmarshal_field_def)
  then have "unmarshal_loop fs data ?i m = unmarshal_loop fs data (length data - length rest) m'"
    using i(1) by (subst unmarshal_loop.simps) simp
  then show ?thesis by (simp add: unmarshal_rest_def)
qed

lemma unmarshal_varint:
  assumes "suffix (put_varint (8 * f) v @ rest) data" "0 < f" "f < 16" "map_of fs f = Some (0, varint_field put)" "v < two64"
  shows "unmarshal_rest fs data (put_varint (8 * f) v @ rest) m = unmarshal_rest fs data rest (put v m)"
  using unmarshal_tag [of f 0 "encodeVarintRaft v" rest data fs "varint_field put" m "put v m"] assms decode_u64 [of _ data v rest]
  by (simp add: put_varint_def varint_field_def encodeVarintRaft_length)

lemma read_chunk_put:
  assumes "drop i data = encodeVarintRaft (length d) @ d @ rest" "i \<le> length data" "length data < two63"
  shows "read_chunk data i = DOk (i + sovRaft (length d) + length d, d)"
proof -
  have "length (drop i data) = sovRaft (length d) + length d + length rest"
    by (simp only: assms(1)) (simp add: encodeVarintRaft_length)
  then have l: "i + sovRaft (length d) + length d \<le> length data" using assms(2) by simp
  have "drop (i + sovRaft (length d)) data = drop (sovRaft (length d)) (drop i data)" by (simp add: add.commute)
  also have "\<dots> = d @ rest" by (simp add: assms(1) encodeVarintRaft_length)
  finally have "take (length d) (drop (i + sovRaft (length d)) data) = d" by simp
  then show ?thesis using decode_u64 [OF assms(1)] l assms(3) by (simp add: read_chunk_def)
qed

lemma unmarshal_bytes:
  assumes "suffix (put_chunk (8 * f + 2) d @ rest) data" "0 < f" "f < 15" "map_of fs f = Some (2, bytes_field put)" "length data < two63"
  shows "unmarshal_rest fs data (put_chunk (8 * f + 2) d @ rest) m = unmarshal_rest fs data rest (put (Some d) m)"
  using unmarshal_tag [of f 2 "encodeVarintRaft (length d) @ d" rest data fs "bytes_field put" m "put (Some d) m"]
    assms read_chunk_put [of _ data d rest]
  by (simp add: put_chunk_def bytes_field_def encodeVarintRaft_length)

lemma unmarshal_message:
  assumes "suffix (put_message (8 * f + 2) n d @ rest) data" "0 < f" "f < 15" "map_of fs f = Some (2, message_field (part unm get put))"
    "length data < two63" "n = length d" "unm d (get m) = Some (DOk p)"
  shows "unmarshal_rest fs data (put_message (8 * f + 2) n d @ rest) m = unmarshal_rest fs data rest (put p m)"
  using unmarshal_tag [of f 2 "encodeVarintRaft (length d) @ d" rest data fs "message_field (part unm get put)" m "put p m"]
    assms read_chunk_put [of _ data d rest]
  by (simp add: put_message_def message_field_def part_def encodeVarintRaft_length)

section \<open>Round trips\<close>

text \<open>Values that Go can hold: 64-bit fields, and an enumeration value in one form only.\<close>

definition Entry_ok :: "Entry \<Rightarrow> bool" where
  "Entry_ok e \<longleftrightarrow> entry_type_of (entry_type_num (EType e)) = EType e \<and> ETerm e < two64 \<and> EIndex e < two64"

definition HardState_ok :: "HardState \<Rightarrow> bool" where
  "HardState_ok h \<longleftrightarrow> HTerm h < two64 \<and> HVote h < two64 \<and> HCommit h < two64"

definition ConfChange_ok :: "ConfChange \<Rightarrow> bool" where
  "ConfChange_ok c \<longleftrightarrow> CCID c < two64 \<and> conf_change_type_of (conf_change_type_num (CCType c)) = CCType c \<and> CCNodeID c < two64"

definition SnapshotMetadata_ok :: "SnapshotMetadata \<Rightarrow> bool" where
  "SnapshotMetadata_ok s \<longleftrightarrow> (\<forall>n \<in> set (SConf s). n < two64) \<and> SIndex s < two64 \<and> STerm s < two64"

definition Message_ok :: "Message \<Rightarrow> bool" where
  "Message_ok m \<longleftrightarrow> message_type_of (message_type_num (MType m)) = MType m \<and> MTo m < two64 \<and> MFrom m < two64 \<and>
     MTerm m < two64 \<and> MLogTerm m < two64 \<and> MIndex m < two64 \<and> list_all Entry_ok (MEntries m) \<and> MCommit m < two64 \<and>
     SnapshotMetadata_ok (SMetadata (MSnapshot m)) \<and> MRejectHint m < two64"

lemma int32_u64_bound: "int32_u64 n < two64"
  by (simp add: int32_u64_def Let_def)

lemma type_num_bound: "entry_type_num t < two64" "message_type_num mt < two64" "conf_change_type_num c < two64"
proof -
  show "entry_type_num t < two64" by (cases t) (simp_all add: int32_u64_bound)
  show "message_type_num mt < two64" by (cases mt) (simp_all add: int32_u64_bound)
  show "conf_change_type_num c < two64" by (cases c) (simp_all add: int32_u64_bound)
qed

lemmas unmarshal_varints = unmarshal_varint [of 1, simplified] unmarshal_varint [of 2, simplified] unmarshal_varint [of 3, simplified]
  unmarshal_varint [of 4, simplified] unmarshal_varint [of 5, simplified] unmarshal_varint [of 6, simplified]
  unmarshal_varint [of 8, simplified] unmarshal_varint [of 11, simplified]

text \<open>The optional bytes at the end of a message.\<close>

lemma unmarshal_last_bytes:
  assumes "suffix (put_bytes (8 * f + 2) d) data" "0 < f" "f < 15" "map_of fs f = Some (2, bytes_field put)" "length data < two63"
  shows "unmarshal_rest fs data (put_bytes (8 * f + 2) d) m = Some (DOk (case d of None \<Rightarrow> m | Some x \<Rightarrow> put (Some x) m))"
  using unmarshal_bytes [of f _ "[]" data fs put m] assms by (simp add: put_bytes_def split: option.splits)

lemma Entry_decode:
  assumes "Entry_ok e" "entry_Size e < two63"
  shows "Entry_Unmarshal (Entry_MarshalTo e) zero_entry = Some (DOk e)"
proof -
  define D where "D = Entry_MarshalTo e"
  have l: "length D < two63" using assms(2) by (simp add: D_def pb_size)
  have s0: "suffix (Entry_MarshalTo e) D" by (simp add: D_def)
  note s0 = s0 [unfolded Entry_MarshalTo_def]
  note s1 = suffix_appendD [OF s0] note s2 = suffix_appendD [OF s1] note s3 = suffix_appendD [OF s2]
  let ?fs = Entry_fields
  note v = unmarshal_varint [where fs = ?fs and data = D]
  have "unmarshal_rest ?fs D (Entry_MarshalTo e) zero_entry =
      unmarshal_rest ?fs D (put_bytes 34 (EData e)) (zero_entry\<lparr>EType := EType e, ETerm := ETerm e, EIndex := EIndex e\<rparr>)"
    unfolding Entry_MarshalTo_def
    using v [of 1, simplified, OF s0] v [of 2, simplified, OF s1] v [of 3, simplified, OF s2] type_num_bound assms(1)
    by (simp add: Entry_fields_def Entry_ok_def)
  also have "\<dots> = Some (DOk e)"
    using unmarshal_last_bytes [of 4, simplified, OF s3 _ l, where fs = ?fs]
    by (simp add: Entry_fields_def zero_entry_def split: option.split)
  finally show ?thesis by (simp add: Entry_Unmarshal_def unmarshal_start D_def)
qed

lemma HardState_decode:
  assumes "HardState_ok h"
  shows "HardState_Unmarshal (HardState_MarshalTo h) emptyState = Some (DOk h)"
proof -
  define D where "D = HardState_MarshalTo h"
  have s0: "suffix (HardState_MarshalTo h @ []) D" by (simp add: D_def)
  note s0 = s0 [unfolded HardState_MarshalTo_def append_assoc]
  note s1 = suffix_appendD [OF s0] note s2 = suffix_appendD [OF s1]
  note v = unmarshal_varint [where fs = HardState_fields and data = D]
  have "unmarshal_rest HardState_fields D (HardState_MarshalTo h @ []) emptyState = Some (DOk h)"
    unfolding HardState_MarshalTo_def append_assoc
    using v [of 1, simplified, OF s0 [simplified]] v [of 2, simplified, OF s1 [simplified]]
      v [of 3 _ "[]", simplified, OF s2 [simplified]] assms
    by (simp add: HardState_fields_def HardState_ok_def emptyState_def)
  then show ?thesis by (simp add: HardState_Unmarshal_def unmarshal_start D_def)
qed

lemma ConfChange_decode:
  assumes "ConfChange_ok c" "ConfChange_Size c < two63"
  shows "ConfChange_Unmarshal (ConfChange_MarshalTo c)
    \<lparr>CCID = 0, CCType = ConfChangeAddNode, CCNodeID = 0, CCContext = None\<rparr> = Some (DOk c)"
proof -
  define D where "D = ConfChange_MarshalTo c"
  have l: "length D < two63" using assms(2) by (simp add: D_def pb_size)
  have s0: "suffix (ConfChange_MarshalTo c) D" by (simp add: D_def)
  note s0 = s0 [unfolded ConfChange_MarshalTo_def]
  note s1 = suffix_appendD [OF s0] note s2 = suffix_appendD [OF s1] note s3 = suffix_appendD [OF s2]
  let ?fs = ConfChange_fields and ?z = "\<lparr>CCID = 0, CCType = ConfChangeAddNode, CCNodeID = 0, CCContext = None\<rparr>"
  note v = unmarshal_varint [where fs = ?fs and data = D]
  have "unmarshal_rest ?fs D (ConfChange_MarshalTo c) ?z =
      unmarshal_rest ?fs D (put_bytes 34 (CCContext c)) (?z\<lparr>CCID := CCID c, CCType := CCType c, CCNodeID := CCNodeID c\<rparr>)"
    unfolding ConfChange_MarshalTo_def
    using v [of 1, simplified, OF s0] v [of 2, simplified, OF s1] v [of 3, simplified, OF s2] type_num_bound assms(1)
    by (simp add: ConfChange_fields_def ConfChange_ok_def)
  also have "\<dots> = Some (DOk c)"
    using unmarshal_last_bytes [of 4, simplified, OF s3 _ l, where fs = ?fs]
    by (simp add: ConfChange_fields_def split: option.split)
  finally show ?thesis by (simp add: ConfChange_Unmarshal_def unmarshal_start D_def)
qed

lemma ConfState_rest:
  "suffix (ConfState_MarshalTo ns) D \<Longrightarrow> \<forall>n \<in> set ns. n < two64 \<Longrightarrow>
     unmarshal_rest ConfState_fields D (ConfState_MarshalTo ns) ms = Some (DOk (ms @ ns))"
proof (induction ns arbitrary: ms)
  case Nil
  then show ?case by (simp add: ConfState_MarshalTo_def)
next
  case (Cons n ns)
  have e: "ConfState_MarshalTo (n # ns) = put_varint 8 n @ ConfState_MarshalTo ns" by (simp add: ConfState_MarshalTo_def)
  note s0 = Cons.prems(1) [unfolded e]
  show ?case
    using unmarshal_varint [of 1, simplified, OF s0, where fs = ConfState_fields and put = "\<lambda>v ns. ns @ [v]"]
      Cons.IH [OF suffix_appendD [OF s0]] Cons.prems(2)
    by (simp add: e ConfState_fields_def)
qed

lemma ConfState_decode: "\<forall>n \<in> set ns. n < two64 \<Longrightarrow> ConfState_Unmarshal (ConfState_MarshalTo ns) [] = Some (DOk ns)"
  using ConfState_rest [of ns "ConfState_MarshalTo ns" "[]"] by (simp add: ConfState_Unmarshal_def unmarshal_start)

lemma SnapshotMetadata_decode:
  assumes "SnapshotMetadata_ok s" "SnapshotMetadata_Size s < two63"
  shows "SnapshotMetadata_Unmarshal (SnapshotMetadata_MarshalTo s) \<lparr>SConf = [], SIndex = 0, STerm = 0\<rparr> = Some (DOk s)"
proof -
  define D where "D = SnapshotMetadata_MarshalTo s"
  let ?fs = SnapshotMetadata_fields and ?z = "\<lparr>SConf = [], SIndex = 0, STerm = 0\<rparr>"
  have l: "length D < two63" using assms(2) by (simp add: D_def pb_size)
  have s0: "suffix (SnapshotMetadata_MarshalTo s @ []) D" by (simp add: D_def)
  note s0 = s0 [unfolded SnapshotMetadata_MarshalTo_def append_assoc]
  note s1 = suffix_appendD [OF s0] note s2 = suffix_appendD [OF s1]
  note v = unmarshal_varint [where fs = ?fs and data = D]
  have "unmarshal_rest ?fs D (SnapshotMetadata_MarshalTo s @ []) ?z =
      unmarshal_rest ?fs D (put_varint 16 (SIndex s) @ put_varint 24 (STerm s) @ []) (?z\<lparr>SConf := SConf s\<rparr>)"
    unfolding SnapshotMetadata_MarshalTo_def append_assoc
    using unmarshal_message [of 1, simplified, OF s0 [simplified] _ l, where fs = ?fs and unm = ConfState_Unmarshal
        and get = SConf and put = "\<lambda>c m. m\<lparr>SConf := c\<rparr>" and m = ?z and p = "SConf s"] assms(1) ConfState_decode [of "SConf s"]
    by (simp add: SnapshotMetadata_fields_def SnapshotMetadata_ok_def pb_size)
  also have "\<dots> = Some (DOk s)"
    using v [of 2, simplified, OF s1 [simplified]] v [of 3 _ "[]", simplified, OF s2 [simplified]] assms(1)
    by (simp add: SnapshotMetadata_fields_def SnapshotMetadata_ok_def)
  finally show ?thesis by (simp add: SnapshotMetadata_Unmarshal_def unmarshal_start D_def)
qed

lemma Snapshot_decode:
  assumes "SnapshotMetadata_ok (SMetadata s)" "Snapshot_Size s < two63"
  shows "Snapshot_Unmarshal (Snapshot_MarshalTo s) zero_snapshot = Some (DOk s)"
proof -
  define D where "D = Snapshot_MarshalTo s"
  let ?fs = Snapshot_fields
  have l: "length D < two63" using assms(2) by (simp add: D_def pb_size)
  have s0: "suffix (Snapshot_MarshalTo s @ []) D" by (simp add: D_def)
  note s0 = s0 [unfolded Snapshot_MarshalTo_def append_assoc]
  note s1 = suffix_appendD [OF s0]
  have sz: "SnapshotMetadata_Size (SMetadata s) < two63" using assms(2) by (simp add: Snapshot_Size_def size_chunk_def)
  let ?mt = "put_message 18 (SnapshotMetadata_Size (SMetadata s)) (SnapshotMetadata_MarshalTo (SMetadata s))"
  have "unmarshal_rest ?fs D (Snapshot_MarshalTo s @ []) zero_snapshot = unmarshal_rest ?fs D (?mt @ []) (zero_snapshot\<lparr>SData := SData s\<rparr>)"
    unfolding Snapshot_MarshalTo_def append_assoc
  proof (cases "SData s")
    case (Some d)
    then show "unmarshal_rest ?fs D (put_bytes 10 (SData s) @ ?mt @ []) zero_snapshot = unmarshal_rest ?fs D (?mt @ []) (zero_snapshot\<lparr>SData := SData s\<rparr>)"
      using unmarshal_bytes [of 1 d "?mt @ []" D ?fs "\<lambda>d m. m\<lparr>SData := d\<rparr>" zero_snapshot] s0 l
      by (simp add: put_bytes_def Snapshot_fields_def)
  qed (simp add: put_bytes_def zero_snapshot_def)
  also have "\<dots> = Some (DOk s)"
    using unmarshal_message [of 2, simplified, OF s1 _ l, where fs = ?fs and unm = SnapshotMetadata_Unmarshal and get = SMetadata
        and put = "\<lambda>x m. m\<lparr>SMetadata := x\<rparr>" and m = "zero_snapshot\<lparr>SData := SData s\<rparr>" and p = "SMetadata s"]
      SnapshotMetadata_decode [OF assms(1) sz]
    by (simp add: Snapshot_fields_def zero_snapshot_def pb_size)
  finally show ?thesis by (simp add: Snapshot_Unmarshal_def unmarshal_start D_def)
qed

abbreviation Message_fields :: "Message fields" where
  "Message_fields \<equiv> Message_head @ Message_body"

lemma Message_lookup:
  "map_of Message_fields 1 = Some (0, varint_field (\<lambda>v m. m\<lparr>MType := message_type_of v\<rparr>))"
  "map_of Message_fields 2 = Some (0, varint_field (\<lambda>v m. m\<lparr>MTo := v\<rparr>))"
  "map_of Message_fields 3 = Some (0, varint_field (\<lambda>v m. m\<lparr>MFrom := v\<rparr>))"
  "map_of Message_fields 4 = Some (0, varint_field (\<lambda>v m. m\<lparr>MTerm := v\<rparr>))"
  "map_of Message_fields 5 = Some (0, varint_field (\<lambda>v m. m\<lparr>MLogTerm := v\<rparr>))"
  "map_of Message_fields 6 = Some (0, varint_field (\<lambda>v m. m\<lparr>MIndex := v\<rparr>))"
  "map_of Message_fields 7 = Some (2, message_field (part Entry_Unmarshal (\<lambda>m. zero_entry) (\<lambda>e m. m\<lparr>MEntries := MEntries m @ [e]\<rparr>)))"
  "map_of Message_fields 8 = Some (0, varint_field (\<lambda>v m. m\<lparr>MCommit := v\<rparr>))"
  "map_of Message_fields 9 = Some (2, message_field (part Snapshot_Unmarshal MSnapshot (\<lambda>s m. m\<lparr>MSnapshot := s\<rparr>)))"
  "map_of Message_fields 10 = Some (0, varint_field (\<lambda>v m. m\<lparr>MReject := (v \<noteq> 0)\<rparr>))"
  "map_of Message_fields 11 = Some (0, varint_field (\<lambda>v m. m\<lparr>MRejectHint := v\<rparr>))"
  by (simp_all add: Message_head_def Message_body_def)

lemma Message_entries:
  assumes "suffix (concat (map (\<lambda>e. put_message 58 (entry_Size e) (Entry_MarshalTo e)) es) @ rest) D"
    "list_all Entry_ok es" "length D < two63"
  shows "unmarshal_rest Message_fields D (concat (map (\<lambda>e. put_message 58 (entry_Size e) (Entry_MarshalTo e)) es) @ rest) m =
    unmarshal_rest Message_fields D rest (m\<lparr>MEntries := MEntries m @ es\<rparr>)"
  using assms
proof (induction es arbitrary: m)
  case (Cons e es)
  let ?r = "concat (map (\<lambda>e. put_message 58 (entry_Size e) (Entry_MarshalTo e)) es) @ rest"
  have s: "suffix (put_message 58 (entry_Size e) (Entry_MarshalTo e) @ ?r) D" using Cons.prems(1) by simp
  have "entry_Size e < length (put_message 58 (entry_Size e) (Entry_MarshalTo e) @ ?r)" by (simp add: pb_size size_chunk_def)
  also have "\<dots> \<le> length D" using s by (auto simp: suffix_def)
  finally have "Entry_Unmarshal (Entry_MarshalTo e) zero_entry = Some (DOk e)"
    using Entry_decode Cons.prems(2,3) by simp
  then have "unmarshal_rest Message_fields D (put_message 58 (entry_Size e) (Entry_MarshalTo e) @ ?r) m =
      unmarshal_rest Message_fields D ?r (m\<lparr>MEntries := MEntries m @ [e]\<rparr>)"
    using unmarshal_message [of 7, simplified, OF s Message_lookup(7) Cons.prems(3), where m = m and p = e] by (simp add: pb_size)
  with Cons.IH [OF suffix_appendD [OF s]] Cons.prems(2,3) show ?case by simp
qed simp

lemma Message_decode:
  assumes "Message_ok m" "Message_Size m < two63"
  shows "Message_Unmarshal (Message_MarshalTo m) zero_message = Some (DOk m)"
proof -
  define D where "D = Message_MarshalTo m"
  let ?fs = Message_fields
  let ?t0 = "put_varint 88 (MRejectHint m) @ []"
  let ?t1 = "put_varint 80 (if MReject m then 1 else 0) @ ?t0"
  let ?t2 = "put_message 74 (Snapshot_Size (MSnapshot m)) (Snapshot_MarshalTo (MSnapshot m)) @ ?t1"
  let ?t3 = "put_varint 64 (MCommit m) @ ?t2"
  let ?t4 = "concat (map (\<lambda>e. put_message 58 (entry_Size e) (Entry_MarshalTo e)) (MEntries m)) @ ?t3"
  let ?t5 = "put_varint 48 (MIndex m) @ ?t4" let ?t6 = "put_varint 40 (MLogTerm m) @ ?t5"
  let ?t7 = "put_varint 32 (MTerm m) @ ?t6" let ?t8 = "put_varint 24 (MFrom m) @ ?t7"
  let ?t9 = "put_varint 16 (MTo m) @ ?t8" let ?t10 = "put_varint 8 (message_type_num (MType m)) @ ?t9"
  have l: "length D < two63" using assms(2) by (simp add: D_def pb_size)
  have D: "D = ?t10"
    by (simp add: D_def Message_MarshalTo_def put_varint_def encodeVarintRaft.simps [of "Suc 0"] encodeVarintRaft.simps [of 0])
  have s10: "suffix ?t10 D" by (simp add: D)
  note s9 = suffix_appendD [OF s10] note s8 = suffix_appendD [OF s9] note s7 = suffix_appendD [OF s8]
  note s6 = suffix_appendD [OF s7] note s5 = suffix_appendD [OF s6] note s4 = suffix_appendD [OF s5]
  note s3 = suffix_appendD [OF s4] note s2 = suffix_appendD [OF s3] note s1 = suffix_appendD [OF s2] note s0 = suffix_appendD [OF s1]
  note ok = assms(1) [unfolded Message_ok_def]
  have "Snapshot_Size (MSnapshot m) < two63" using assms(2) by (simp add: Message_Size_def size_chunk_def)
  then have sn: "Snapshot_Unmarshal (Snapshot_MarshalTo (MSnapshot m)) zero_snapshot = Some (DOk (MSnapshot m))"
    using Snapshot_decode ok by simp
  let ?h = "zero_message\<lparr>MType := MType m, MTo := MTo m, MFrom := MFrom m, MTerm := MTerm m, MLogTerm := MLogTerm m, MIndex := MIndex m\<rparr>"
  have "unmarshal_rest ?fs D ?t10 zero_message = unmarshal_rest ?fs D ?t4 ?h"
    using unmarshal_varint [of 1, simplified, OF s10 Message_lookup(1) [unfolded One_nat_def]] unmarshal_varint [of 2, simplified, OF s9 Message_lookup(2)]
      unmarshal_varint [of 3, simplified, OF s8 Message_lookup(3)] unmarshal_varint [of 4, simplified, OF s7 Message_lookup(4)]
      unmarshal_varint [of 5, simplified, OF s6 Message_lookup(5)] unmarshal_varint [of 6, simplified, OF s5 Message_lookup(6)]
      type_num_bound(2) ok by simp
  also have "\<dots> = unmarshal_rest ?fs D ?t3 (?h\<lparr>MEntries := MEntries m\<rparr>)"
    using Message_entries [OF s4 _ l, of ?h] ok by (simp add: zero_message_def)
  also have "\<dots> = unmarshal_rest ?fs D ?t2 (?h\<lparr>MEntries := MEntries m, MCommit := MCommit m\<rparr>)"
    using unmarshal_varint [of 8, simplified, OF s3 Message_lookup(8)] ok by simp
  also have "\<dots> = unmarshal_rest ?fs D ?t1 (?h\<lparr>MEntries := MEntries m, MCommit := MCommit m, MSnapshot := MSnapshot m\<rparr>)"
    using unmarshal_message [of 9, simplified, OF s2 Message_lookup(9) l, where p = "MSnapshot m"
        and m = "?h\<lparr>MEntries := MEntries m, MCommit := MCommit m\<rparr>"] sn
    by (simp add: zero_message_def pb_size)
  also have "\<dots> = Some (DOk m)"
    using unmarshal_varint [of 10, simplified, OF s1 Message_lookup(10)] unmarshal_varint [of 11, simplified, OF s0 Message_lookup(11)] ok
    by (simp add: zero_message_def)
  finally have "unmarshal_rest ?fs D D zero_message = Some (DOk m)" by (simp only: D [symmetric])
  then show ?thesis by (simp add: Message_Unmarshal_def unmarshal_start D_def)
qed

text \<open>C10. A raft message that Go can hold survives the wire: marshalling it never runs out of the
  buffer, which has exactly the size of the encoding, and unmarshalling the result into a zero
  message gives the message back, with its entries, its snapshot and the nil or empty data of
  each.\<close>

theorem Message_roundtrip:
  assumes "Message_ok m" "Message_Size m < two63"
  shows "\<exists>d. Message_Marshal m = Some d \<and> length d = Message_Size m \<and> Message_Unmarshal d zero_message = Some (DOk m)"
  using Message_decode [OF assms] by (simp add: Marshal_total pb_size)

definition msg1 :: Message where
  "msg1 = zero_message\<lparr>MType := MsgApp, MTo := 2, MTerm := 18446744073709551615, MIndex := 300,
     MEntries := [zero_entry\<lparr>EIndex := 301, EData := Some ''x''\<rparr>, zero_entry\<lparr>EType := EntryConfChange, EData := Some []\<rparr>]\<rparr>"

theorem Message_roundtrip_witness:
  "\<exists>d. Message_Marshal msg1 = Some d \<and> Message_Unmarshal d zero_message = Some (DOk msg1)"
proof -
  have "Message_ok msg1"
    by (simp add: Message_ok_def msg1_def zero_message_def zero_snapshot_def zero_entry_def Entry_ok_def
        SnapshotMetadata_ok_def message_type_of_def message_types_def entry_type_of_def)
  moreover have "Message_Size msg1 < two63" by code_simp
  ultimately show ?thesis using Message_roundtrip [of msg1] by auto
qed

text \<open>C30. The hard state and a configuration change survive the wire as well.\<close>

theorem HardState_ConfChange_roundtrip:
  assumes "HardState_ok h" "ConfChange_ok c" "ConfChange_Size c < two63"
  shows "(\<exists>d. HardState_Marshal h = Some d \<and> HardState_Unmarshal d emptyState = Some (DOk h)) \<and>
    (\<exists>d. ConfChange_Marshal c = Some d \<and> ConfChange_Unmarshal d
      \<lparr>CCID = 0, CCType = ConfChangeAddNode, CCNodeID = 0, CCContext = None\<rparr> = Some (DOk c))"
  using HardState_decode ConfChange_decode assms by (simp add: Marshal_total)

theorem HardState_ConfChange_roundtrip_witness:
  "\<exists>d. HardState_Marshal \<lparr>HTerm = 7, HVote = 1, HCommit = 900\<rparr> = Some d \<and>
     HardState_Unmarshal d emptyState = Some (DOk \<lparr>HTerm = 7, HVote = 1, HCommit = 900\<rparr>)"
  using HardState_ConfChange_roundtrip [of "\<lparr>HTerm = 7, HVote = 1, HCommit = 900\<rparr>"
      "\<lparr>CCID = 1, CCType = ConfChangeRemoveNode, CCNodeID = 5, CCContext = None\<rparr>"]
  by (simp add: HardState_ok_def ConfChange_ok_def conf_change_type_of_def ConfChange_Size_def size_varint_def sovRaft.simps)

section \<open>Decoding ends\<close>

lemma skipGroup_advances: "skipGroup data start = DOk n \<Longrightarrow> int start < n"
proof (induction "length data - start" arbitrary: start rule: less_induct)
  case less
  from less.prems obtain w i where w: "decodeVarint data start 0 0 = DOk (w, i)"
    by (subst (asm) skipGroup.simps) (auto split: dec.splits)
  note i = decodeVarint_next [OF w]
  show ?case
  proof (cases "w mod 8 = 4")
    case True
    then show ?thesis using less.prems w i by (subst (asm) skipGroup.simps) simp
  next
    case False
    from less.prems w False obtain nxt where n: "skipRaft (drop start data) = DOk nxt"
      "int start < wrap_int (int start + nxt)" "skipGroup data (nat (wrap_int (int start + nxt))) = DOk n"
      by (subst (asm) skipGroup.simps) (auto split: dec.splits if_splits)
    have s: "start < nat (wrap_int (int start + nxt))" using n(2) by linarith
    then have "length data - nat (wrap_int (int start + nxt)) < length data - start" using i by linarith
    from less.hyps [OF this n(3)] s show ?thesis by linarith
  qed
qed

lemma wrap_int_sum:
  assumes "j < two63" "v < two63"
  shows "wrap_int (int j + int v) = (if j + v < two63 then int j + int v else int j + int v - 2 ^ 64)"
proof (cases "j + v < two63")
  case False
  let ?x = "int j + int v - 2 ^ 63"
  have "(int j + int v + 2 ^ 63) mod 2 ^ 64 = (?x + 2 ^ 64) mod 2 ^ 64" by (simp add: add.commute)
  also have "\<dots> = ?x mod 2 ^ 64" by (rule mod_add_self2)
  also have "\<dots> = ?x" using assms False by (simp add: mod_pos_pos_trivial)
  finally show ?thesis using False by (simp add: wrap_int_def)
qed (simp add: wrap_int_def)

lemma skipRaft_advances:
  assumes "skipRaft data = DOk n" "length data < two63" "0 \<le> n"
  shows "0 < n"
proof -
  from assms(1) obtain w i where w: "data \<noteq> []" "decodeVarint data 0 0 0 = DOk (w, i)"
    by (subst (asm) skipRaft.simps) (auto split: dec.splits if_splits)
  have i: "0 < i" using decodeVarint_next [OF w(2)] by simp
  note adv = decodeVarint_next [of data i 0 0]
  have r: "(if w mod 8 = 0 then dec_then (decodeVarint data i 0 0) (\<lambda>(_, j). DOk (int j))
      else if w mod 8 = 1 then DOk (int i + 8)
      else if w mod 8 = 2 then dec_then (decodeVarint data i 0 0) (\<lambda>(v, j).
        if v \<ge> two63 then DErr ErrInvalidLengthRaft else DOk (wrap_int (int j + int v)))
      else if w mod 8 = 3 then skipGroup data i
      else if w mod 8 = 4 then DOk (int i)
      else if w mod 8 = 5 then DOk (int i + 4)
      else DErr ErrIllegalWireType) = DOk n"
    using assms(1) w by (subst (asm) skipRaft.simps) (simp add: Let_def)
  show ?thesis
  proof (cases "w mod 8 = 2")
    case True
    with r obtain v j where v: "decodeVarint data i 0 0 = DOk (v, j)" "v < two63" "n = wrap_int (int j + int v)"
      by (cases "decodeVarint data i 0 0") (auto split: if_splits)
    with adv assms(2,3) i wrap_int_sum [of j v] show ?thesis by (force split: if_splits)
  next
    case False
    then show ?thesis using r i adv skipGroup_advances [of data i n]
      by (cases "decodeVarint data i 0 0") (auto split: if_splits)
  qed
qed

text \<open>A handler returns and does not move back.\<close>

definition advancing :: "'m handler \<Rightarrow> bool" where
  "advancing h \<longleftrightarrow> (\<forall>data i m. length data < two63 \<longrightarrow>
     (\<exists>r. h data i m = Some r \<and> (\<forall>j m'. r = DOk (j, m') \<longrightarrow> i \<le> j)))"

lemma advancing_varint: "advancing (varint_field put)"
proof -
  have "i \<le> j" if "dec_then (decodeVarint data i 0 0) (\<lambda>(v, j). DOk (j, put v m)) = DOk (j, m')" for data i m j m'
    using that decodeVarint_next [of data i 0 0] by (cases "decodeVarint data i 0 0") (auto dest!: less_imp_le)
  then show ?thesis unfolding advancing_def varint_field_def by blast
qed

lemma read_chunk_advances: "read_chunk data i = DOk (j, d) \<Longrightarrow> i \<le> j \<and> length d \<le> length data"
  using decodeVarint_next [of data i 0 0] unfolding read_chunk_def
  by (cases "decodeVarint data i 0 0") (fastforce split: if_splits)+

lemma advancing_bytes: "advancing (bytes_field put)"
proof -
  have "i \<le> j" if "dec_then (read_chunk data i) (\<lambda>(j, d). DOk (j, put (Some d) m)) = DOk (j, m')" for data i m j m'
    using that read_chunk_advances [of data i] by (cases "read_chunk data i") auto
  then show ?thesis unfolding advancing_def bytes_field_def by blast
qed

lemma advancing_message:
  assumes "\<And>d p. length d < two63 \<Longrightarrow> unm d p \<noteq> None"
  shows "advancing (message_field (part unm get put))"
  unfolding advancing_def
proof (intro allI impI)
  fix data :: bytes and i m assume l: "length data < two63"
  show "\<exists>r. message_field (part unm get put) data i m = Some r \<and> (\<forall>j m'. r = DOk (j, m') \<longrightarrow> i \<le> j)"
  proof (cases "read_chunk data i")
    case (DOk x)
    obtain j d where x: "x = (j, d)" by (cases x)
    have "i \<le> j" "length d < two63" using read_chunk_advances [of data i j d] DOk x l by auto
    with assms [of d "get m"] obtain r where "unm d (get m) = Some r" by auto
    with DOk x \<open>i \<le> j\<close> show ?thesis by (cases r) (auto simp: message_field_def part_def)
  qed (simp_all add: message_field_def)
qed

lemma unmarshal_loop_total:
  assumes "\<And>n wt h. map_of fs n = Some (wt, h) \<Longrightarrow> advancing h" "length data < two63"
  shows "\<exists>r. unmarshal_loop fs data i m = Some r"
proof (induction "length data - i" arbitrary: i m rule: less_induct)
  case less
  show ?case
  proof (cases "i < length data")
    case True
    have "\<exists>r. unmarshal_field fs data i m = Some r \<and> (\<forall>j m'. r = DOk (j, m') \<longrightarrow> i < j)"
    proof (cases "decodeVarint data i 0 0")
      case (DOk x)
      obtain w j where x: "x = (w, j)" by (cases x)
      have j: "i < j" using decodeVarint_next DOk x by blast
      show ?thesis
      proof (cases "map_of fs (w div 8 mod 2 ^ 32)")
        case None
        have "i < k" if "skip_field data i m = DOk (k, m')" for k m'
          using that assms(2) skipRaft_advances [of "drop i data"] unfolding skip_field_def
          by (cases "skipRaft (drop i data)") (fastforce split: if_splits)+
        then show ?thesis using None DOk x by (auto simp: unmarshal_field_def Let_def)
      next
        case (Some y)
        obtain wt h where y: "y = (wt, h)" by (cases y)
        have "advancing h" using assms(1) Some y by blast
        then obtain r where "h data j m = Some r" "\<forall>k m'. r = DOk (k, m') \<longrightarrow> j \<le> k"
          using assms(2) unfolding advancing_def by blast
        then show ?thesis using Some y DOk x j by (auto simp: unmarshal_field_def Let_def dest: less_le_trans)
      qed
    qed (simp_all add: unmarshal_field_def)
    then obtain r where r: "unmarshal_field fs data i m = Some r" "\<And>j m'. r = DOk (j, m') \<Longrightarrow> i < j" by blast
    show ?thesis
    proof (cases r)
      case (DOk x)
      then have "i < fst x" using r(2) [of "fst x" "snd x"] by simp
      with less [of "fst x" "snd x"] True r(1) DOk show ?thesis
        by (subst unmarshal_loop.simps) (simp add: diff_less_mono2)
    qed (use True r(1) in \<open>subst unmarshal_loop.simps, simp\<close>)+
  qed (subst unmarshal_loop.simps, simp)
qed

lemmas advancing_intros = advancing_varint advancing_bytes advancing_message

lemma unmarshal_total:
  "list_all (\<lambda>(n, wt, h). advancing h) fs \<Longrightarrow> length data < two63 \<Longrightarrow> unmarshal fs data m \<noteq> None"
proof -
  assume f: "list_all (\<lambda>(n, wt, h). advancing h) fs" and l: "length data < two63"
  have "advancing h" if "map_of fs n = Some (wt, h)" for n wt h
    using f map_of_SomeD [OF that] by (auto simp: list_all_iff)
  from unmarshal_loop_total [OF this l] show ?thesis by (auto simp: unmarshal_def)
qed

lemma Unmarshal_total:
  assumes "length data < two63"
  shows "Entry_Unmarshal data e \<noteq> None" "ConfState_Unmarshal data ns \<noteq> None" "HardState_Unmarshal data hs \<noteq> None"
    "ConfChange_Unmarshal data cc \<noteq> None"
  unfolding Entry_Unmarshal_def ConfState_Unmarshal_def HardState_Unmarshal_def ConfChange_Unmarshal_def
  by (rule unmarshal_total [OF _ assms],
      simp add: Entry_fields_def ConfState_fields_def HardState_fields_def ConfChange_fields_def advancing_intros)+

lemma SnapshotMetadata_total: "length data < two63 \<Longrightarrow> SnapshotMetadata_Unmarshal data sm \<noteq> None"
  unfolding SnapshotMetadata_Unmarshal_def
  by (rule unmarshal_total) (simp_all add: SnapshotMetadata_fields_def advancing_intros Unmarshal_total del: not_None_eq)

lemma Snapshot_total: "length data < two63 \<Longrightarrow> Snapshot_Unmarshal data s \<noteq> None"
  unfolding Snapshot_Unmarshal_def
  by (rule unmarshal_total) (simp_all add: Snapshot_fields_def advancing_intros SnapshotMetadata_total del: not_None_eq)

text \<open>C18. Decoding ends on every input: whatever the bytes are (truncated, with unknown fields or
  nested groups, with wrong lengths), unmarshalling a message returns a message, an error, or
  panics; its loops do not run forever.\<close>

theorem Unmarshal_terminates:
  assumes "length data < two63"
  shows "\<exists>r. Message_Unmarshal data m = Some r"
proof -
  have "unmarshal (Message_head @ Message_body) data m \<noteq> None"
    by (rule unmarshal_total [OF _ assms])
      (simp add: Message_head_def Message_body_def advancing_intros Unmarshal_total Snapshot_total del: not_None_eq)
  then show ?thesis by (auto simp: Message_Unmarshal_def)
qed

theorem Unmarshal_terminates_witness: "\<exists>r. Message_Unmarshal [byte 0x0b, byte 0x0b, byte 0x0c] zero_message = Some r"
  using Unmarshal_terminates [of "[byte 0x0b, byte 0x0b, byte 0x0c]" zero_message] by simp

section \<open>Decoding panics on huge lengths\<close>

text \<open>C29. A length just below the largest signed integer overflows the position after the field:
  the bounds check sees a negative number and passes, and the slice expression panics instead
  of the error for a truncated message being returned.\<close>

theorem Unmarshal_panics:
  assumes "n < two63" "two63 \<le> 1 + sovRaft n + n"
  shows "Entry_Unmarshal (byte 0x22 # encodeVarintRaft n @ rest) e = Some DPanic"
proof -
  let ?d = "byte 0x22 # encodeVarintRaft n @ rest"
  have t: "decodeVarint ?d 0 0 0 = DOk (34, 1)"
    using decode_u64 [of 0 ?d 34 "encodeVarintRaft n @ rest"] by (simp add: encodeVarintRaft.simps [of 34] sovRaft.simps [of 34])
  have l: "decodeVarint ?d 1 0 0 = DOk (n, 1 + sovRaft n)" using decode_u64 [of 1 ?d n rest] assms(1) by simp
  have "unmarshal_field Entry_fields ?d 0 e = Some DPanic"
    using t l assms by (simp add: unmarshal_field_def Entry_fields_def bytes_field_def read_chunk_def)
  then show ?thesis by (simp add: Entry_Unmarshal_def unmarshal_def unmarshal_loop.simps)
qed

theorem Unmarshal_panics_witness:
  "Entry_Unmarshal (byte 0x22 # encodeVarintRaft 9223372036854775807 @ []) zero_entry = Some DPanic"
  using Unmarshal_panics [of 9223372036854775807 "[]" zero_entry] by (simp add: sovRaft.simps)

end
