(* ===== verification/Mvcc_Key_Index.thy ===== *)
theory Mvcc_Key_Index
  imports Etcd_Prelude
begin

text \<open>
  The revisions of one key: \<^verbatim>\<open>storage/revision.go\<close> and \<^verbatim>\<open>storage/key_index.go\<close>.  Revisions are
  signed 64-bit numbers in Go; the store would need more than \<^term>\<open>2 ^ 63\<close> changes to overflow
  them, so they are integers here.  A panic of the logger is \<^term>\<open>None\<close>.  The gauge that counts
  keys is left out.
\<close>

section \<open>Revisions\<close>

datatype revision = Revision (rmain: int) (rsub: int)

definition GreaterThan :: "revision \<Rightarrow> revision \<Rightarrow> bool" where
  "GreaterThan a b =
     (if rmain a > rmain b then True
      else if rmain a < rmain b then False
      else rsub a > rsub b)"

text \<open>It is the strict part of a linear order, the lexicographic one.\<close>

instantiation revision :: linorder
begin

definition less_eq_revision :: "revision \<Rightarrow> revision \<Rightarrow> bool" where
  "less_eq_revision a b \<longleftrightarrow> rmain a < rmain b \<or> rmain a = rmain b \<and> rsub a \<le> rsub b"

definition less_revision :: "revision \<Rightarrow> revision \<Rightarrow> bool" where
  "less_revision a b \<longleftrightarrow> rmain a < rmain b \<or> rmain a = rmain b \<and> rsub a < rsub b"

instance
  by standard (auto simp: less_eq_revision_def less_revision_def intro: revision.expand)

end

lemma GreaterThan_less [simp]: "GreaterThan a b \<longleftrightarrow> b < a"
  by (auto simp: GreaterThan_def less_revision_def)

lemma less_rmain: "a < b \<Longrightarrow> rmain a \<le> rmain b" for a b :: revision
  by (auto simp: less_revision_def)

section \<open>The index of a key\<close>

datatype index_err = ErrRevisionNotFound

record generation =
  g_ver :: int
  g_created :: revision
  g_revs :: "revision list"

definition zero_generation :: generation where
  "zero_generation = \<lparr>g_ver = 0, g_created = Revision 0 0, g_revs = []\<rparr>"

record keyIndex =
  ki_key :: bytes
  ki_modified :: revision
  ki_generations :: "generation list"

definition new_keyIndex :: "bytes \<Rightarrow> keyIndex" where
  "new_keyIndex key = \<lparr>ki_key = key, ki_modified = Revision 0 0, ki_generations = []\<rparr>"

definition g_isEmpty :: "generation \<Rightarrow> bool" where
  "g_isEmpty g \<longleftrightarrow> g_revs g = []"

definition ki_isEmpty :: "keyIndex \<Rightarrow> bool" where
  "ki_isEmpty ki \<longleftrightarrow> length (ki_generations ki) = 1 \<and> g_isEmpty (ki_generations ki ! 0)"

definition ki_put :: "int \<Rightarrow> int \<Rightarrow> keyIndex \<Rightarrow> keyIndex option" where
  "ki_put main sub ki =
     (let rev = Revision main sub
      in if \<not> GreaterThan rev (ki_modified ki) then None
         else let gs = (if ki_generations ki = [] then [zero_generation] else ki_generations ki);
                  g = last gs;
                  g = (if g_revs g = [] then g\<lparr>g_created := rev\<rparr> else g);
                  g = g\<lparr>g_revs := g_revs g @ [rev], g_ver := g_ver g + 1\<rparr>
              in Some (ki\<lparr>ki_generations := butlast gs @ [g], ki_modified := rev\<rparr>))"

definition ki_restore :: "revision \<Rightarrow> revision \<Rightarrow> int \<Rightarrow> keyIndex \<Rightarrow> keyIndex option" where
  "ki_restore created modified ver ki =
     (if ki_generations ki \<noteq> [] then None
      else Some (ki\<lparr>ki_modified := modified,
                    ki_generations := [\<lparr>g_ver = ver, g_created = created, g_revs = [modified]\<rparr>]\<rparr>))"

text \<open>Outside of the emptiness check the last generation must exist, or the index panics.\<close>

definition ki_tombstone :: "int \<Rightarrow> int \<Rightarrow> keyIndex \<Rightarrow> (index_err + keyIndex) option" where
  "ki_tombstone main sub ki =
     (if ki_isEmpty ki \<or> ki_generations ki = [] then None
      else if g_isEmpty (last (ki_generations ki)) then Some (Inl ErrRevisionNotFound)
      else do {
        ki \<leftarrow> ki_put main sub ki;
        Some (Inr (ki\<lparr>ki_generations := ki_generations ki @ [zero_generation]\<rparr>))
      })"

text \<open>\<^verbatim>\<open>walk\<close>: the position of the last revision on which the function returns false.\<close>

fun walk_from :: "(revision \<Rightarrow> bool) \<Rightarrow> revision list \<Rightarrow> nat \<Rightarrow> nat option" where
  "walk_from f revs 0 = None"
| "walk_from f revs (Suc n) = (if \<not> f (revs ! n) then Some n else walk_from f revs n)"

definition g_walk :: "(revision \<Rightarrow> bool) \<Rightarrow> generation \<Rightarrow> nat option" where
  "g_walk f g = walk_from f (g_revs g) (length (g_revs g))"

text \<open>\<^verbatim>\<open>findGeneration\<close>: the loop over the generations from the last one down.\<close>

fun find_gen :: "int \<Rightarrow> generation list \<Rightarrow> nat \<Rightarrow> generation option" where
  "find_gen r gs 0 = None"
| "find_gen r gs (Suc cg) =
     (let g = gs ! cg
      in if g_revs g = [] then find_gen r gs cg
         else if cg \<noteq> length gs - 1 \<and> rmain (last (g_revs g)) \<le> r then None
         else if rmain (hd (g_revs g)) \<le> r then Some g
         else find_gen r gs cg)"

definition findGeneration :: "int \<Rightarrow> keyIndex \<Rightarrow> generation option" where
  "findGeneration r ki = find_gen r (ki_generations ki) (length (ki_generations ki))"

definition ki_get :: "int \<Rightarrow> keyIndex \<Rightarrow> (index_err + revision \<times> revision \<times> int) option" where
  "ki_get atRev ki =
     (if ki_isEmpty ki then None
      else case findGeneration atRev ki of
        None \<Rightarrow> Some (Inl ErrRevisionNotFound)
      | Some g \<Rightarrow>
          if g_isEmpty g then Some (Inl ErrRevisionNotFound)
          else (case g_walk (\<lambda>rev. \<not> rmain rev \<le> atRev) g of
                  Some n \<Rightarrow> Some (Inr (g_revs g ! n, g_created g,
                              g_ver g - int (length (g_revs g) - n - 1)))
                | None \<Rightarrow> Some (Inl ErrRevisionNotFound)))"

text \<open>\<^verbatim>\<open>since\<close>: where to start, and the loop that keeps the last revision of each transaction.\<close>

fun since_start :: "revision \<Rightarrow> generation list \<Rightarrow> nat \<Rightarrow> nat" where
  "since_start since gs 0 = 0"
| "since_start since gs (Suc gi) =
     (let g = gs ! Suc gi
      in if g_isEmpty g then since_start since gs gi
         else if GreaterThan since (g_created g) then Suc gi
         else since_start since gs gi)"

fun since_revs :: "revision \<Rightarrow> revision list \<Rightarrow> revision list \<times> int \<Rightarrow> (revision list \<times> int) option" where
  "since_revs since [] acc = Some acc"
| "since_revs since (r # rs) (revs, lst) =
     (if GreaterThan since r then since_revs since rs (revs, lst)
      else if rmain r = lst
      then (if revs = [] then None else since_revs since rs (butlast revs @ [r], lst))
      else since_revs since rs (revs @ [r], rmain r))"

definition ki_since :: "int \<Rightarrow> keyIndex \<Rightarrow> revision list option" where
  "ki_since r ki =
     (if ki_isEmpty ki then None
      else let since = Revision r 0;
               gi = since_start since (ki_generations ki) (length (ki_generations ki) - 1)
           in map_option fst (since_revs since (concat (map g_revs (drop gi (ki_generations ki)))) ([], 0)))"

text \<open>
  \<^verbatim>\<open>compact\<close>: the first generation that is still alive after the revision, and what is kept
  of it.  The set of available revisions is threaded through.
\<close>

fun compact_gen :: "int \<Rightarrow> generation list \<Rightarrow> nat option" where
  "compact_gen atRev [] = None"
| "compact_gen atRev [g] = Some 0"
| "compact_gen atRev (g # gs) =
     (if g_revs g = [] then None
      else if rmain (last (g_revs g)) > atRev then Some 0
      else map_option Suc (compact_gen atRev gs))"

definition ki_compact :: "int \<Rightarrow> revision set \<Rightarrow> keyIndex \<Rightarrow> (keyIndex \<times> revision set) option" where
  "ki_compact atRev available ki =
     (if ki_isEmpty ki then None
      else do {
        i \<leftarrow> compact_gen atRev (ki_generations ki);
        let gs = ki_generations ki;
        let g = gs ! i;
        if g_isEmpty g then Some (ki\<lparr>ki_generations := drop i gs\<rparr>, available)
        else do {
          let (g, available) =
            (case g_walk (\<lambda>rev. \<not> rmain rev \<le> atRev) g of
               Some n \<Rightarrow> (g\<lparr>g_revs := drop n (g_revs g)\<rparr>, insert (g_revs g ! n) available)
             | None \<Rightarrow> (g, available));
          let gs = gs[i := g];
          if length (g_revs g) = 1 \<and> i \<noteq> length gs - 1
          then Some (ki\<lparr>ki_generations := drop (i + 1) gs\<rparr>, available - {hd (g_revs g)})
          else Some (ki\<lparr>ki_generations := drop i gs\<rparr>, available)
        }
      })"

text \<open>Equality ignores when the generations were created.\<close>

definition g_equal :: "generation \<Rightarrow> generation \<Rightarrow> bool" where
  "g_equal a b \<longleftrightarrow> g_ver a = g_ver b \<and> g_revs a = g_revs b"

definition ki_equal :: "keyIndex \<Rightarrow> keyIndex \<Rightarrow> bool" where
  "ki_equal a b \<longleftrightarrow> ki_key a = ki_key b \<and> ki_modified a = ki_modified b \<and>
     length (ki_generations a) = length (ki_generations b) \<and>
     list_all2 g_equal (ki_generations a) (ki_generations b)"

end
