(* ===== verification/Mvcc_Key_View.thy ===== *)
theory Mvcc_Key_View
  imports Mvcc_Key_Index
begin

text \<open>
  The index of a key as a history: the list of its events in the order of their revisions, each
  a put (with the revision that created the key and its version) or a deletion.  Every
  operation of the index refines an operation on histories.
\<close>

section \<open>Histories\<close>

type_synonym kevent = "revision \<times> (revision \<times> int) option"

definition ev_latest :: "int \<Rightarrow> (revision \<times> 'a) list \<Rightarrow> (revision \<times> 'a) option" where
  "ev_latest r evs = (let es = filter (\<lambda>e. rmain (fst e) \<le> r) evs in if es = [] then None else Some (last es))"

text \<open>The state of the key at a main revision.\<close>

definition ev_at :: "int \<Rightarrow> (revision \<times> 'a option) list \<Rightarrow> (revision \<times> 'a) option" where
  "ev_at r evs = (case ev_latest r evs of Some (rv, Some x) \<Rightarrow> Some (rv, x) | _ \<Rightarrow> None)"

text \<open>Compaction keeps the state at the revision and everything after it.\<close>

definition ev_compact :: "int \<Rightarrow> (revision \<times> 'a option) list \<Rightarrow> (revision \<times> 'a option) list" where
  "ev_compact r evs =
     (case ev_latest r evs of Some (rv, Some x) \<Rightarrow> [(rv, Some x)] | _ \<Rightarrow> []) @
     filter (\<lambda>e. r < rmain (fst e)) evs"

definition ev_ok :: "(revision \<times> 'a) list \<Rightarrow> bool" where
  "ev_ok evs \<longleftrightarrow> sorted_wrt (<) (map fst evs)"

lemma ev_latest_append:
  "ev_latest r (xs @ ys) = (case ev_latest r ys of None \<Rightarrow> ev_latest r xs | Some e \<Rightarrow> Some e)"
  by (simp add: ev_latest_def Let_def)

lemma ev_latest_none: "(\<forall>e \<in> set evs. r < rmain (fst e)) \<Longrightarrow> ev_latest r evs = None"
  by (auto simp: ev_latest_def filter_empty_conv)

lemma ev_latest_single [simp]: "ev_latest r [e] = (if rmain (fst e) \<le> r then Some e else None)"
  by (simp add: ev_latest_def)

lemma ev_latest_bound: "ev_latest r evs = Some e \<Longrightarrow> e \<in> set evs \<and> rmain (fst e) \<le> r"
  by (auto simp: ev_latest_def Let_def split: if_splits dest!: last_in_set)

lemma ev_at_append_later: "r < rmain (fst e) \<Longrightarrow> ev_at r (evs @ [e]) = ev_at r evs"
  by (simp add: ev_at_def ev_latest_append)

lemma ev_at_append:
  "rmain rv \<le> r \<Longrightarrow> ev_at r (evs @ [(rv, x)]) = map_option (Pair rv) x"
  by (auto simp: ev_at_def ev_latest_append split: option.split)

text \<open>Reads at or after the compacted revision are not affected.\<close>

lemma ev_latest_split:
  assumes "r \<le> r'" "sorted_wrt (\<lambda>a b. rmain (fst a) \<le> rmain (fst b)) evs"
  shows "ev_latest r' evs = (case ev_latest r' (filter (\<lambda>e. r < rmain (fst e)) evs) of None \<Rightarrow> ev_latest r evs | Some e \<Rightarrow> Some e)"
  using assms(2)
proof (induction evs)
  case (Cons e evs)
  have "ev_latest r' (e # evs) = (case ev_latest r' evs of None \<Rightarrow> ev_latest r' [e] | Some x \<Rightarrow> Some x)" for r'
    using ev_latest_append [of r' "[e]" evs] by simp
  note c = this
  show ?case
  proof (cases "r < rmain (fst e)")
    case True
    then have "\<forall>x \<in> set evs. r < rmain (fst x)" using Cons.prems by auto
    then have "filter (\<lambda>e. r < rmain (fst e)) (e # evs) = e # evs" "ev_latest r (e # evs) = None"
      using True by (auto simp: filter_id_conv ev_latest_none)
    then show ?thesis by (simp split: option.split)
  next
    case False
    then show ?thesis using Cons.IH Cons.prems c [of r] c [of r'] assms(1) by (auto split: option.splits)
  qed
qed (simp add: ev_latest_def)

lemma ev_ok_main: "ev_ok evs \<Longrightarrow> sorted_wrt (\<lambda>a b. rmain (fst a) \<le> rmain (fst b)) evs"
  unfolding ev_ok_def sorted_wrt_map by (rule sorted_wrt_mono_rel) (auto dest: less_rmain)

lemma ev_at_compact:
  assumes "ev_ok evs" "r \<le> r'"
  shows "ev_at r' (ev_compact r evs) = ev_at r' evs"
proof -
  let ?k = "case ev_latest r evs of Some (rv, Some x) \<Rightarrow> [(rv, Some x)] | _ \<Rightarrow> []"
    and ?f = "filter (\<lambda>e. r < rmain (fst e)) evs"
  have k: "ev_latest r' ?k = (case ev_latest r evs of Some (rv, Some x) \<Rightarrow> Some (rv, Some x) | _ \<Rightarrow> None)"
    using assms(2) by (auto simp: ev_latest_def split: option.splits dest!: ev_latest_bound [unfolded ev_latest_def])
  show ?thesis
    unfolding ev_at_def ev_compact_def ev_latest_append k
    by (subst ev_latest_split [OF assms(2) ev_ok_main [OF assms(1)]]) (auto split: option.splits)
qed

lemma ev_compact_subset: "set (ev_compact r evs) \<subseteq> set evs"
  by (auto simp: ev_compact_def split: option.splits dest: ev_latest_bound [OF sym])

lemma ev_ok_compact: "ev_ok evs \<Longrightarrow> ev_ok (ev_compact r evs)"
proof -
  assume ok: "ev_ok evs"
  have f: "ev_ok (filter P evs)" for P
    using ok unfolding ev_ok_def sorted_wrt_map by (rule sorted_wrt_filter)
  show ?thesis
  proof (cases "ev_latest r evs")
    case (Some e)
    then have "e \<in> set evs" "rmain (fst e) \<le> r" using ev_latest_bound by blast+
    then have "\<forall>x \<in> set (filter (\<lambda>e. r < rmain (fst e)) evs). fst e < fst x" by (auto simp: less_revision_def)
    then show ?thesis using f Some by (auto simp: ev_compact_def ev_ok_def split: prod.split option.split)
  qed (use f in \<open>simp add: ev_compact_def\<close>)
qed

section \<open>The history of an index\<close>

definition gen_event :: "bool \<Rightarrow> generation \<Rightarrow> nat \<Rightarrow> kevent" where
  "gen_event live g n = (g_revs g ! n,
     if live \<or> n < length (g_revs g) - 1 then Some (g_created g, g_ver g - int (length (g_revs g) - n - 1)) else None)"

text \<open>In all generations but the last one the last revision is the deletion.\<close>

definition gen_events :: "bool \<Rightarrow> generation \<Rightarrow> kevent list" where
  "gen_events live g = map (gen_event live g) [0..<length (g_revs g)]"

fun gens_events :: "generation list \<Rightarrow> kevent list" where
  "gens_events [] = []"
| "gens_events [g] = gen_events True g"
| "gens_events (g # gs) = gen_events False g @ gens_events gs"

definition ki_events :: "keyIndex \<Rightarrow> kevent list" where
  "ki_events ki = gens_events (ki_generations ki)"

text \<open>
  Every generation but the last holds a put and the deletion; the revisions grow and the last
  one is the one of the last modification.
\<close>

definition ki_inv :: "keyIndex \<Rightarrow> bool" where
  "ki_inv ki \<longleftrightarrow> ki_generations ki \<noteq> [] \<and> (\<forall>g \<in> set (butlast (ki_generations ki)). 2 \<le> length (g_revs g)) \<and>
     ev_ok (ki_events ki) \<and> (\<forall>e \<in> set (ki_events ki). fst e \<le> ki_modified ki) \<and>
     (g_revs (last (ki_generations ki)) = [] \<longrightarrow> g_ver (last (ki_generations ki)) = 0)"

lemma gen_events_revs [simp]: "map fst (gen_events live g) = g_revs g"
  by (auto simp: gen_events_def gen_event_def comp_def intro: nth_equalityI)

lemma gen_events_last:
  "g_revs g \<noteq> [] \<Longrightarrow> gen_events live g \<noteq> [] \<and> last (gen_events live g) = gen_event live g (length (g_revs g) - 1)"
  by (simp add: gen_events_def last_map)

lemma gens_events_revs: "map fst (gens_events gs) = concat (map g_revs gs)"
  by (induction gs rule: gens_events.induct) simp_all

lemma gens_events_snoc: "gens_events (gs @ [g]) = concat (map (gen_events False) gs) @ gen_events True g"
proof (induction gs)
  case (Cons h gs)
  then show ?case by (cases "gs @ [g]") simp_all
qed simp

lemma gens_events_append: "hs \<noteq> [] \<Longrightarrow> gens_events (gs @ hs) = concat (map (gen_events False) gs) @ gens_events hs"
proof (induction gs)
  case (Cons h gs)
  then show ?case by (cases "gs @ hs") auto
qed simp

lemma gens_split: "gs \<noteq> [] \<Longrightarrow> gens_events gs = concat (map (gen_events False) (butlast gs)) @ gen_events True (last gs)"
  using gens_events_snoc [of "butlast gs" "last gs"] by simp

section \<open>Changes\<close>

text \<open>Appending a revision to a live generation appends a put to its history.\<close>

lemma gen_events_put:
  assumes "g' = g\<lparr>g_revs := g_revs g @ [rv], g_ver := g_ver g + 1\<rparr>"
  shows "gen_events True g' = gen_events True g @ [(rv, Some (g_created g, g_ver g + 1))]"
    "gen_events False g' = gen_events True g @ [(rv, None)]"
  using assms by (auto simp: gen_events_def gen_event_def nth_append intro!: map_cong)

lemma gen_events_created: "g_revs g = [] \<Longrightarrow> gen_events live (g\<lparr>g_created := c\<rparr>) = gen_events live g"
  by (simp add: gen_events_def)

text \<open>What a put or a tombstone at a later revision writes as creation and version.\<close>

definition put_info :: "keyIndex \<Rightarrow> revision \<Rightarrow> revision \<times> int" where
  "put_info ki rv =
     (if ki_generations ki = [] then (rv, 1)
      else let g = last (ki_generations ki)
           in (if g_revs g = [] then rv else g_created g, g_ver g + 1))"

lemma ki_put_events:
  assumes "ki_put m s ki = Some ki'"
  shows "ki_events ki' = ki_events ki @ [(Revision m s, Some (put_info ki (Revision m s)))]"
    "ki_key ki' = ki_key ki" "ki_modified ki' = Revision m s" "ki_generations ki' \<noteq> []"
    "butlast (ki_generations ki') = butlast (ki_generations ki)"
    "g_revs (last (ki_generations ki')) = (if ki_generations ki = [] then [] else g_revs (last (ki_generations ki))) @ [Revision m s]"
proof -
  let ?rv = "Revision m s"
  define gs where "gs = (if ki_generations ki = [] then [zero_generation] else ki_generations ki)"
  define g where "g = (if g_revs (last gs) = [] then (last gs)\<lparr>g_created := ?rv\<rparr> else last gs)"
  have k: "ki' = ki\<lparr>ki_generations := butlast gs @ [g\<lparr>g_revs := g_revs g @ [?rv], g_ver := g_ver g + 1\<rparr>], ki_modified := ?rv\<rparr>"
    using assms by (auto simp: ki_put_def Let_def gs_def g_def split: if_splits)
  have e: "gen_events True g = gen_events True (last gs)" by (simp add: g_def gen_events_created)
  have "gens_events gs = ki_events ki" by (simp add: gs_def ki_events_def zero_generation_def gen_events_def)
  moreover have "gs \<noteq> []" by (simp add: gs_def)
  moreover have "put_info ki ?rv = (g_created g, g_ver g + 1)"
    by (auto simp: put_info_def g_def gs_def zero_generation_def Let_def)
  ultimately show "ki_events ki' = ki_events ki @ [(?rv, Some (put_info ki ?rv))]"
    using gens_split [of gs] by (simp add: k ki_events_def gens_events_snoc gen_events_put(1) [OF refl] e)
  show "ki_key ki' = ki_key ki" "ki_modified ki' = ?rv" "ki_generations ki' \<noteq> []" by (simp_all add: k)
  show "butlast (ki_generations ki') = butlast (ki_generations ki)" by (simp add: k gs_def)
  show "g_revs (last (ki_generations ki')) = (if ki_generations ki = [] then [] else g_revs (last (ki_generations ki))) @ [?rv]"
    by (simp add: k g_def gs_def zero_generation_def)
qed

lemma ki_put_total: "ki_put m s ki \<noteq> None \<longleftrightarrow> ki_modified ki < Revision m s"
  by (simp add: ki_put_def Let_def)

lemma ev_ok_snoc: "ev_ok (evs @ [e]) \<longleftrightarrow> ev_ok evs \<and> (\<forall>x \<in> set evs. fst x < fst e)"
  by (auto simp: ev_ok_def sorted_wrt_append)

lemma ki_put_inv:
  assumes "ki_inv ki \<or> ki_generations ki = []" "ki_put m s ki = Some ki'"
  shows "ki_inv ki'"
proof -
  note P = ki_put_events [OF assms(2)]
  have lt: "ki_modified ki < Revision m s" using assms(2) ki_put_total [of m s ki] by auto
  have ok: "ev_ok (ki_events ki)" "\<forall>e \<in> set (ki_events ki). fst e \<le> ki_modified ki"
    using assms(1) by (auto simp: ki_inv_def ki_events_def ev_ok_def)
  moreover have "\<forall>g \<in> set (butlast (ki_generations ki')). 2 \<le> length (g_revs g)"
    using assms(1) P(5) by (auto simp: ki_inv_def)
  ultimately show ?thesis using P(1,3,4,6) lt by (auto simp: ki_inv_def ev_ok_snoc)
qed

lemma ki_tombstone_events:
  assumes "ki_tombstone m s ki = Some (Inr ki')"
  shows "ki_events ki' = ki_events ki @ [(Revision m s, None)]" "ki_key ki' = ki_key ki" "ki_modified ki' = Revision m s"
    "ki_inv ki \<Longrightarrow> ki_inv ki'"
proof -
  from assms obtain k where k: "ki_put m s ki = Some k" "ki' = k\<lparr>ki_generations := ki_generations k @ [zero_generation]\<rparr>"
    "ki_generations ki \<noteq> []" "g_revs (last (ki_generations ki)) \<noteq> []"
    by (auto simp: ki_tombstone_def bind_eq_Some_conv g_isEmpty_def split: if_splits)
  note P = ki_put_events [OF k(1)]
  let ?rv = "Revision m s"
  have z: "gen_events True zero_generation = []" by (simp add: gen_events_def zero_generation_def)
  let ?g = "last (ki_generations ki)"
  have k': "ki_generations k = butlast (ki_generations ki) @ [?g\<lparr>g_revs := g_revs ?g @ [?rv], g_ver := g_ver ?g + 1\<rparr>]"
    using k(1,3,4) by (auto simp: ki_put_def Let_def split: if_splits)
  show e: "ki_events ki' = ki_events ki @ [(?rv, None)]"
    using gens_split [OF k(3)] by (simp add: k(2) ki_events_def gens_events_append k' gen_events_put(2) [OF refl] z)
  show "ki_key ki' = ki_key ki" and m: "ki_modified ki' = ?rv" using P by (simp_all add: k(2))
  assume inv: "ki_inv ki"
  have "ki_inv k" using ki_put_inv [OF _ k(1)] inv by blast
  have lt: "ki_modified ki < ?rv" using k(1) ki_put_total [of m s ki] by auto
  have "2 \<le> length (g_revs g)" if "g \<in> set (ki_generations k)" for g
  proof (cases "g \<in> set (butlast (ki_generations ki))")
    case False
    then have "g = last (ki_generations k)" using that k' by auto
    then show ?thesis using P(6) k(3,4) by (cases "g_revs ?g") auto
  qed (use inv in \<open>auto simp: ki_inv_def\<close>)
  then show "ki_inv ki'"
    using inv e m lt by (auto simp: ki_inv_def k(2) ev_ok_snoc zero_generation_def)
qed

lemma ki_tombstone_total:
  assumes "ki_inv ki" "\<not> ki_isEmpty ki"
  shows "ki_tombstone m s ki =
    (if g_revs (last (ki_generations ki)) = [] then Some (Inl ErrRevisionNotFound)
     else if ki_modified ki < Revision m s
     then Some (Inr ((the (ki_put m s ki))\<lparr>ki_generations := ki_generations (the (ki_put m s ki)) @ [zero_generation]\<rparr>))
     else None)"
  using assms ki_put_total [of m s ki]
  by (auto simp: ki_tombstone_def ki_inv_def g_isEmpty_def)

lemma ki_restore_events:
  assumes "ki_restore c m v ki = Some ki'"
  shows "ki_events ki' = [(m, Some (c, v))]" "ki_inv ki'" "ki_key ki' = ki_key ki" "ki_modified ki' = m"
  using assms by (auto simp: ki_restore_def ki_events_def gen_events_def gen_event_def ki_inv_def ev_ok_def split: if_splits)

text \<open>A key exists now when its last event is a put.\<close>

lemma last_event_live:
  assumes "ki_inv ki"
  shows "g_revs (last (ki_generations ki)) \<noteq> [] \<longleftrightarrow> ki_events ki \<noteq> [] \<and> snd (last (ki_events ki)) \<noteq> None"
proof -
  let ?gs = "ki_generations ki"
  have ne: "?gs \<noteq> []" using assms by (simp add: ki_inv_def)
  note e = gens_split [OF ne, folded ki_events_def]
  show ?thesis
  proof (cases "g_revs (last ?gs) = []")
    case False
    then have "gen_events True (last ?gs) \<noteq> []" "snd (last (gen_events True (last ?gs))) \<noteq> None"
      using gen_events_last by (auto simp: gen_event_def)
    then show ?thesis using False e by simp
  next
    case True
    then have e': "ki_events ki = concat (map (gen_events False) (butlast ?gs))" using e by (simp add: gen_events_def)
    show ?thesis
    proof (cases "butlast ?gs" rule: rev_cases)
      case (snoc hs h)
      then have h: "2 \<le> length (g_revs h)" using assms by (simp add: ki_inv_def)
      then have "gen_events False h \<noteq> []" "snd (last (gen_events False h)) = None"
        using gen_events_last [of h False] by (cases "g_revs h"; simp add: gen_event_def)+
      then show ?thesis using True e' snoc by simp
    qed (use True e' in simp)
  qed
qed

lemma ki_isEmpty_events: "ki_inv ki \<Longrightarrow> ki_isEmpty ki \<longleftrightarrow> ki_events ki = []"
proof
  assume inv: "ki_inv ki"
  let ?gs = "ki_generations ki"
  show "ki_isEmpty ki \<Longrightarrow> ki_events ki = []"
    by (auto simp: ki_isEmpty_def ki_events_def length_Suc_conv gen_events_def g_isEmpty_def)
  assume e: "ki_events ki = []"
  have ne: "?gs \<noteq> []" using inv by (simp add: ki_inv_def)
  have n: "concat (map g_revs ?gs) = []" using gens_events_revs [of ?gs] e by (simp add: ki_events_def)
  have "butlast ?gs = []"
  proof (rule ccontr)
    assume "butlast ?gs \<noteq> []"
    then obtain g where "g \<in> set (butlast ?gs)" by (meson last_in_set)
    then have "2 \<le> length (g_revs g)" "g_revs g = []" using inv n by (auto simp: ki_inv_def dest: in_set_butlastD)
    then show False by simp
  qed
  then have g: "?gs = [last ?gs]" using ne by (metis append_Nil append_butlast_last_id)
  then have "g_revs (last ?gs) = []" using n by (metis concat_map_singleton concat.simps list.simps(8,9) append_Nil2)
  then show "ki_isEmpty ki" using g by (metis One_nat_def g_isEmpty_def ki_isEmpty_def last.simps length_Cons list.size(3) nth_Cons_0)
qed

section \<open>Reads\<close>

lemma walk_from_Some:
  "walk_from f xs n = Some m \<Longrightarrow> m < n \<and> \<not> f (xs ! m) \<and> (\<forall>j. m < j \<and> j < n \<longrightarrow> f (xs ! j))"
  by (induction n) (auto simp: less_Suc_eq split: if_splits)

lemma walk_from_None: "walk_from f xs n = None \<longleftrightarrow> (\<forall>j < n. f (xs ! j))"
  by (induction n) (auto simp: less_Suc_eq)

text \<open>The latest event of a generation is the one at the position that \<^verbatim>\<open>walk\<close> finds.\<close>

lemma gen_latest:
  "ev_latest r (gen_events live g) = map_option (gen_event live g) (g_walk (\<lambda>rev. \<not> rmain rev \<le> r) g)"
proof -
  have "ev_latest r (map (gen_event live g) [0..<n]) =
      map_option (gen_event live g) (walk_from (\<lambda>rev. \<not> rmain rev \<le> r) (g_revs g) n)" for n
    by (induction n) (simp_all add: ev_latest_append ev_latest_none, simp add: gen_event_def split: option.split)
  then show ?thesis by (simp add: gen_events_def g_walk_def)
qed

definition live_at :: "generation list \<Rightarrow> nat \<Rightarrow> bool" where
  "live_at gs k \<longleftrightarrow> k = length gs - 1"

definition first_events :: "generation list \<Rightarrow> nat \<Rightarrow> kevent list" where
  "first_events gs k = concat (map (\<lambda>j. gen_events (live_at gs j) (gs ! j)) [0..<k])"

lemma first_events_all: "first_events gs (length gs) = gens_events gs"
proof (cases gs rule: rev_cases)
  case (snoc hs h)
  have "map (\<lambda>j. gen_events (live_at gs j) (gs ! j)) [0..<length hs] = map (gen_events False) hs"
    by (rule nth_equalityI) (auto simp: snoc live_at_def nth_append)
  then show ?thesis by (simp add: first_events_def snoc gens_events_snoc live_at_def)
qed (simp add: first_events_def)

text \<open>What \<^verbatim>\<open>get\<close> answers from a generation.\<close>

definition gen_get :: "int \<Rightarrow> generation option \<Rightarrow> (revision \<times> revision \<times> int) option" where
  "gen_get r go = (case go of None \<Rightarrow> None | Some g \<Rightarrow>
     (case g_walk (\<lambda>rev. \<not> rmain rev \<le> r) g of
        None \<Rightarrow> None
      | Some n \<Rightarrow> Some (g_revs g ! n, g_created g, g_ver g - int (length (g_revs g) - n - 1))))"

lemma find_gen_events:
  assumes "\<forall>g \<in> set gs. sorted_wrt (<) (g_revs g)" "k \<le> length gs"
  shows "gen_get r (find_gen r gs k) = ev_at r (first_events gs k)"
  using assms(2)
proof (induction k)
  case 0
  then show ?case by (simp add: gen_get_def first_events_def ev_at_def ev_latest_def)
next
  case (Suc k)
  let ?g = "gs ! k" and ?live = "live_at gs k"
  have g: "sorted_wrt (<) (g_revs ?g)" using assms(1) Suc.prems by simp
  have e: "first_events gs (Suc k) = first_events gs k @ gen_events ?live ?g" by (simp add: first_events_def)
  have IH: "gen_get r (find_gen r gs k) = ev_at r (first_events gs k)" using Suc by simp
  let ?w = "g_walk (\<lambda>rev. \<not> rmain rev \<le> r) ?g"
  have mono: "rmain (g_revs ?g ! i) \<le> rmain (g_revs ?g ! j)" if "i \<le> j" "j < length (g_revs ?g)" for i j
    using g that sorted_wrt_nth_less [OF g, of i j] by (cases "i = j") (auto dest: less_rmain)
  consider (none) "?w = None" | (some) n where "?w = Some n" by (cases ?w) auto
  then show ?case
  proof cases
    case none
    then have gt: "\<forall>j < length (g_revs ?g). r < rmain (g_revs ?g ! j)"
      by (simp add: g_walk_def walk_from_None not_le)
    then have "g_revs ?g \<noteq> [] \<Longrightarrow> r < rmain (hd (g_revs ?g)) \<and> r < rmain (last (g_revs ?g))"
      by (simp add: hd_conv_nth last_conv_nth)
    moreover have "ev_at r (first_events gs (Suc k)) = ev_at r (first_events gs k)"
      using none by (simp add: e ev_at_def ev_latest_append gen_latest)
    ultimately show ?thesis using IH by (cases "g_revs ?g = []") (simp_all add: Let_def)
  next
    case (some n)
    from walk_from_Some [OF some [unfolded g_walk_def]] have
      n: "n < length (g_revs ?g)" "rmain (g_revs ?g ! n) \<le> r" "\<And>j. n < j \<Longrightarrow> j < length (g_revs ?g) \<Longrightarrow> r < rmain (g_revs ?g ! j)"
      by auto
    have ne: "g_revs ?g \<noteq> []" using n(1) by auto
    have h: "rmain (hd (g_revs ?g)) \<le> r" using mono [of 0 n] n by (simp add: hd_conv_nth [OF ne])
    have l: "rmain (last (g_revs ?g)) \<le> r \<longleftrightarrow> n = length (g_revs ?g) - 1"
      using n ne by (metis One_nat_def Suc_pred diff_less last_conv_nth length_greater_0_conv lessI less_antisym not_le)
    have "ev_latest r (first_events gs (Suc k)) = Some (gen_event ?live ?g n)"
      using some by (simp add: e ev_latest_append gen_latest)
    note lt = this
    show ?thesis
    proof (cases "?live \<or> n < length (g_revs ?g) - 1")
      case True
      then have "\<not> (k \<noteq> length gs - 1 \<and> rmain (last (g_revs ?g)) \<le> r)" using l by (auto simp: live_at_def)
      then have "find_gen r gs (Suc k) = Some ?g" using ne h by (auto simp: Let_def)
      with True lt some show ?thesis by (simp add: ev_at_def gen_event_def gen_get_def)
    next
      case False
      then have "find_gen r gs (Suc k) = None" using ne l n(1) by (auto simp: Let_def live_at_def)
      with False lt show ?thesis by (simp add: ev_at_def gen_event_def gen_get_def)
    qed
  qed
qed

lemma ki_revs_sorted: "ki_inv ki \<Longrightarrow> g \<in> set (ki_generations ki) \<Longrightarrow> sorted_wrt (<) (g_revs g)"
proof -
  assume inv: "ki_inv ki" and g: "g \<in> set (ki_generations ki)"
  from g obtain xs ys where "ki_generations ki = xs @ g # ys" by (meson split_list)
  with inv show ?thesis by (simp add: ki_inv_def ev_ok_def ki_events_def gens_events_revs sorted_wrt_append)
qed

lemma ki_get_events:
  assumes "ki_inv ki" "\<not> ki_isEmpty ki"
  shows "ki_get r ki = Some (case ev_at r (ki_events ki) of None \<Rightarrow> Inl ErrRevisionNotFound | Some x \<Rightarrow> Inr x)"
proof -
  let ?gs = "ki_generations ki"
  have "gen_get r (findGeneration r ki) = ev_at r (ki_events ki)"
    using find_gen_events [of ?gs "length ?gs" r] ki_revs_sorted [OF assms(1)]
    by (simp add: findGeneration_def first_events_all ki_events_def)
  moreover have "ki_get r ki = Some (case gen_get r (findGeneration r ki) of None \<Rightarrow> Inl ErrRevisionNotFound | Some x \<Rightarrow> Inr x)"
    using assms(2) by (auto simp: ki_get_def gen_get_def g_isEmpty_def g_walk_def split: option.split)
  ultimately show ?thesis by simp
qed

section \<open>Compaction\<close>

lemma compact_gen_spec:
  "gs \<noteq> [] \<Longrightarrow> \<forall>g \<in> set (butlast gs). g_revs g \<noteq> [] \<Longrightarrow>
     \<exists>xs g ys. gs = xs @ g # ys \<and> compact_gen r gs = Some (length xs) \<and>
       (\<forall>h \<in> set xs. g_revs h \<noteq> [] \<and> rmain (last (g_revs h)) \<le> r) \<and> (ys \<noteq> [] \<longrightarrow> r < rmain (last (g_revs g)))"
proof (induction r gs rule: compact_gen.induct)
  case (2 r g)
  then show ?case by (intro exI [of _ "[]"] exI [of _ g]) simp
next
  case (3 r g h gs)
  show ?case
  proof (cases "r < rmain (last (g_revs g))")
    case True
    then show ?thesis using "3.prems" by (intro exI [of _ "[]"] exI [of _ g] exI [of _ "h # gs"]) simp
  next
    case False
    have "g_revs g \<noteq> []" using "3.prems" by simp
    have "\<forall>g \<in> set (butlast (h # gs)). g_revs g \<noteq> []" using "3.prems"(2) by simp
    from "3.IH" [OF \<open>g_revs g \<noteq> []\<close> False _ this] obtain xs k ys where
      "h # gs = xs @ k # ys" "compact_gen r (h # gs) = Some (length xs)"
      "\<forall>h \<in> set xs. g_revs h \<noteq> [] \<and> rmain (last (g_revs h)) \<le> r" "ys \<noteq> [] \<longrightarrow> r < rmain (last (g_revs k))"
      by blast
    note x = this
    have "compact_gen r (g # h # gs) = Some (length (g # xs))" using x(2) False \<open>g_revs g \<noteq> []\<close> by simp
    moreover have "g # h # gs = (g # xs) @ k # ys" using x(1) by simp
    moreover have "\<forall>h \<in> set (g # xs). g_revs h \<noteq> [] \<and> rmain (last (g_revs h)) \<le> r" using x(3) False \<open>g_revs g \<noteq> []\<close> by simp
    ultimately show ?thesis using x(4) by blast
  qed
qed simp

lemma gen_events_drop: "gen_events live (g\<lparr>g_revs := drop n (g_revs g)\<rparr>) = drop n (gen_events live g)"
  by (rule nth_equalityI) (auto simp: gen_events_def gen_event_def)

definition ev_kept :: "int \<Rightarrow> (revision \<times> 'a option) list \<Rightarrow> revision set" where
  "ev_kept r evs = (case ev_latest r evs of Some (rv, Some x) \<Rightarrow> {rv} | _ \<Rightarrow> {})"

lemma gens_events_Cons: "gens_events (g # ys) = gen_events (ys = []) g @ gens_events ys"
  by (cases ys) simp_all

text \<open>The closed generations before the one that is kept end in deletions at or before the revision.\<close>

lemma closed_latest:
  assumes "\<forall>h \<in> set xs. g_revs h \<noteq> [] \<and> rmain (last (g_revs h)) \<le> r"
  shows "ev_latest r (concat (map (gen_events False) xs)) = None \<or> (\<exists>rv. ev_latest r (concat (map (gen_events False) xs)) = Some (rv, None))"
proof (cases xs rule: rev_cases)
  case (snoc hs h)
  let ?n = "length (g_revs h) - 1"
  have h: "g_revs h \<noteq> []" "rmain (last (g_revs h)) \<le> r" using assms snoc by simp_all
  then have "gen_events False h = butlast (gen_events False h) @ [gen_event False h ?n]"
    using gen_events_last [of h False] by (metis append_butlast_last_id)
  moreover have "gen_event False h ?n = (last (g_revs h), None)" using h by (simp add: gen_event_def last_conv_nth)
  ultimately have "ev_latest r (gen_events False h) = Some (last (g_revs h), None)"
    using h(2) by (metis (no_types, lifting) ev_latest_append ev_latest_single fst_conv option.simps(5))
  then show ?thesis using snoc by (simp add: ev_latest_append)
qed (simp add: ev_latest_def)

lemma closed_bound:
  assumes "sorted_wrt (<) (concat (map g_revs xs))" "\<forall>h \<in> set xs. g_revs h \<noteq> [] \<and> rmain (last (g_revs h)) \<le> r"
  shows "\<forall>e \<in> set (concat (map (gen_events False) xs)). rmain (fst e) \<le> r"
proof
  fix e assume "e \<in> set (concat (map (gen_events False) xs))"
  then obtain h where h: "h \<in> set xs" "e \<in> set (gen_events False h)" by auto
  then have "fst e \<in> set (g_revs h)" by (metis gen_events_revs image_eqI set_map)
  from h(1) obtain as bs where "xs = as @ h # bs" by (meson split_list)
  with assms(1) have s: "sorted_wrt (<) (g_revs h)" by (simp add: sorted_wrt_append)
  have "fst e \<le> last (g_revs h)"
  proof (cases "g_revs h" rule: rev_cases)
    case (snoc ys y)
    then show ?thesis using s \<open>fst e \<in> set (g_revs h)\<close> by (auto simp: sorted_wrt_append)
  qed (use \<open>fst e \<in> set (g_revs h)\<close> in simp)
  then show "rmain (fst e) \<le> r" using assms(2) h(1) by (auto simp: less_eq_revision_def)
qed

lemma ki_compact_events:
  assumes inv: "ki_inv ki" and ne: "\<not> ki_isEmpty ki"
  shows "\<exists>gs. ki_compact r av ki = Some (ki\<lparr>ki_generations := gs\<rparr>, av \<union> ev_kept r (ki_events ki)) \<and>
    gens_events gs = ev_compact r (ki_events ki) \<and> ki_inv (ki\<lparr>ki_generations := gs\<rparr>)"
proof -
  let ?gs = "ki_generations ki" and ?evs = "ki_events ki"
  have two: "\<forall>g \<in> set (butlast ?gs). 2 \<le> length (g_revs g)" using inv by (simp add: ki_inv_def)
  have "?gs \<noteq> []" "\<forall>g \<in> set (butlast ?gs). g_revs g \<noteq> []" using inv two by (auto simp: ki_inv_def)
  from compact_gen_spec [OF this, of r] obtain xs g ys where
    gs: "?gs = xs @ g # ys" "compact_gen r ?gs = Some (length xs)"
    and xs: "\<forall>h \<in> set xs. g_revs h \<noteq> [] \<and> rmain (last (g_revs h)) \<le> r" and ys: "ys \<noteq> [] \<longrightarrow> r < rmain (last (g_revs g))" by blast
  have twog: "ys \<noteq> [] \<longrightarrow> 2 \<le> length (g_revs g)" using two by (cases ys) (simp_all add: gs(1) butlast_append)
  let ?live = "ys = []" and ?A = "concat (map (gen_events False) xs)" and ?C = "gens_events ys"
  have ev: "?evs = ?A @ gen_events ?live g @ ?C" by (simp add: ki_events_def gs(1) gens_events_append gens_events_Cons)
  have so: "sorted_wrt (<) (concat (map g_revs xs) @ g_revs g @ concat (map g_revs ys))"
    using inv by (simp add: ki_inv_def ev_ok_def ki_events_def gens_events_revs gs(1))
  have A: "\<forall>e \<in> set ?A. rmain (fst e) \<le> r" using closed_bound [OF _ xs] so by (simp add: sorted_wrt_append)
  have C: "\<forall>e \<in> set ?C. r < rmain (fst e)"
  proof
    fix e assume "e \<in> set ?C"
    then have "fst e \<in> set (concat (map g_revs ys))" by (metis gens_events_revs image_eqI set_map)
    moreover have "ys \<noteq> []" using \<open>e \<in> set ?C\<close> by auto
    moreover have "g_revs g \<noteq> []" using twog \<open>ys \<noteq> []\<close> by auto
    ultimately have "last (g_revs g) < fst e" using so by (auto simp: sorted_wrt_append)
    then show "r < rmain (fst e)" using ys \<open>ys \<noteq> []\<close> less_rmain by fastforce
  qed
  have fA: "filter (\<lambda>e. r < rmain (fst e)) ?A = []" using A by (auto simp: filter_empty_conv not_less)
  have fC: "filter (\<lambda>e. r < rmain (fst e)) ?C = ?C" using C by (simp add: filter_id_conv)
  have lC: "ev_latest r ?C = None" using C by (rule ev_latest_none)
  let ?w = "g_walk (\<lambda>rev. \<not> rmain rev \<le> r) g"
  show ?thesis
  proof (cases ?w)
    case None
    then have "\<forall>j < length (g_revs g). r < rmain (g_revs g ! j)" by (simp add: g_walk_def walk_from_None not_le)
    then have "\<forall>e \<in> set (gen_events ?live g). r < rmain (fst e)" by (auto simp: gen_events_def gen_event_def)
    then have fg: "filter (\<lambda>e. r < rmain (fst e)) (gen_events ?live g) = gen_events ?live g" by (simp add: filter_id_conv)
    have "ev_latest r ?evs = ev_latest r ?A" using None lC by (simp add: ev ev_latest_append gen_latest)
    then have k: "ev_kept r ?evs = {}" "ev_compact r ?evs = gens_events (g # ys)"
      using closed_latest [OF xs] fA fC fg by (auto simp: ev_kept_def ev_compact_def ev gens_events_Cons)
    have c: "ki_compact r av ki = Some (ki\<lparr>ki_generations := g # ys\<rparr>, av)"
    proof -
      have "\<not> (length (g_revs g) = 1 \<and> ys \<noteq> [])" using twog by auto
      then show ?thesis using ne gs None by (auto simp: ki_compact_def list_update_append Let_def)
    qed
    have "ki_inv (ki\<lparr>ki_generations := g # ys\<rparr>)"
      using inv ev_ok_compact [of ?evs r] k(2) ev unfolding ki_inv_def
      by (auto simp: ki_events_def gs(1) butlast_append gens_events_Cons)
    then show ?thesis using c k by auto
  next
    case (Some n)
    from walk_from_Some [OF Some [unfolded g_walk_def]] have
      n: "n < length (g_revs g)" "rmain (g_revs g ! n) \<le> r" "\<And>j. n < j \<Longrightarrow> j < length (g_revs g) \<Longrightarrow> r < rmain (g_revs g ! j)" by auto
    let ?g = "g\<lparr>g_revs := drop n (g_revs g)\<rparr>"
    have put: "?live \<or> n < length (g_revs g) - 1"
    proof (rule disjCI)
      assume l: "\<not> n < length (g_revs g) - 1"
      then have "n = length (g_revs g) - 1" using n(1) by simp
      then have "rmain (last (g_revs g)) \<le> r" using n(1,2) by (metis last_conv_nth length_greater_0_conv less_nat_zero_code not_gr0)
      then show ?live using ys by auto
    qed
    then obtain x where e: "gen_event ?live g n = (g_revs g ! n, Some x)" by (auto simp: gen_event_def)
    have sg: "sorted_wrt (<) (g_revs g)" using so by (simp add: sorted_wrt_append)
    have le: "\<not> r < rmain (g_revs g ! j)" if "j < n" for j
      using sorted_wrt_nth_less [OF sg that n(1)] n(2) by (auto dest!: less_rmain)
    have ge: "gen_events ?live g = map (gen_event ?live g) [0..<n] @ gen_event ?live g n # map (gen_event ?live g) [Suc n..<length (g_revs g)]"
    proof -
      have "[0..<length (g_revs g)] = [0..<n] @ n # [Suc n..<length (g_revs g)]"
        using n(1) upt_add_eq_append [of 0 n "length (g_revs g) - n"] by (simp add: upt_conv_Cons)
      then show ?thesis by (simp add: gen_events_def)
    qed
    have dr: "drop n (gen_events ?live g) = gen_event ?live g n # map (gen_event ?live g) [Suc n..<length (g_revs g)]"
      by (simp add: ge)
    have fg: "filter (\<lambda>e. r < rmain (fst e)) (gen_events ?live g) = map (gen_event ?live g) [Suc n..<length (g_revs g)]"
      using le n(2,3) by (auto simp: ge filter_empty_conv filter_id_conv gen_event_def)
    have "ev_latest r ?evs = Some (g_revs g ! n, Some x)" using Some lC e by (simp add: ev ev_latest_append gen_latest)
    then have k: "ev_kept r ?evs = {g_revs g ! n}" "ev_compact r ?evs = gens_events (?g # ys)"
      using fA fC fg e by (simp_all add: ev_kept_def ev_compact_def ev gens_events_Cons gen_events_drop dr)
    have c: "ki_compact r av ki = Some (ki\<lparr>ki_generations := ?g # ys\<rparr>, insert (g_revs g ! n) av)"
    proof -
      have "\<not> (length (g_revs ?g) = 1 \<and> ys \<noteq> [])" using put n(1) by auto
      moreover have "\<not> g_isEmpty g" using n(1) by (auto simp: g_isEmpty_def)
      ultimately show ?thesis using ne gs Some by (auto simp: ki_compact_def list_update_append Let_def)
    qed
    have "\<forall>h \<in> set (butlast (?g # ys)). 2 \<le> length (g_revs h)"
      using two put n(1) by (cases ys) (auto simp: gs(1) butlast_append)
    moreover have "set (ev_compact r ?evs) \<subseteq> set ?evs" by (rule ev_compact_subset)
    ultimately have "ki_inv (ki\<lparr>ki_generations := ?g # ys\<rparr>)"
      using inv ev_ok_compact [of ?evs r] k(2) n(1) unfolding ki_inv_def by (auto simp: ki_events_def gs(1))
    then show ?thesis using c k by auto
  qed
qed

section \<open>The next version\<close>

text \<open>The creation and the version of a put in terms of the history.\<close>

definition ev_next :: "revision \<Rightarrow> kevent list \<Rightarrow> revision \<times> int" where
  "ev_next rv evs = (if evs = [] then (rv, 1) else case snd (last evs) of None \<Rightarrow> (rv, 1) | Some (c, v) \<Rightarrow> (c, v + 1))"

lemma put_info_events:
  assumes "ki_inv ki"
  shows "put_info ki rv = ev_next rv (ki_events ki)"
proof -
  let ?gs = "ki_generations ki" and ?g = "last (ki_generations ki)"
  have ne: "?gs \<noteq> []" using assms by (simp add: ki_inv_def)
  show ?thesis
  proof (cases "g_revs ?g = []")
    case True
    then have "ki_events ki = [] \<or> snd (last (ki_events ki)) = None" using last_event_live [OF assms] by blast
    then show ?thesis using True ne assms by (auto simp: put_info_def ev_next_def ki_inv_def Let_def)
  next
    case False
    then have "ki_events ki \<noteq> []" "last (ki_events ki) = gen_event True ?g (length (g_revs ?g) - 1)"
      using gens_split [OF ne] gen_events_last [OF False, of True] by (auto simp: ki_events_def)
    then show ?thesis using False ne by (simp add: put_info_def ev_next_def gen_event_def Let_def)
  qed
qed

end
