(* ===== verification/Mvcc_Index.thy ===== *)
theory Mvcc_Index
  imports Mvcc_Key_View "HOL-Library.Char_ord" "HOL-Library.List_Lexorder"
begin

text \<open>
  The index of all keys, \<^verbatim>\<open>storage/index.go\<close>.  The tree of the package \<^verbatim>\<open>google/btree\<close> is the list
  of its items in ascending order; byte strings are ordered as \<^verbatim>\<open>bytes.Compare\<close> orders them.
  The lock is not modelled: each method is one atomic operation.
\<close>

section \<open>The tree\<close>

type_synonym tree = "keyIndex list"

definition bt_get :: "bytes \<Rightarrow> tree \<Rightarrow> keyIndex option" where
  "bt_get key t = find (\<lambda>ki. ki_key ki = key) t"

fun bt_replace :: "keyIndex \<Rightarrow> tree \<Rightarrow> tree" where
  "bt_replace ki [] = [ki]"
| "bt_replace ki (k # t) =
     (if ki_key ki < ki_key k then ki # k # t
      else if ki_key ki = ki_key k then ki # t
      else k # bt_replace ki t)"

definition bt_delete :: "bytes \<Rightarrow> tree \<Rightarrow> tree" where
  "bt_delete key t = filter (\<lambda>ki. ki_key ki \<noteq> key) t"

text \<open>The items from a key on.\<close>

definition bt_ascend :: "bytes \<Rightarrow> tree \<Rightarrow> tree" where
  "bt_ascend key t = dropWhile (\<lambda>ki. ki_key ki < key) t"

definition bt_ok :: "tree \<Rightarrow> bool" where
  "bt_ok t \<longleftrightarrow> sorted_wrt (<) (map ki_key t)"

section \<open>The operations of the index\<close>

definition ti_Put :: "bytes \<Rightarrow> revision \<Rightarrow> tree \<Rightarrow> tree option" where
  "ti_Put key r t = do {
     ki \<leftarrow> ki_put (rmain r) (rsub r) (case bt_get key t of None \<Rightarrow> new_keyIndex key | Some okeyi \<Rightarrow> okeyi);
     Some (bt_replace ki t)
   }"

definition ti_Restore :: "bytes \<Rightarrow> revision \<Rightarrow> revision \<Rightarrow> int \<Rightarrow> tree \<Rightarrow> tree option" where
  "ti_Restore key created modified ver t =
     (case bt_get key t of
        None \<Rightarrow> do { ki \<leftarrow> ki_restore created modified ver (new_keyIndex key); Some (bt_replace ki t) }
      | Some okeyi \<Rightarrow> do { ki \<leftarrow> ki_put (rmain modified) (rsub modified) okeyi; Some (bt_replace ki t) })"

definition ti_Get :: "bytes \<Rightarrow> int \<Rightarrow> tree \<Rightarrow> (index_err + revision \<times> revision \<times> int) option" where
  "ti_Get key atRev t =
     (case bt_get key t of None \<Rightarrow> Some (Inl ErrRevisionNotFound) | Some ki \<Rightarrow> ki_get atRev ki)"

text \<open>The part of the tree that a range covers; an empty end is no bound.\<close>

definition ti_span :: "bytes \<Rightarrow> bytes \<Rightarrow> tree \<Rightarrow> tree" where
  "ti_span key end t = takeWhile (\<lambda>ki. \<not> (end \<noteq> [] \<and> \<not> ki_key ki < end)) (bt_ascend key t)"

fun range_keys :: "int \<Rightarrow> tree \<Rightarrow> (bytes list \<times> revision list) option" where
  "range_keys atRev [] = Some ([], [])"
| "range_keys atRev (ki # t) = do {
     r \<leftarrow> ki_get atRev ki;
     (ks, rs) \<leftarrow> range_keys atRev t;
     (case r of Inl _ \<Rightarrow> Some (ks, rs) | Inr (m, _, _) \<Rightarrow> Some (ki_key ki # ks, m # rs))
   }"

definition ti_Range :: "bytes \<Rightarrow> bytes option \<Rightarrow> int \<Rightarrow> tree \<Rightarrow> (bytes list \<times> revision list) option" where
  "ti_Range key end atRev t =
     (case end of
        None \<Rightarrow> do {
          r \<leftarrow> ti_Get key atRev t;
          (case r of Inl _ \<Rightarrow> Some ([], []) | Inr (m, _, _) \<Rightarrow> Some ([key], [m]))
        }
      | Some e \<Rightarrow> range_keys atRev (ti_span key e t))"

definition ti_Tombstone :: "bytes \<Rightarrow> revision \<Rightarrow> tree \<Rightarrow> (index_err + tree) option" where
  "ti_Tombstone key r t =
     (case bt_get key t of
        None \<Rightarrow> Some (Inl ErrRevisionNotFound)
      | Some ki \<Rightarrow> do {
          res \<leftarrow> ki_tombstone (rmain r) (rsub r) ki;
          (case res of Inl e \<Rightarrow> Some (Inl e) | Inr ki \<Rightarrow> Some (Inr (bt_replace ki t)))
        })"

fun since_keys :: "int \<Rightarrow> tree \<Rightarrow> revision list option" where
  "since_keys r [] = Some []"
| "since_keys r (ki # t) = do { rs \<leftarrow> ki_since r ki; rest \<leftarrow> since_keys r t; Some (rs @ rest) }"

definition ti_RangeSince :: "bytes \<Rightarrow> bytes option \<Rightarrow> int \<Rightarrow> tree \<Rightarrow> revision list option" where
  "ti_RangeSince key end r t =
     (case end of
        None \<Rightarrow> (case bt_get key t of None \<Rightarrow> Some [] | Some ki \<Rightarrow> ki_since r ki)
      | Some e \<Rightarrow> do { revs \<leftarrow> since_keys r (ti_span key e t); Some (sort revs) })"

text \<open>Compaction of all keys; the ones that become empty are deleted afterwards.\<close>

fun compact_keys :: "int \<Rightarrow> revision set \<Rightarrow> tree \<Rightarrow> (tree \<times> revision set) option" where
  "compact_keys r available [] = Some ([], available)"
| "compact_keys r available (ki # t) = do {
     (ki, available) \<leftarrow> ki_compact r available ki;
     (t, available) \<leftarrow> compact_keys r available t;
     Some (ki # t, available)
   }"

definition ti_Compact :: "int \<Rightarrow> tree \<Rightarrow> (tree \<times> revision set) option" where
  "ti_Compact r t = do {
     (t, available) \<leftarrow> compact_keys r {} t;
     let emptyki = map ki_key (filter ki_isEmpty t);
     Some (fold bt_delete emptyki t, available)
   }"

definition ti_Equal :: "tree \<Rightarrow> tree \<Rightarrow> bool option" where
  "ti_Equal a b =
     (if length a \<noteq> length b then Some False
      else ofold (\<lambda>aki eq. if \<not> eq then Some False
             else do { bki \<leftarrow> bt_get (ki_key aki) b; Some (ki_equal aki bki) }) a True)"

section \<open>The tree as a map\<close>

lemma bt_ok_Cons: "bt_ok (k # t) \<longleftrightarrow> bt_ok t \<and> (\<forall>x \<in> set t. ki_key k < ki_key x)"
  by (auto simp: bt_ok_def)

lemma bt_get_Cons: "bt_get key (k # t) = (if ki_key k = key then Some k else bt_get key t)"
  by (simp add: bt_get_def)

lemma bt_get_Nil [simp]: "bt_get key [] = None"
  by (simp add: bt_get_def)

lemma bt_get_Some: "bt_get key t = Some k \<Longrightarrow> k \<in> set t \<and> ki_key k = key"
  by (auto simp: bt_get_def find_Some_iff)

lemma bt_get_None: "bt_get key t = None \<longleftrightarrow> (\<forall>k \<in> set t. ki_key k \<noteq> key)"
  by (auto simp: bt_get_def find_None_iff)

lemma bt_get_iff: "bt_ok t \<Longrightarrow> bt_get key t = Some k \<longleftrightarrow> k \<in> set t \<and> ki_key k = key"
proof (induction t)
  case (Cons x t)
  then show ?case by (auto simp: bt_get_Cons bt_ok_Cons)
qed simp

lemma bt_get_replace: "bt_get key (bt_replace ki t) = (if key = ki_key ki then Some ki else bt_get key t)"
  by (induction t) (auto simp: bt_get_Cons)

lemma set_bt_replace: "set (bt_replace ki t) \<subseteq> insert ki (set t)"
  by (induction t) auto

lemma bt_ok_replace: "bt_ok t \<Longrightarrow> bt_ok (bt_replace ki t)"
proof (induction t)
  case (Cons k t)
  then show ?case using set_bt_replace [of ki t] by (auto simp: bt_ok_Cons)
qed (simp add: bt_ok_def)

lemma bt_ok_filter: "bt_ok t \<Longrightarrow> bt_ok (filter P t)"
  unfolding bt_ok_def sorted_wrt_map by (rule sorted_wrt_filter)

lemma fold_bt_delete: "fold bt_delete ks t = filter (\<lambda>ki. ki_key ki \<notin> set ks) t"
  by (induction ks arbitrary: t) (auto simp: bt_delete_def intro: filter_cong)

lemma bt_ascend_filter: "bt_ok t \<Longrightarrow> bt_ascend key t = filter (\<lambda>ki. \<not> ki_key ki < key) t"
proof (induction t)
  case (Cons k t)
  have "filter (\<lambda>ki. \<not> ki_key ki < key) t = t" if "\<not> ki_key k < key"
    using Cons.prems that by (intro filter_True) (auto simp: bt_ok_Cons)
  then show ?case using Cons by (simp add: bt_ascend_def bt_ok_Cons)
qed (simp add: bt_ascend_def)

lemma takeWhile_below: "bt_ok t \<Longrightarrow> takeWhile (\<lambda>ki. ki_key ki < e) t = filter (\<lambda>ki. ki_key ki < e) t"
proof (induction t)
  case (Cons k t)
  have "filter (\<lambda>ki. ki_key ki < e) t = []" if "\<not> ki_key k < e"
    using Cons.prems that by (auto simp: bt_ok_Cons filter_empty_conv)
  then show ?case using Cons by (simp add: bt_ok_Cons)
qed simp

definition in_range :: "bytes \<Rightarrow> bytes \<Rightarrow> bytes \<Rightarrow> bool" where
  "in_range key end k \<longleftrightarrow> \<not> k < key \<and> (end = [] \<or> k < end)"

lemma ti_span_filter: "bt_ok t \<Longrightarrow> ti_span key e t = filter (\<lambda>ki. in_range key e (ki_key ki)) t"
proof (cases "e = []")
  case False
  assume ok: "bt_ok t"
  have "takeWhile (\<lambda>ki. ki_key ki < e) (bt_ascend key t) = filter (\<lambda>ki. ki_key ki < e) (bt_ascend key t)"
    using takeWhile_below bt_ok_filter [OF ok] by (simp add: bt_ascend_filter [OF ok])
  then show ?thesis using False ok by (simp add: ti_span_def bt_ascend_filter in_range_def conj_commute)
qed (simp add: ti_span_def bt_ascend_filter in_range_def)

end
