(* ===== verification/Mvcc_Backend.thy ===== *)
theory Mvcc_Backend
  imports Mvcc_Index "HOL-Library.Product_Lexorder" "HOL-Library.Code_Target_Nat" "HOL-Library.Code_Target_Int"
begin

text \<open>
  The keys of the backend: \<^verbatim>\<open>storage/revision.go\<close> and the helpers of \<^verbatim>\<open>storage/kvstore.go\<close> for
  revisions as byte strings; and the bucket of key-value pairs that \<^verbatim>\<open>storage/backend\<close> keeps, an
  ordered map from those byte strings to marshalled pairs.  The bucket is modelled with the
  revision and the tombstone mark in place of the bytes, in their order, and with the pair in place
  of its encoding; that the bytes represent revisions and their order is proved here.
\<close>

section \<open>Revisions as byte strings\<close>

fun put_be :: "nat \<Rightarrow> nat \<Rightarrow> bytes" where
  "put_be 0 n = []"
| "put_be (Suc k) n = put_be k (n div 256) @ [char_of (n mod 256)]"

text \<open>\<^verbatim>\<open>binary.BigEndian.PutUint64\<close> of a signed number, and back.\<close>

definition put_int64 :: "int \<Rightarrow> bytes" where
  "put_int64 i = put_be 8 (nat (i mod 18446744073709551616))"

definition get_be :: "bytes \<Rightarrow> nat" where
  "get_be bs = foldl (\<lambda>n c. n * 256 + of_char c) 0 bs"

definition get_int64 :: "bytes \<Rightarrow> int" where
  "get_int64 bs = (let n = int (get_be bs) in if n < 9223372036854775808 then n else n - 18446744073709551616)"

abbreviation revBytesLen :: nat where
  "revBytesLen \<equiv> 17"

definition revToBytes :: "revision \<Rightarrow> bytes" where
  "revToBytes rv = put_int64 (rmain rv) @ ''_'' @ put_int64 (rsub rv)"

text \<open>The last eight bytes that are read need not be the end of the slice.\<close>

definition bytesToRev :: "bytes \<Rightarrow> revision option" where
  "bytesToRev bs =
     (if length bs < revBytesLen then None
      else Some (Revision (get_int64 (take 8 bs)) (get_int64 (take 8 (drop 9 bs)))))"

definition appendMarkTombstone :: "bytes \<Rightarrow> bytes option" where
  "appendMarkTombstone b = (if length b \<noteq> revBytesLen then None else Some (b @ ''t''))"

definition isTombstone :: "bytes \<Rightarrow> bool" where
  "isTombstone b \<longleftrightarrow> length b = 18 \<and> b ! 17 = CHR ''t''"

text \<open>The keys of the bucket: a revision and whether the change is a deletion.\<close>

type_synonym rkey = "revision \<times> bool"

definition rk_bytes :: "rkey \<Rightarrow> bytes option" where
  "rk_bytes k = (if snd k then appendMarkTombstone (revToBytes (fst k)) else Some (revToBytes (fst k)))"

definition revBytesRange :: "revision \<Rightarrow> rkey \<times> rkey" where
  "revBytesRange rv = ((rv, False), (Revision (rmain rv) (rsub rv + 1), False))"

section \<open>The bucket of key-value pairs\<close>

record KeyValue =
  kv_Key :: bytes
  kv_CreateRevision :: int
  kv_ModRevision :: int
  kv_Version :: int
  kv_Value :: bytes
  kv_Lease :: int

definition zero_KeyValue :: KeyValue where
  "zero_KeyValue = \<lparr>kv_Key = [], kv_CreateRevision = 0, kv_ModRevision = 0, kv_Version = 0, kv_Value = [], kv_Lease = 0\<rparr>"

type_synonym bucket = "(rkey \<times> KeyValue) list"

fun bk_put :: "rkey \<Rightarrow> KeyValue \<Rightarrow> bucket \<Rightarrow> bucket" where
  "bk_put k v [] = [(k, v)]"
| "bk_put k v ((k', v') # b) =
     (if k < k' then (k, v) # (k', v') # b
      else if k = k' then (k, v) # b
      else (k', v') # bk_put k v b)"

text \<open>\<^verbatim>\<open>UnsafeRange\<close>: without an end it looks up one key, otherwise it walks from the key to the end.\<close>

definition bk_range :: "rkey \<Rightarrow> rkey option \<Rightarrow> int \<Rightarrow> bucket \<Rightarrow> bucket" where
  "bk_range k end limit b =
     (case end of
        None \<Rightarrow> (case map_of b k of None \<Rightarrow> [] | Some v \<Rightarrow> [(k, v)])
      | Some e \<Rightarrow> (let es = takeWhile (\<lambda>x. fst x < e) (dropWhile (\<lambda>x. fst x < k) b)
                    in if limit > 0 then take (nat limit) es else es))"

definition bk_delete :: "rkey \<Rightarrow> bucket \<Rightarrow> bucket" where
  "bk_delete k b = filter (\<lambda>x. fst x \<noteq> k) b"

section \<open>The bytes represent the keys\<close>

lemma length_put_be [simp]: "length (put_be k n) = k"
  by (induction k arbitrary: n) auto

lemma length_put_int64 [simp]: "length (put_int64 i) = 8"
  by (simp add: put_int64_def)

lemma get_be_snoc: "get_be (xs @ [c]) = get_be xs * 256 + of_char c"
  by (simp add: get_be_def)

lemma get_put_be: "n < 256 ^ k \<Longrightarrow> get_be (put_be k n) = n"
proof (induction k arbitrary: n)
  case (Suc k)
  then have "n div 256 < 256 ^ k" by (simp add: less_mult_imp_div_less mult.commute)
  then have "get_be (put_be k (n div 256)) = n div 256" by (rule Suc.IH)
  then show ?case by (simp add: get_be_snoc del: of_char_mod_256)
qed (simp add: get_be_def)

lemma get_put_int64:
  assumes "- 9223372036854775808 \<le> i" "i < 9223372036854775808"
  shows "get_int64 (put_int64 i) = i"
proof -
  have "nat (i mod 18446744073709551616) < 256 ^ 8" by simp
  then have "get_be (put_int64 i) = nat (i mod 18446744073709551616)" unfolding put_int64_def by (rule get_put_be)
  then have g: "get_int64 (put_int64 i) = (let n = i mod 18446744073709551616 in if n < 9223372036854775808 then n else n - 18446744073709551616)"
    by (simp add: get_int64_def Let_def)
  show ?thesis
  proof (cases "0 \<le> i")
    case True
    then show ?thesis using assms by (simp add: g)
  next
    case False
    then have "(i + 18446744073709551616) mod 18446744073709551616 = i + 18446744073709551616"
      using assms by (intro mod_pos_pos_trivial) auto
    then have "i mod 18446744073709551616 = i + 18446744073709551616" by simp
    then show ?thesis using False assms by (simp add: g)
  qed
qed

lemma bytes_less_append:
  fixes xs ys :: bytes
  assumes "length xs = length ys"
  shows "xs @ us < ys @ vs \<longleftrightarrow> xs < ys \<or> xs = ys \<and> us < vs"
  using assms by (induction xs ys rule: list_induct2) auto

lemma put_be_less: "a < 256 ^ k \<Longrightarrow> b < 256 ^ k \<Longrightarrow> put_be k a < put_be k b \<longleftrightarrow> a < b"
proof (induction k arbitrary: a b)
  case (Suc k)
  then have d: "a div 256 < 256 ^ k" "b div 256 < 256 ^ k" by (simp_all add: less_mult_imp_div_less mult.commute)
  have e: "put_be k (a div 256) = put_be k (b div 256) \<longleftrightarrow> a div 256 = b div 256"
    using get_put_be [OF d(1)] get_put_be [OF d(2)] by metis
  have c: "(char_of (a mod 256) :: char) < char_of (b mod 256) \<longleftrightarrow> a mod 256 < b mod 256"
    by (simp add: less_char_def of_char_of)
  have "a < b \<longleftrightarrow> a div 256 < b div 256 \<or> a div 256 = b div 256 \<and> a mod 256 < b mod 256"
    using div_mult_mod_eq [of a 256] div_mult_mod_eq [of b 256] mod_less_divisor [of 256 a] mod_less_divisor [of 256 b] by linarith
  with Suc.IH [OF d] e c show ?case by (simp add: bytes_less_append del: char_of_mod_256)
qed simp

definition rv_ok :: "revision \<Rightarrow> bool" where
  "rv_ok rv \<longleftrightarrow> 0 \<le> rmain rv \<and> rmain rv < 9223372036854775808 \<and> 0 \<le> rsub rv \<and> rsub rv < 9223372036854775808"

lemma put_int64_less:
  assumes "0 \<le> i" "i < 9223372036854775808" "0 \<le> j" "j < 9223372036854775808"
  shows "put_int64 i < put_int64 j \<longleftrightarrow> i < j"
  using assms put_be_less [of "nat i" 8 "nat j"] by (auto simp: put_int64_def)

lemma put_int64_eq:
  assumes "0 \<le> i" "i < 9223372036854775808" "0 \<le> j" "j < 9223372036854775808"
  shows "put_int64 i = put_int64 j \<longleftrightarrow> i = j"
proof -
  have "get_int64 (put_int64 i) = i" "get_int64 (put_int64 j) = j" using assms by (auto intro: get_put_int64)
  then show ?thesis by metis
qed

lemma length_revToBytes [simp]: "length (revToBytes rv) = revBytesLen"
  by (simp add: revToBytes_def)

lemma revToBytes_less: "rv_ok a \<Longrightarrow> rv_ok b \<Longrightarrow> revToBytes a < revToBytes b \<longleftrightarrow> a < b"
  by (auto simp: revToBytes_def bytes_less_append put_int64_less put_int64_eq rv_ok_def less_revision_def)

lemma revToBytes_inj: "rv_ok a \<Longrightarrow> rv_ok b \<Longrightarrow> revToBytes a = revToBytes b \<longleftrightarrow> a = b"
  by (auto simp: revToBytes_def put_int64_eq rv_ok_def intro: revision.expand)

lemma bytesToRev_revToBytes: "rv_ok rv \<Longrightarrow> bytesToRev (revToBytes rv @ us) = Some rv"
  by (cases rv) (simp add: bytesToRev_def revToBytes_def rv_ok_def get_put_int64)

end
