(* ===== verification/Lease_Lessor.thy ===== *)
theory Lease_Lessor
  imports Etcd_Prelude
begin

text \<open>
  The owner of the leases, \<^verbatim>\<open>lease/lessor.go\<close>.  The clock is an argument, in nanoseconds, and so is
  the extension that a promotion adds; Go's \<^verbatim>\<open>time.Duration\<close> is a signed 64-bit number and wraps.
  The backend is the bucket of leases, from the identifier to the time to live that the
  marshalled lease holds.  The goroutine that hands out expired leases is the function that
  computes them.
\<close>

section \<open>Leases\<close>

type_synonym LeaseID = int

abbreviation NoLease :: LeaseID where
  "NoLease \<equiv> 0"

datatype lease_err = ErrNotPrimary | ErrLeaseNotFound | ErrLeaseExists

abbreviation minLeaseTTL :: int where
  "minLeaseTTL \<equiv> 5"

abbreviation max_int64 :: int where
  "max_int64 \<equiv> 9223372036854775807"

text \<open>A signed 64-bit number.\<close>

definition int64 :: "int \<Rightarrow> int" where
  "int64 x = (x + 9223372036854775808) mod 18446744073709551616 - 9223372036854775808"

abbreviation second :: int where
  "second \<equiv> 1000000000"

text \<open>The time \<^verbatim>\<open>forever\<close>, in nanoseconds since the epoch.\<close>

definition forever :: int where
  "forever = max_int64 div 2 * second"

record Lease =
  ls_ID :: LeaseID
  ls_TTL :: int
  ls_itemSet :: "bytes list"
  ls_expiry :: int

definition ls_refresh :: "int \<Rightarrow> int \<Rightarrow> Lease \<Rightarrow> Lease" where
  "ls_refresh now ext l =
     (let l = (if ls_TTL l < minLeaseTTL then l\<lparr>ls_TTL := minLeaseTTL\<rparr> else l)
      in l\<lparr>ls_expiry := now + int64 (ext + int64 (second * ls_TTL l))\<rparr>)"

definition ls_forever :: "Lease \<Rightarrow> Lease" where
  "ls_forever l =
     (let l = (if ls_TTL l < minLeaseTTL then l\<lparr>ls_TTL := minLeaseTTL\<rparr> else l)
      in l\<lparr>ls_expiry := forever\<rparr>)"

section \<open>The lessor\<close>

record lessor =
  le_primary :: bool
  le_leaseMap :: "(LeaseID \<times> Lease) list"
  le_b :: "(LeaseID \<times> int) list"

definition le_persist :: "Lease \<Rightarrow> lessor \<Rightarrow> lessor" where
  "le_persist l le = le\<lparr>le_b := AList.update (ls_ID l) (ls_TTL l) (le_b le)\<rparr>"

definition le_Grant :: "int \<Rightarrow> LeaseID \<Rightarrow> int \<Rightarrow> lessor \<Rightarrow> lease_err + (Lease \<times> lessor)" where
  "le_Grant now i ttl le =
     (if i = NoLease then Inl ErrLeaseNotFound
      else if map_of (le_leaseMap le) i \<noteq> None then Inl ErrLeaseExists
      else let l = \<lparr>ls_ID = i, ls_TTL = ttl, ls_itemSet = [], ls_expiry = 0\<rparr>;
               l = (if le_primary le then ls_refresh now 0 l else ls_forever l)
           in Inr (l, le_persist l (le\<lparr>le_leaseMap := AList.update i l (le_leaseMap le)\<rparr>)))"

text \<open>
  A revocation deletes the keys of the lease first; here is the part after that.  The keys
  are the ones of the lease at the start.
\<close>

definition le_items :: "LeaseID \<Rightarrow> lessor \<Rightarrow> lease_err + bytes list" where
  "le_items i le = (case map_of (le_leaseMap le) i of None \<Rightarrow> Inl ErrLeaseNotFound | Some l \<Rightarrow> Inr (ls_itemSet l))"

definition le_remove :: "LeaseID \<Rightarrow> lessor \<Rightarrow> lessor" where
  "le_remove i le = le\<lparr>le_leaseMap := AList.delete i (le_leaseMap le), le_b := AList.delete i (le_b le)\<rparr>"

definition le_Renew :: "int \<Rightarrow> LeaseID \<Rightarrow> lessor \<Rightarrow> lease_err + (int \<times> lessor)" where
  "le_Renew now i le =
     (if \<not> le_primary le then Inl ErrNotPrimary
      else case map_of (le_leaseMap le) i of
        None \<Rightarrow> Inl ErrLeaseNotFound
      | Some l \<Rightarrow> let l = ls_refresh now 0 l
                  in Inr (ls_TTL l, le\<lparr>le_leaseMap := AList.update i l (le_leaseMap le)\<rparr>))"

definition le_Lookup :: "LeaseID \<Rightarrow> lessor \<Rightarrow> Lease option" where
  "le_Lookup i le = map_of (le_leaseMap le) i"

definition le_Promote :: "int \<Rightarrow> int \<Rightarrow> lessor \<Rightarrow> lessor" where
  "le_Promote now ext le =
     le\<lparr>le_primary := True, le_leaseMap := map (\<lambda>(i, l). (i, ls_refresh now ext l)) (le_leaseMap le)\<rparr>"

definition le_Demote :: "lessor \<Rightarrow> lessor" where
  "le_Demote le =
     le\<lparr>le_leaseMap := map (\<lambda>(i, l). (i, ls_forever l)) (le_leaseMap le), le_primary := False\<rparr>"

definition set_add :: "'a \<Rightarrow> 'a list \<Rightarrow> 'a list" where
  "set_add x xs = (if x \<in> set xs then xs else xs @ [x])"

definition le_Attach :: "LeaseID \<Rightarrow> bytes list \<Rightarrow> lessor \<Rightarrow> lease_err + lessor" where
  "le_Attach i items le =
     (case map_of (le_leaseMap le) i of
        None \<Rightarrow> Inl ErrLeaseNotFound
      | Some l \<Rightarrow> Inr (le\<lparr>le_leaseMap :=
          AList.update i (l\<lparr>ls_itemSet := fold set_add items (ls_itemSet l)\<rparr>) (le_leaseMap le)\<rparr>))"

definition le_Detach :: "LeaseID \<Rightarrow> bytes list \<Rightarrow> lessor \<Rightarrow> lease_err + lessor" where
  "le_Detach i items le =
     (case map_of (le_leaseMap le) i of
        None \<Rightarrow> Inl ErrLeaseNotFound
      | Some l \<Rightarrow> Inr (le\<lparr>le_leaseMap :=
          AList.update i (l\<lparr>ls_itemSet := fold removeAll items (ls_itemSet l)\<rparr>) (le_leaseMap le)\<rparr>))"

text \<open>
  The leases are read back in the order of their keys, the identifiers as big-endian unsigned
  numbers from 0 up to but not including the largest signed number.
\<close>

definition le_initAndRecover :: "(LeaseID \<times> int) list \<Rightarrow> (LeaseID \<times> Lease) list" where
  "le_initAndRecover b =
     map (\<lambda>(i, ttl). (i, \<lparr>ls_ID = i, ls_TTL = ttl, ls_itemSet = [], ls_expiry = forever\<rparr>))
       (filter (\<lambda>(i, ttl). 0 \<le> i \<and> i < max_int64) b)"

definition newLessor :: "(LeaseID \<times> int) list \<Rightarrow> lessor" where
  "newLessor b = \<lparr>le_primary = False, le_leaseMap = le_initAndRecover b, le_b = b\<rparr>"

definition le_Recover :: "(LeaseID \<times> int) list \<Rightarrow> lessor \<Rightarrow> lessor" where
  "le_Recover b le = le\<lparr>le_b := b, le_leaseMap := le_initAndRecover b\<rparr>"

definition le_findExpiredLeases :: "int \<Rightarrow> lessor \<Rightarrow> Lease list" where
  "le_findExpiredLeases now le = filter (\<lambda>l. ls_expiry l - now \<le> 0) (map snd (le_leaseMap le))"

text \<open>One round of \<^verbatim>\<open>runLoop\<close>: what it offers to the receiver of expired leases.\<close>

definition le_expired :: "int \<Rightarrow> lessor \<Rightarrow> Lease list" where
  "le_expired now le = (if le_primary le then le_findExpiredLeases now le else [])"

section \<open>Facts\<close>

definition le_inv :: "lessor \<Rightarrow> bool" where
  "le_inv le \<longleftrightarrow> distinct (map fst (le_leaseMap le)) \<and> distinct (map fst (le_b le)) \<and>
     (\<forall>i. map_option ls_TTL (map_of (le_leaseMap le) i) = map_of (le_b le) i) \<and>
     (\<forall>(i, l) \<in> set (le_leaseMap le). ls_ID l = i \<and> i \<noteq> NoLease \<and> minLeaseTTL \<le> ls_TTL l \<and> distinct (ls_itemSet l))"

lemma set_fold_add [simp]: "set (fold set_add items xs) = set items \<union> set xs"
  by (induction items arbitrary: xs) (auto simp: set_add_def)

lemma distinct_fold_add [simp]: "distinct xs \<Longrightarrow> distinct (fold set_add items xs)"
  by (induction items arbitrary: xs) (auto simp: set_add_def)

lemma set_fold_removeAll [simp]: "set (fold removeAll items xs) = set xs - set items"
  by (induction items arbitrary: xs) auto

lemma distinct_fold_removeAll [simp]: "distinct xs \<Longrightarrow> distinct (fold removeAll items xs)"
  by (induction items arbitrary: xs) (auto simp: distinct_removeAll)

lemma int64_id: "- 9223372036854775808 \<le> x \<Longrightarrow> x \<le> max_int64 \<Longrightarrow> int64 x = x"
  by (simp add: int64_def)

lemma ls_refresh_sel [simp]:
  "ls_ID (ls_refresh now ext l) = ls_ID l" "ls_itemSet (ls_refresh now ext l) = ls_itemSet l"
  "ls_TTL (ls_refresh now ext l) = max minLeaseTTL (ls_TTL l)"
  by (auto simp: ls_refresh_def Let_def)

lemma ls_forever_sel [simp]:
  "ls_ID (ls_forever l) = ls_ID l" "ls_itemSet (ls_forever l) = ls_itemSet l"
  "ls_TTL (ls_forever l) = max minLeaseTTL (ls_TTL l)" "ls_expiry (ls_forever l) = forever"
  by (auto simp: ls_forever_def Let_def)

lemma map_of_map_snd: "map_of (map (\<lambda>(i, l). (i, f l)) xs) k = map_option f (map_of xs k)"
  by (induction xs) auto

lemma set_update_subset: "set (AList.update k v xs) \<subseteq> insert (k, v) (set xs)"
  by (induction xs) auto

end
