(* ===== verification/Mvcc_Store.thy ===== *)
theory Mvcc_Store
  imports Mvcc_Backend Lease_Lessor
begin

text \<open>
  The key-value store with revisions, \<^verbatim>\<open>storage/kvstore.go\<close> and \<^verbatim>\<open>storage/kvstore_compaction.go\<close>,
  together with the lessor that it attaches keys to.  Each method runs under the lock of the
  store; the background compaction takes the lock of the backend for one batch at a time and is a
  queue of jobs here, one step per batch.  The random identifier of a transaction is an argument.
  A panic or a fatal log is \<^term>\<open>None\<close>.
\<close>

section \<open>The state\<close>

datatype store_err = ErrTxnIDMismatch | ErrCompacted | ErrFutureRev | ErrCanceled

text \<open>A scheduled compaction: its revision, the revisions to keep and where the next batch starts.\<close>

record cjob =
  cj_rev :: int
  cj_keep :: "revision set"
  cj_last :: rkey

record store =
  st_key :: bucket
  st_scheduled :: "int option"
  st_finished :: "int option"
  st_kvindex :: tree
  st_le :: "lessor option"
  st_currentRev :: revision
  st_compactMainRev :: int
  st_txnID :: int
  st_changes :: "KeyValue list"
  st_jobs :: "cjob list"

definition st_Rev :: "store \<Rightarrow> int" where
  "st_Rev st = rmain (st_currentRev st)"

definition st_FirstRev :: "store \<Rightarrow> int" where
  "st_FirstRev st = st_compactMainRev st"

section \<open>Transactions\<close>

definition st_TxnBegin :: "int \<Rightarrow> store \<Rightarrow> store" where
  "st_TxnBegin i st = st\<lparr>st_currentRev := Revision (rmain (st_currentRev st)) 0, st_txnID := i\<rparr>"

definition st_txnEnd :: "int \<Rightarrow> store \<Rightarrow> store_err + store" where
  "st_txnEnd i st =
     (if i \<noteq> st_txnID st then Inl ErrTxnIDMismatch
      else let r = st_currentRev st
           in Inr (st\<lparr>st_currentRev := Revision (if rsub r \<noteq> 0 then rmain r + 1 else rmain r) 0\<rparr>))"

definition st_TxnEnd :: "int \<Rightarrow> store \<Rightarrow> store_err + store" where
  "st_TxnEnd i st = (case st_txnEnd i st of Inl e \<Rightarrow> Inl e | Inr st \<Rightarrow> Inr st)"

text \<open>
  Reading.  The result has the values, the revision and the error, as in Go all three are returned.
\<close>

fun range_fetch :: "int \<Rightarrow> bucket \<Rightarrow> revision list \<Rightarrow> KeyValue list \<Rightarrow> KeyValue list option" where
  "range_fetch limit b [] kvs = Some kvs"
| "range_fetch limit b (rv # rvs) kvs =
     (case bk_range (fst (revBytesRange rv)) (Some (snd (revBytesRange rv))) 0 b of
        [(_, kv)] \<Rightarrow>
          (let kvs = kvs @ [kv]
           in if limit > 0 \<and> int (length kvs) \<ge> limit then Some kvs else range_fetch limit b rvs kvs)
      | _ \<Rightarrow> None)"

definition st_rangeKeys ::
  "bytes \<Rightarrow> bytes option \<Rightarrow> int \<Rightarrow> int \<Rightarrow> store \<Rightarrow> (KeyValue list \<times> int \<times> store_err option) option" where
  "st_rangeKeys key end limit rangeRev st =
     (let curRev = rmain (st_currentRev st) + (if rsub (st_currentRev st) > 0 then 1 else 0)
      in if rangeRev > curRev then Some ([], rmain (st_currentRev st), Some ErrFutureRev)
         else let rv = (if rangeRev \<le> 0 then curRev else rangeRev)
              in if rv \<le> st_compactMainRev st then Some ([], 0, Some ErrCompacted)
                 else do {
                   (_, revpairs) \<leftarrow> ti_Range key end rv (st_kvindex st);
                   if revpairs = [] then Some ([], curRev, None)
                   else do {
                     kvs \<leftarrow> range_fetch limit (st_key st) revpairs [];
                     Some (kvs, curRev, None)
                   }
                 })"

text \<open>Attaching to and detaching from a lease; without a lessor or on an error the store panics.\<close>

definition st_detach :: "LeaseID \<Rightarrow> bytes \<Rightarrow> store \<Rightarrow> store option" where
  "st_detach i key st =
     (if i = NoLease then Some st
      else do {
        le \<leftarrow> st_le st;
        (case le_Detach i [key] le of Inl _ \<Rightarrow> None | Inr le \<Rightarrow> Some (st\<lparr>st_le := Some le\<rparr>))
      })"

definition st_attach :: "LeaseID \<Rightarrow> bytes \<Rightarrow> store \<Rightarrow> store option" where
  "st_attach i key st =
     (if i = NoLease then Some st
      else do {
        le \<leftarrow> st_le st;
        (case le_Attach i [key] le of Inl _ \<Rightarrow> None | Inr le \<Rightarrow> Some (st\<lparr>st_le := Some le\<rparr>))
      })"

definition st_put :: "bytes \<Rightarrow> bytes \<Rightarrow> LeaseID \<Rightarrow> store \<Rightarrow> store option" where
  "st_put key value leaseID st = do {
     let rv = rmain (st_currentRev st) + 1;
     res \<leftarrow> ti_Get key rv (st_kvindex st);
     (c, ver, oldLease) \<leftarrow>
       (case res of
          Inl _ \<Rightarrow> Some (rv, 0, NoLease)
        | Inr (grev, created, ver) \<Rightarrow>
            (case bk_range (grev, False) None 0 (st_key st) of
               [] \<Rightarrow> None
             | (_, kv) # _ \<Rightarrow> Some (rmain created, ver, kv_Lease kv)));
     let newrev = Revision rv (rsub (st_currentRev st));
     let kv = \<lparr>kv_Key = key, kv_CreateRevision = c, kv_ModRevision = rv, kv_Version = ver + 1,
               kv_Value = value, kv_Lease = leaseID\<rparr>;
     t \<leftarrow> ti_Put key newrev (st_kvindex st);
     let st = st\<lparr>st_key := bk_put (newrev, False) kv (st_key st), st_kvindex := t,
                 st_changes := st_changes st @ [kv],
                 st_currentRev := Revision (rmain (st_currentRev st)) (rsub (st_currentRev st) + 1)\<rparr>;
     st \<leftarrow> st_detach oldLease key st;
     st_attach leaseID key st
   }"

definition st_delete :: "bytes \<Rightarrow> revision \<Rightarrow> store \<Rightarrow> store option" where
  "st_delete key rv st = do {
     let newrev = Revision (rmain (st_currentRev st) + 1) (rsub (st_currentRev st));
     let kv = zero_KeyValue\<lparr>kv_Key := key\<rparr>;
     res \<leftarrow> ti_Tombstone key newrev (st_kvindex st);
     t \<leftarrow> (case res of Inl _ \<Rightarrow> None | Inr t \<Rightarrow> Some t);
     let st = st\<lparr>st_key := bk_put (newrev, True) kv (st_key st), st_kvindex := t,
                 st_changes := st_changes st @ [kv],
                 st_currentRev := Revision (rmain (st_currentRev st)) (rsub (st_currentRev st) + 1)\<rparr>;
     (case bk_range (rv, False) None 0 (st_key st) of
        [] \<Rightarrow> None
      | (_, kv) # _ \<Rightarrow> st_detach (kv_Lease kv) (kv_Key kv) st)
   }"

definition st_deleteRange :: "bytes \<Rightarrow> bytes option \<Rightarrow> store \<Rightarrow> (store \<times> int) option" where
  "st_deleteRange key end st = do {
     let rrev = rmain (st_currentRev st) + (if rsub (st_currentRev st) > 0 then 1 else 0);
     (keys, revs) \<leftarrow> ti_Range key end rrev (st_kvindex st);
     st \<leftarrow> ofold (\<lambda>(k, rv) st. st_delete k rv st) (zip keys revs) st;
     Some (st, int (length keys))
   }"

text \<open>The operations that are transactions of their own; the error of the end is not looked at.\<close>

definition st_end :: "int \<Rightarrow> store \<Rightarrow> store" where
  "st_end i st = (case st_txnEnd i st of Inl _ \<Rightarrow> st | Inr st \<Rightarrow> st)"

definition st_Put :: "int \<Rightarrow> bytes \<Rightarrow> bytes \<Rightarrow> LeaseID \<Rightarrow> store \<Rightarrow> (store \<times> int) option" where
  "st_Put i key value leaseID st = do {
     st \<leftarrow> st_put key value leaseID (st_TxnBegin i st);
     let st = st_end i st;
     Some (st, rmain (st_currentRev st))
   }"

definition st_Range ::
  "int \<Rightarrow> bytes \<Rightarrow> bytes option \<Rightarrow> int \<Rightarrow> int \<Rightarrow> store \<Rightarrow> (store \<times> KeyValue list \<times> int \<times> store_err option) option" where
  "st_Range i key end limit rangeRev st = do {
     let st = st_TxnBegin i st;
     res \<leftarrow> st_rangeKeys key end limit rangeRev st;
     Some (st_end i st, res)
   }"

definition st_DeleteRange :: "int \<Rightarrow> bytes \<Rightarrow> bytes option \<Rightarrow> store \<Rightarrow> (store \<times> int \<times> int) option" where
  "st_DeleteRange i key end st = do {
     (st, n) \<leftarrow> st_deleteRange key end (st_TxnBegin i st);
     let st = st_end i st;
     Some (st, n, rmain (st_currentRev st))
   }"

text \<open>The operations inside a transaction.\<close>

definition st_TxnRange ::
  "int \<Rightarrow> bytes \<Rightarrow> bytes option \<Rightarrow> int \<Rightarrow> int \<Rightarrow> store \<Rightarrow> (KeyValue list \<times> int \<times> store_err option) option" where
  "st_TxnRange i key end limit rangeRev st =
     (if i \<noteq> st_txnID st then Some ([], 0, Some ErrTxnIDMismatch) else st_rangeKeys key end limit rangeRev st)"

definition st_TxnPut :: "int \<Rightarrow> bytes \<Rightarrow> bytes \<Rightarrow> LeaseID \<Rightarrow> store \<Rightarrow> (store_err + store \<times> int) option" where
  "st_TxnPut i key value leaseID st =
     (if i \<noteq> st_txnID st then Some (Inl ErrTxnIDMismatch)
      else do {
        st \<leftarrow> st_put key value leaseID st;
        Some (Inr (st, rmain (st_currentRev st) + 1))
      })"

definition st_TxnDeleteRange :: "int \<Rightarrow> bytes \<Rightarrow> bytes option \<Rightarrow> store \<Rightarrow> (store_err + store \<times> int \<times> int) option" where
  "st_TxnDeleteRange i key end st =
     (if i \<noteq> st_txnID st then Some (Inl ErrTxnIDMismatch)
      else do {
        (st, n) \<leftarrow> st_deleteRange key end st;
        let rv = (if n \<noteq> 0 \<or> rsub (st_currentRev st) \<noteq> 0 then rmain (st_currentRev st) + 1 else rmain (st_currentRev st));
        Some (Inr (st, n, rv))
      })"

definition st_getChanges :: "store \<Rightarrow> KeyValue list \<times> store" where
  "st_getChanges st = (st_changes st, st\<lparr>st_changes := []\<rparr>)"

section \<open>Compaction\<close>

definition st_Compact :: "int \<Rightarrow> store \<Rightarrow> (store_err + store) option" where
  "st_Compact rv st =
     (if rv \<le> st_compactMainRev st then Some (Inl ErrCompacted)
      else if rv > rmain (st_currentRev st) then Some (Inl ErrFutureRev)
      else do {
        (t, keep) \<leftarrow> ti_Compact rv (st_kvindex st);
        let j = \<lparr>cj_rev = rv, cj_keep = keep, cj_last = (Revision 0 0, False)\<rparr>;
        Some (Inr (st\<lparr>st_compactMainRev := rv, st_scheduled := Some rv, st_kvindex := t,
                      st_jobs := st_jobs st @ [j]\<rparr>))
      })"

abbreviation batchsize :: int where
  "batchsize \<equiv> 10000"

text \<open>
  \<^verbatim>\<open>scheduleCompaction\<close>, one batch of the first job.  The first batch starts at a key of zeros
  and the end is the eight bytes of the next main revision; both lie next to the keys that stand
  for them here.
\<close>

definition st_compactBatch :: "store \<Rightarrow> store" where
  "st_compactBatch st =
     (case st_jobs st of
        [] \<Rightarrow> st
      | j # js \<Rightarrow>
          let keys = map fst (bk_range (cj_last j) (Some (Revision (cj_rev j + 1) 0, False)) batchsize (st_key st));
              b = fold (\<lambda>k b. if fst k \<in> cj_keep j then b else bk_delete k b) keys (st_key st)
          in if int (length keys) < batchsize
             then st\<lparr>st_key := b, st_finished := Some (cj_rev j), st_jobs := js\<rparr>
             else let rv = fst (last keys)
                  in st\<lparr>st_key := b, st_jobs := j\<lparr>cj_last := (Revision (rmain rv) (rsub rv + 1), False)\<rparr> # js\<rparr>)"

section \<open>Restoring from the backend\<close>

definition restore_entry :: "rkey \<times> KeyValue \<Rightarrow> store \<Rightarrow> store option" where
  "restore_entry e st = do {
     let ((rv, mark), kv) = e;
     st \<leftarrow> (if mark
       then do {
         res \<leftarrow> ti_Tombstone (kv_Key kv) rv (st_kvindex st);
         let st = (case res of Inl _ \<Rightarrow> st | Inr t \<Rightarrow> st\<lparr>st_kvindex := t\<rparr>);
         if kv_Lease kv = NoLease then Some st
         else do {
           le \<leftarrow> st_le st;
           (case le_Detach (kv_Lease kv) [kv_Key kv] le of
              Inl e \<Rightarrow> if e = ErrLeaseNotFound then Some st else None
            | Inr le \<Rightarrow> Some (st\<lparr>st_le := Some le\<rparr>))
         }
       }
       else do {
         t \<leftarrow> ti_Restore (kv_Key kv) (Revision (kv_CreateRevision kv) 0) rv (kv_Version kv) (st_kvindex st);
         let st = st\<lparr>st_kvindex := t\<rparr>;
         if kv_Lease kv = NoLease then Some st
         else do {
           le \<leftarrow> st_le st;
           (case le_Attach (kv_Lease kv) [kv_Key kv] le of
              Inl e \<Rightarrow> if e = ErrLeaseNotFound then Some st else None
            | Inr le \<Rightarrow> Some (st\<lparr>st_le := Some le\<rparr>))
         }
       });
     Some (st\<lparr>st_currentRev := rv\<rparr>)
   }"

text \<open>The second result is the compaction to resume, which runs as its own goroutine.\<close>

definition st_restore :: "store \<Rightarrow> (store \<times> int option) option" where
  "st_restore st = do {
     let st = (case st_finished st of None \<Rightarrow> st | Some r \<Rightarrow> st\<lparr>st_compactMainRev := r\<rparr>);
     let es = bk_range (Revision 1 0, False) (Some (Revision max_int64 max_int64, False)) 0 (st_key st);
     st \<leftarrow> ofold restore_entry es st;
     Some (st, case st_scheduled st of
                 None \<Rightarrow> None
               | Some c \<Rightarrow> if c > st_compactMainRev st then Some c else None)
   }"

text \<open>The backend as the store sees it: the pairs and the two revisions of the meta bucket.\<close>

type_synonym backend = "bucket \<times> int option \<times> int option"

definition NewStore :: "backend \<Rightarrow> lessor option \<Rightarrow> (store \<times> int option) option" where
  "NewStore b le =
     (let (key, sched, fin) = b
      in st_restore \<lparr>st_key = key, st_scheduled = sched, st_finished = fin, st_kvindex = [], st_le = le,
           st_currentRev = Revision 1 0, st_compactMainRev = - 1, st_txnID = 0, st_changes = [], st_jobs = []\<rparr>)"

definition st_Restore :: "backend \<Rightarrow> store \<Rightarrow> (store \<times> int option) option" where
  "st_Restore b st =
     (let (key, sched, fin) = b
      in st_restore (st\<lparr>st_key := key, st_scheduled := sched, st_finished := fin, st_kvindex := [],
           st_currentRev := Revision 1 0, st_compactMainRev := - 1, st_txnID := - 1, st_jobs := []\<rparr>))"

definition st_Equal :: "store \<Rightarrow> store \<Rightarrow> bool option" where
  "st_Equal a b =
     (if st_currentRev a \<noteq> st_currentRev b then Some False
      else if st_compactMainRev a \<noteq> st_compactMainRev b then Some False
      else ti_Equal (st_kvindex a) (st_kvindex b))"

section \<open>Leases and the store\<close>

text \<open>
  \<^verbatim>\<open>Revoke\<close>: every key of the lease is deleted in a transaction of its own, then the lease goes.
\<close>

definition st_Revoke :: "int \<Rightarrow> LeaseID \<Rightarrow> store \<Rightarrow> (lease_err + store) option" where
  "st_Revoke i l st = do {
     le \<leftarrow> st_le st;
     (case le_items l le of
        Inl e \<Rightarrow> Some (Inl e)
      | Inr items \<Rightarrow> do {
          st \<leftarrow> ofold (\<lambda>k st. map_option fst (st_DeleteRange i k None st)) items st;
          le \<leftarrow> st_le st;
          Some (Inr (st\<lparr>st_le := Some (le_remove l le)\<rparr>))
        })
   }"

text \<open>
  The part of \<^verbatim>\<open>applySnapshot\<close> of the server that concerns the store: first the pairs are restored
  from the new backend, then the lessor recovers its leases.
\<close>

definition applySnapshot :: "backend \<Rightarrow> (LeaseID \<times> int) list \<Rightarrow> store \<Rightarrow> (store \<times> int option) option" where
  "applySnapshot b leases st = do {
     (st, p) \<leftarrow> st_Restore b st;
     Some (st\<lparr>st_le := map_option (le_Recover leases) (st_le st)\<rparr>, p)
   }"

end
