(* ===== verification/Mvcc_Index_View.thy ===== *)
theory Mvcc_Index_View
  imports Mvcc_Index
begin

text \<open>
  The index of all keys as a map from keys to histories; every operation of
  \<^verbatim>\<open>storage/index.go\<close> refines an operation on that map.
\<close>

section \<open>The histories of all keys\<close>

definition ti_events :: "tree \<Rightarrow> bytes \<Rightarrow> kevent list" where
  "ti_events t key = (case bt_get key t of None \<Rightarrow> [] | Some ki \<Rightarrow> ki_events ki)"

definition ti_inv :: "tree \<Rightarrow> bool" where
  "ti_inv t \<longleftrightarrow> bt_ok t \<and> (\<forall>ki \<in> set t. ki_inv ki \<and> ki_events ki \<noteq> [])"

text \<open>All changes so far are below a revision.\<close>

definition ti_below :: "revision \<Rightarrow> tree \<Rightarrow> bool" where
  "ti_below rv t \<longleftrightarrow> (\<forall>ki \<in> set t. ki_modified ki < rv)"

lemma ti_inv_get: "ti_inv t \<Longrightarrow> bt_get key t = Some ki \<Longrightarrow> ki_inv ki \<and> ki_events ki \<noteq> [] \<and> \<not> ki_isEmpty ki \<and> ki_key ki = key"
  using bt_get_Some [of key t ki] ki_isEmpty_events [of ki] by (auto simp: ti_inv_def)

lemma ti_inv_replace: "ti_inv t \<Longrightarrow> ki_inv ki \<Longrightarrow> ki_events ki \<noteq> [] \<Longrightarrow> ti_inv (bt_replace ki t)"
  using set_bt_replace [of ki t] bt_ok_replace by (auto simp: ti_inv_def)

lemma ti_events_replace: "ti_events (bt_replace ki t) = (ti_events t)(ki_key ki := ki_events ki)"
  by (auto simp: ti_events_def bt_get_replace fun_eq_iff)

lemma ti_below_replace: "ti_below rv t \<Longrightarrow> ki_modified ki < rv \<Longrightarrow> ti_below rv (bt_replace ki t)"
  using set_bt_replace [of ki t] by (auto simp: ti_below_def)

lemma ti_below_mono: "ti_below rv t \<Longrightarrow> rv \<le> rv' \<Longrightarrow> ti_below rv' t"
  by (auto simp: ti_below_def)

lemma ti_events_ok: "ti_inv t \<Longrightarrow> ev_ok (ti_events t key)"
  using ti_inv_get [of t key] by (cases "bt_get key t") (auto simp: ti_events_def ki_inv_def ev_ok_def)

lemma ti_events_below:
  assumes "ti_inv t" "ti_below rv t" "e \<in> set (ti_events t key)"
  shows "fst e < rv"
proof -
  from assms(3) obtain ki where ki: "bt_get key t = Some ki" "e \<in> set (ki_events ki)"
    by (cases "bt_get key t") (auto simp: ti_events_def)
  have "fst e \<le> ki_modified ki" using ti_inv_get [OF assms(1) ki(1)] ki(2) by (simp add: ki_inv_def)
  also have "ki_modified ki < rv" using assms(2) bt_get_Some [OF ki(1)] by (simp add: ti_below_def)
  finally show ?thesis .
qed

section \<open>Reading\<close>

lemma ti_Get_events:
  "ti_inv t \<Longrightarrow> ti_Get key r t = Some (case ev_at r (ti_events t key) of None \<Rightarrow> Inl ErrRevisionNotFound | Some x \<Rightarrow> Inr x)"
  using ti_inv_get [of t key]
  by (cases "bt_get key t") (auto simp: ti_Get_def ti_events_def ki_get_events ev_at_def ev_latest_def)

definition ki_at :: "int \<Rightarrow> keyIndex \<Rightarrow> (bytes \<times> revision) option" where
  "ki_at r ki = map_option (\<lambda>(m, _, _). (ki_key ki, m)) (ev_at r (ki_events ki))"

lemma range_keys_events:
  assumes "\<forall>ki \<in> set t. ki_inv ki \<and> ki_events ki \<noteq> []"
  shows "range_keys r t = Some (map fst (List.map_filter (ki_at r) t), map snd (List.map_filter (ki_at r) t))"
  using assms
proof (induction t)
  case (Cons ki t)
  then have "ki_get r ki = Some (case ev_at r (ki_events ki) of None \<Rightarrow> Inl ErrRevisionNotFound | Some x \<Rightarrow> Inr x)"
    using ki_get_events [of ki r] ki_isEmpty_events [of ki] by simp
  then show ?case using Cons
    by (cases "ev_at r (ki_events ki)") (auto simp: map_filter_def ki_at_def)
qed (simp add: map_filter_def)

text \<open>A range as a list of keys and revisions in ascending order, the ones of the keys that exist.\<close>

definition range_of :: "bytes \<Rightarrow> bytes option \<Rightarrow> bytes \<Rightarrow> bool" where
  "range_of key end k \<longleftrightarrow> (case end of None \<Rightarrow> k = key | Some e \<Rightarrow> in_range key e k)"

lemma map_filter_sorted:
  assumes "bt_ok t"
  shows "sorted_wrt (<) (map fst (List.map_filter (ki_at r) t))"
  using assms
proof (induction t)
  case (Cons ki t)
  have "ki_key ki < k" if "k \<in> fst ` set (List.map_filter (ki_at r) t)" for k
    using that Cons.prems by (auto simp: map_filter_def bt_ok_Cons ki_at_def)
  with Cons show ?case by (auto simp: map_filter_def bt_ok_Cons ki_at_def)
qed (simp add: map_filter_def)

lemma ti_Range_events:
  assumes "ti_inv t"
  shows "\<exists>kr. ti_Range key end r t = Some (map fst kr, map snd kr) \<and> sorted_wrt (<) (map fst kr) \<and>
    (\<forall>k rv. (k, rv) \<in> set kr \<longleftrightarrow> range_of key end k \<and> (\<exists>c v. ev_at r (ti_events t k) = Some (rv, c, v)))"
proof (cases "end")
  case None
  show ?thesis
  proof (cases "ev_at r (ti_events t key)")
    case None
    then show ?thesis using \<open>end = None\<close> assms
      by (intro exI [of _ "[]"]) (auto simp: ti_Range_def ti_Get_events range_of_def)
  next
    case (Some x)
    obtain m c v where "x = (m, c, v)" by (cases x)
    then show ?thesis using \<open>end = None\<close> assms Some
      by (intro exI [of _ "[(key, m)]"]) (auto simp: ti_Range_def ti_Get_events range_of_def)
  qed
next
  case (Some e)
  have ok: "bt_ok t" and all: "\<forall>ki \<in> set t. ki_inv ki \<and> ki_events ki \<noteq> []" using assms by (auto simp: ti_inv_def)
  let ?f = "filter (\<lambda>ki. in_range key e (ki_key ki)) t" and ?kr = "List.map_filter (ki_at r) (filter (\<lambda>ki. in_range key e (ki_key ki)) t)"
  have "ti_Range key end r t = Some (map fst ?kr, map snd ?kr)"
    using Some all by (simp add: ti_Range_def ti_span_filter [OF ok] range_keys_events)
  moreover have "sorted_wrt (<) (map fst ?kr)" by (rule map_filter_sorted [OF bt_ok_filter [OF ok]])
  moreover have "(k, rv) \<in> set ?kr \<longleftrightarrow> range_of key end k \<and> (\<exists>c v. ev_at r (ti_events t k) = Some (rv, c, v))" for k rv
  proof
    assume "(k, rv) \<in> set ?kr"
    then obtain ki where "ki \<in> set t" "in_range key e (ki_key ki)" "ki_at r ki = Some (k, rv)"
      by (auto simp: map_filter_def)
    then show "range_of key end k \<and> (\<exists>c v. ev_at r (ti_events t k) = Some (rv, c, v))"
      using bt_get_iff [OF ok, of k ki] Some by (auto simp: ki_at_def ti_events_def range_of_def)
  next
    assume R: "range_of key end k \<and> (\<exists>c v. ev_at r (ti_events t k) = Some (rv, c, v))"
    then obtain c v where e: "ev_at r (ti_events t k) = Some (rv, c, v)" by auto
    then obtain ki where ki: "bt_get k t = Some ki" by (auto simp: ti_events_def ev_at_def ev_latest_def split: option.splits)
    then have "ki \<in> set t" "ki_key ki = k" using bt_get_Some by blast+
    moreover have "ki_at r ki = Some (k, rv)" using e ki calculation by (simp add: ki_at_def ti_events_def)
    ultimately show "(k, rv) \<in> set ?kr" using R Some
      by (force simp: map_filter_def range_of_def)
  qed
  ultimately show ?thesis by blast
qed

section \<open>Changes\<close>

lemma ti_Put_events:
  assumes "ti_inv t" "ti_below rv t" "Revision 0 0 < rv"
  shows "\<exists>t'. ti_Put key rv t = Some t' \<and> ti_inv t' \<and>
    ti_events t' = (ti_events t)(key := ti_events t key @ [(rv, Some (ev_next rv (ti_events t key)))]) \<and>
    (\<forall>rv'. rv < rv' \<longrightarrow> ti_below rv' t')"
proof -
  obtain m s where rv: "rv = Revision m s" by (cases rv)
  let ?ki = "case bt_get key t of None \<Rightarrow> new_keyIndex key | Some okeyi \<Rightarrow> okeyi"
  have k: "ki_key ?ki = key" "ki_events ?ki = ti_events t key" "ki_inv ?ki \<or> ki_generations ?ki = []"
    using ti_inv_get [OF assms(1), of key]
    by (auto simp: ti_events_def new_keyIndex_def ki_events_def split: option.splits)
  have "ki_modified ?ki < rv"
    using assms(2,3) bt_get_Some [of key t] by (cases "bt_get key t") (auto simp: ti_below_def new_keyIndex_def)
  then obtain ki where p: "ki_put m s ?ki = Some ki" using ki_put_total [of m s ?ki] rv by auto
  note P = ki_put_events [OF p]
  have i: "put_info ?ki rv = ev_next rv (ti_events t key)"
    using k put_info_events [of ?ki] by (auto simp: put_info_def ki_events_def ev_next_def)
  have "ti_inv (bt_replace ki t)" using ti_inv_replace [OF assms(1) ki_put_inv [OF k(3) p]] P(1) by simp
  moreover have "ti_events (bt_replace ki t) = (ti_events t)(key := ti_events t key @ [(rv, Some (ev_next rv (ti_events t key)))])"
    using P(1,2) k i rv by (simp add: ti_events_replace)
  moreover have "ti_below rv' (bt_replace ki t)" if "rv < rv'" for rv'
    using that ti_below_mono [OF assms(2), of rv'] P(3) rv by (auto intro: ti_below_replace)
  ultimately show ?thesis using p rv by (auto simp: ti_Put_def)
qed

text \<open>Whether a key exists now.\<close>

definition ev_live :: "(revision \<times> 'a option) list \<Rightarrow> bool" where
  "ev_live evs \<longleftrightarrow> evs \<noteq> [] \<and> snd (last evs) \<noteq> None"

lemma ti_Tombstone_events:
  assumes "ti_inv t" "ti_below rv t"
  shows "if ev_live (ti_events t key)
    then \<exists>t'. ti_Tombstone key rv t = Some (Inr t') \<and> ti_inv t' \<and>
      ti_events t' = (ti_events t)(key := ti_events t key @ [(rv, None)]) \<and> (\<forall>rv'. rv < rv' \<longrightarrow> ti_below rv' t')
    else ti_Tombstone key rv t = Some (Inl ErrRevisionNotFound)"
proof (cases "bt_get key t")
  case None
  then show ?thesis by (simp add: ti_Tombstone_def ti_events_def ev_live_def)
next
  case (Some ki)
  obtain m s where rv: "rv = Revision m s" by (cases rv)
  have k: "ki_inv ki" "ki_events ki \<noteq> []" "\<not> ki_isEmpty ki" "ki_key ki = key" using ti_inv_get [OF assms(1) Some] by auto
  have e: "ti_events t key = ki_events ki" using Some by (simp add: ti_events_def)
  have l: "ev_live (ti_events t key) \<longleftrightarrow> g_revs (last (ki_generations ki)) \<noteq> []"
    using last_event_live [OF k(1)] e by (simp add: ev_live_def)
  have m: "ki_modified ki < rv" using assms(2) bt_get_Some [OF Some] by (auto simp: ti_below_def)
  show ?thesis
  proof (cases "ev_live (ti_events t key)")
    case True
    then obtain ki' where p: "ki_tombstone m s ki = Some (Inr ki')"
      using ki_tombstone_total [OF k(1,3), of m s] l m rv by simp
    note P = ki_tombstone_events [OF p]
    have "ti_inv (bt_replace ki' t)" using ti_inv_replace [OF assms(1) P(4) [OF k(1)]] P(1) by simp
    moreover have "ti_events (bt_replace ki' t) = (ti_events t)(key := ti_events t key @ [(rv, None)])"
      using P(1,2) k rv e by (simp add: ti_events_replace)
    moreover have "ti_below rv' (bt_replace ki' t)" if "rv < rv'" for rv'
      using that ti_below_mono [OF assms(2), of rv'] P(3) rv by (auto intro: ti_below_replace)
    ultimately show ?thesis using True p rv Some by (auto simp: ti_Tombstone_def)
  next
    case False
    then show ?thesis using ki_tombstone_total [OF k(1,3), of m s] l rv Some by (simp add: ti_Tombstone_def)
  qed
qed

lemma ti_Restore_events:
  assumes "ti_inv t" "ti_below modified t" "Revision 0 0 < modified"
  shows "\<exists>t'. ti_Restore key created modified ver t = Some t' \<and> ti_inv t' \<and>
    ti_events t' = (ti_events t)(key := ti_events t key @ [(modified,
      Some (if ti_events t key = [] then (created, ver) else ev_next modified (ti_events t key)))]) \<and>
    (\<forall>rv'. modified < rv' \<longrightarrow> ti_below rv' t')"
proof (cases "bt_get key t")
  case None
  let ?ki = "the (ki_restore created modified ver (new_keyIndex key))"
  have p: "ki_restore created modified ver (new_keyIndex key) = Some ?ki" by (simp add: ki_restore_def new_keyIndex_def)
  note P = ki_restore_events [OF p]
  have "ki_key ?ki = key" using P(3) by (simp add: new_keyIndex_def)
  then have "ti_inv (bt_replace ?ki t) \<and> ti_events (bt_replace ?ki t) = (ti_events t)(key := [(modified, Some (created, ver))])"
    using ti_inv_replace [OF assms(1) P(2)] P(1) by (simp add: ti_events_replace)
  moreover have "ti_below rv' (bt_replace ?ki t)" if "modified < rv'" for rv'
    using that ti_below_mono [OF assms(2), of rv'] P(4) by (auto intro: ti_below_replace)
  moreover have "ti_events t key = []" using None by (simp add: ti_events_def)
  moreover have "ti_Restore key created modified ver t = Some (bt_replace ?ki t)"
    unfolding ti_Restore_def using None p by (metis bind.bind_lunit option.simps(4))
  ultimately show ?thesis by auto
next
  case (Some ki)
  then have "ti_events t key \<noteq> []" using ti_inv_get [OF assms(1)] by (simp add: ti_events_def)
  moreover have "ti_Restore key created modified ver t = ti_Put key modified t" using Some by (simp add: ti_Restore_def ti_Put_def)
  ultimately show ?thesis using ti_Put_events [OF assms, of key] by simp
qed

section \<open>Compaction\<close>

lemma compact_keys_events:
  assumes "\<forall>ki \<in> set t. ki_inv ki \<and> ki_events ki \<noteq> []"
  shows "\<exists>t'. compact_keys r av t = Some (t', av \<union> (\<Union>ki \<in> set t. ev_kept r (ki_events ki))) \<and>
    list_all2 (\<lambda>ki ki'. ki_key ki' = ki_key ki \<and> ki_modified ki' = ki_modified ki \<and> ki_inv ki' \<and> ki_events ki' = ev_compact r (ki_events ki)) t t'"
  using assms
proof (induction t arbitrary: av)
  case (Cons ki t)
  then have "\<not> ki_isEmpty ki" "ki_inv ki" using ki_isEmpty_events [of ki] by simp_all
  then obtain gs where gs: "ki_compact r av ki = Some (ki\<lparr>ki_generations := gs\<rparr>, av \<union> ev_kept r (ki_events ki))"
    "gens_events gs = ev_compact r (ki_events ki)" "ki_inv (ki\<lparr>ki_generations := gs\<rparr>)" using ki_compact_events by blast
  from Cons obtain t' where "compact_keys r (av \<union> ev_kept r (ki_events ki)) t =
      Some (t', av \<union> ev_kept r (ki_events ki) \<union> (\<Union>ki \<in> set t. ev_kept r (ki_events ki)))"
    "list_all2 (\<lambda>ki ki'. ki_key ki' = ki_key ki \<and> ki_modified ki' = ki_modified ki \<and> ki_inv ki' \<and> ki_events ki' = ev_compact r (ki_events ki)) t t'"
    using Cons.IH [of "av \<union> ev_kept r (ki_events ki)"] by auto
  then show ?case using gs
    by (intro exI [of _ "ki\<lparr>ki_generations := gs\<rparr> # t'"]) (simp add: ki_events_def Un_assoc)
qed simp

lemma bt_get_rel:
  assumes "list_all2 R t t'" "\<And>a b. R a b \<Longrightarrow> ki_key b = ki_key a"
  shows "rel_option R (bt_get key t) (bt_get key t')"
  using assms(1) by induction (use assms(2) in \<open>auto simp: bt_get_Cons\<close>)

lemma bt_get_filter:
  assumes "bt_ok t"
  shows "bt_get key (filter P t) = (case bt_get key t of None \<Rightarrow> None | Some ki \<Rightarrow> if P ki then Some ki else None)"
  using assms
proof (induction t)
  case (Cons k t)
  then have "bt_get (ki_key k) (filter P t) = None" by (auto simp: bt_get_None bt_ok_Cons)
  with Cons show ?case by (auto simp: bt_get_Cons bt_ok_Cons)
qed simp

lemma ti_Compact_events:
  assumes "ti_inv t"
  shows "\<exists>t' av. ti_Compact r t = Some (t', av) \<and> ti_inv t' \<and> av = (\<Union>k. ev_kept r (ti_events t k)) \<and>
    ti_events t' = (\<lambda>k. ev_compact r (ti_events t k)) \<and> (\<forall>rv. ti_below rv t \<longrightarrow> ti_below rv t')"
proof -
  have ok: "bt_ok t" and all: "\<forall>ki \<in> set t. ki_inv ki \<and> ki_events ki \<noteq> []" using assms by (auto simp: ti_inv_def)
  let ?R = "\<lambda>ki ki'. ki_key ki' = ki_key ki \<and> ki_modified ki' = ki_modified ki \<and> ki_inv ki' \<and> ki_events ki' = ev_compact r (ki_events ki)"
  from compact_keys_events [OF all, of r "{}"] obtain u where
    u: "compact_keys r {} t = Some (u, \<Union>ki \<in> set t. ev_kept r (ki_events ki))" and R: "list_all2 ?R t u" by auto
  have "map ki_key u = map ki_key t" using R by induction simp_all
  then have oku: "bt_ok u" using ok by (simp add: bt_ok_def)
  have invu: "\<forall>ki \<in> set u. ki_inv ki" using R by induction simp_all
  have below: "ti_below rv t \<longrightarrow> ti_below rv u" for rv using R by induction (simp_all add: ti_below_def)
  let ?t = "filter (\<lambda>ki. \<not> ki_isEmpty ki) u"
  have "fold bt_delete (map ki_key (filter ki_isEmpty u)) u = ?t"
  proof -
    have "ki_key ki \<notin> ki_key ` set (filter ki_isEmpty u) \<longleftrightarrow> \<not> ki_isEmpty ki" if "ki \<in> set u" for ki
    proof -
      have "ki' = ki" if "ki' \<in> set u" "ki_key ki' = ki_key ki" for ki'
        using that \<open>ki \<in> set u\<close> bt_get_iff [OF oku, of "ki_key ki" ki] bt_get_iff [OF oku, of "ki_key ki" ki'] by simp
      then show ?thesis using that by (auto simp: image_iff)
    qed
    then show ?thesis by (auto simp: fold_bt_delete intro: filter_cong)
  qed
  then have c: "ti_Compact r t = Some (?t, \<Union>ki \<in> set t. ev_kept r (ki_events ki))" by (simp add: ti_Compact_def u Let_def)
  have "ti_inv ?t" using invu ki_isEmpty_events bt_ok_filter [OF oku] by (auto simp: ti_inv_def)
  moreover have "ti_events ?t k = ev_compact r (ti_events t k)" for k
  proof -
    have R': "rel_option ?R (bt_get k t) (bt_get k u)" using bt_get_rel [OF R] by simp
    show ?thesis
    proof (cases "bt_get k u")
      case None
      then have "bt_get k t = None" using R' by (cases "bt_get k t") auto
      with None show ?thesis by (simp add: ti_events_def bt_get_filter [OF oku] ev_compact_def ev_latest_def)
    next
      case (Some ki)
      then obtain ko where ko: "bt_get k t = Some ko" "?R ko ki" using R' by (cases "bt_get k t") auto
      have "ki_isEmpty ki \<longleftrightarrow> ki_events ki = []" using ko(2) ki_isEmpty_events by blast
      with Some ko show ?thesis by (auto simp: ti_events_def bt_get_filter [OF oku])
    qed
  qed
  moreover have "(\<Union>ki \<in> set t. ev_kept r (ki_events ki)) = (\<Union>k. ev_kept r (ti_events t k))"
  proof -
    have "ti_events t (ki_key ki) = ki_events ki" if "ki \<in> set t" for ki
      using that bt_get_iff [OF ok, of "ki_key ki" ki] by (simp add: ti_events_def)
    then have "(\<Union>ki \<in> set t. ev_kept r (ki_events ki)) \<subseteq> (\<Union>k. ev_kept r (ti_events t k))" by (metis (no_types, lifting) SUP_subset_mono UNIV_I UN_upper UN_least)
    moreover have "ev_kept r (ti_events t k) \<subseteq> (\<Union>ki \<in> set t. ev_kept r (ki_events ki))" for k
      using bt_get_Some [of k t] by (cases "bt_get k t") (auto simp: ti_events_def ev_kept_def ev_latest_def)
    ultimately show ?thesis by blast
  qed
  moreover have "ti_below rv t \<longrightarrow> ti_below rv ?t" for rv using below [of rv] by (auto simp: ti_below_def)
  ultimately show ?thesis using c by blast
qed

end
