(* ===== verification/Mvcc_History.thy ===== *)
theory Mvcc_History
  imports Mvcc_Index_View Mvcc_Backend
begin

text \<open>
  The bucket as histories: the changes of a key in the order of their revisions.  The facts about
  compaction of histories that the store rests on are here.
\<close>

section \<open>More on histories\<close>

lemma ev_at_Some: "ev_at r evs = Some (rv, x) \<longleftrightarrow> ev_latest r evs = Some (rv, Some x)"
  by (auto simp: ev_at_def split: option.splits)

lemma ev_at_None: "ev_at r evs = None \<longleftrightarrow> (\<forall>rv x. ev_latest r evs \<noteq> Some (rv, Some x))"
  by (auto simp: ev_at_def split: option.splits)

lemma ev_latest_Nil [simp]: "ev_latest r [] = None"
  by (simp add: ev_latest_def)

lemma ev_latest_None: "ev_latest r evs = None \<longleftrightarrow> (\<forall>e \<in> set evs. r < rmain (fst e))"
  by (auto simp: ev_latest_def Let_def filter_empty_conv not_le)

lemma ev_compact_at:
  "ev_compact r evs = (case ev_at r evs of None \<Rightarrow> [] | Some (rv, x) \<Rightarrow> [(rv, Some x)]) @ filter (\<lambda>e. r < rmain (fst e)) evs"
  by (auto simp: ev_compact_def ev_at_def split: option.splits)

lemma ev_kept_at: "ev_kept r evs = (case ev_at r evs of None \<Rightarrow> {} | Some (rv, x) \<Rightarrow> {rv})"
  by (auto simp: ev_kept_def ev_at_def split: option.splits)

text \<open>The latest event is the last one up to the revision.\<close>

lemma ev_latest_after:
  assumes "ev_ok evs" "ev_latest r evs = Some e" "f \<in> set evs" "rmain (fst f) \<le> r"
  shows "fst f \<le> fst e"
proof -
  let ?es = "filter (\<lambda>e. rmain (fst e) \<le> r) evs"
  have "?es \<noteq> []" "e = last ?es" using assms(2) by (auto simp: ev_latest_def Let_def split: if_splits)
  then have es: "?es = butlast ?es @ [e]" by simp
  have "sorted_wrt (\<lambda>a b. fst a < fst b) ?es" using assms(1) by (simp add: ev_ok_def sorted_wrt_map sorted_wrt_filter)
  then have "\<forall>x \<in> set (butlast ?es). fst x < fst e" by (subst (asm) es) (simp add: sorted_wrt_append)
  moreover have "f \<in> set ?es" using assms(3,4) by simp
  then have "f \<in> set (butlast ?es) \<or> f = e" by (subst (asm) es) auto
  ultimately show ?thesis by auto
qed

lemma ev_latestI:
  assumes "ev_ok evs" "e \<in> set evs" "rmain (fst e) \<le> r" "\<And>f. f \<in> set evs \<Longrightarrow> rmain (fst f) \<le> r \<Longrightarrow> fst f \<le> fst e"
  shows "ev_latest r evs = Some e"
proof (cases "ev_latest r evs")
  case None
  then show ?thesis using assms(2,3) by (auto simp: ev_latest_None)
next
  case (Some f)
  have "fst e \<le> fst f" using ev_latest_after [OF assms(1) Some assms(2,3)] .
  moreover have f: "f \<in> set evs" "rmain (fst f) \<le> r" using ev_latest_bound [OF Some] by auto
  ultimately have "fst e = fst f" using assms(4) [OF f] by simp
  moreover have "distinct (map fst evs)" using assms(1) by (simp add: ev_ok_def strict_sorted_iff)
  ultimately have "e = f" using assms(2) f(1) by (simp add: distinct_map inj_on_def)
  then show ?thesis using Some by simp
qed

lemma ev_at_all:
  assumes "\<forall>e \<in> set evs. rmain (fst e) \<le> r"
  shows "ev_at r evs = (if ev_live evs then Some (fst (last evs), the (snd (last evs))) else None)"
proof -
  have "ev_latest r evs = (if evs = [] then None else Some (last evs))" using assms by (simp add: ev_latest_def)
  then show ?thesis by (auto simp: ev_at_def ev_live_def split: option.splits prod.splits)
qed

lemma ev_ok_filter: "ev_ok evs \<Longrightarrow> ev_ok (filter P evs)"
  unfolding ev_ok_def sorted_wrt_map by (rule sorted_wrt_filter)

lemma ev_ok_append: "ev_ok (xs @ ys) \<longleftrightarrow> ev_ok xs \<and> ev_ok ys \<and> (\<forall>x \<in> set xs. \<forall>y \<in> set ys. fst x < fst y)"
  by (auto simp: ev_ok_def sorted_wrt_append)

section \<open>Leading tombstones\<close>

text \<open>A restored index does not see the deletions before the first put.\<close>

definition nolead :: "(revision \<times> 'a option) list \<Rightarrow> (revision \<times> 'a option) list" where
  "nolead evs = dropWhile (\<lambda>e. snd e = None) evs"

lemma nolead_split: "\<exists>ts. evs = ts @ nolead evs \<and> (\<forall>e \<in> set ts. snd e = None)"
  unfolding nolead_def by (intro exI [of _ "takeWhile (\<lambda>e. snd e = None) evs"]) (auto dest: set_takeWhileD)

lemma nolead_id: "evs = [] \<or> snd (hd evs) \<noteq> None \<Longrightarrow> nolead evs = evs"
  by (cases evs) (auto simp: nolead_def)

lemma nolead_hd: "nolead evs = [] \<or> snd (hd (nolead evs)) \<noteq> None"
  unfolding nolead_def by (induction evs) auto

lemma nolead_tombs: "\<forall>e \<in> set ts. snd e = None \<Longrightarrow> nolead (ts @ evs) = nolead evs"
  by (induction ts) (auto simp: nolead_def)

lemma nolead_snoc:
  assumes "snd e \<noteq> None \<or> nolead evs \<noteq> []"
  shows "nolead (evs @ [e]) = nolead evs @ [e]"
  using assms by (induction evs) (auto simp: nolead_def)

lemma tombs_at: "\<forall>e \<in> set ts. snd e = None \<Longrightarrow> ev_at r ts = None"
  using ev_latest_bound [of r ts] by (force simp: ev_at_None)

lemma ev_at_nolead: "ev_at r (nolead evs) = ev_at r evs"
proof -
  obtain ts where ts: "evs = ts @ nolead evs" "\<forall>e \<in> set ts. snd e = None" using nolead_split by blast
  have "ev_at r (ts @ xs) = ev_at r xs" if "\<forall>e \<in> set ts. snd e = None" for ts xs :: "(revision \<times> 'a option) list"
    using tombs_at [OF that, of r] by (cases "ev_latest r xs") (auto simp: ev_at_def ev_latest_append split: option.splits)
  from this [OF ts(2), of "nolead evs"] ts(1) show ?thesis by simp
qed

lemma ev_ok_nolead: "ev_ok evs \<Longrightarrow> ev_ok (nolead evs)"
  using nolead_split [of evs] by (metis ev_ok_append)

section \<open>Compactions compose\<close>

lemma ev_compact_compact:
  assumes "ev_ok evs" "c \<le> r"
  shows "ev_compact r (ev_compact c evs) = ev_compact r evs"
proof -
  have "filter (\<lambda>e. r < rmain (fst e)) (ev_compact c evs) = filter (\<lambda>e. r < rmain (fst e)) evs"
  proof -
    have "filter (\<lambda>e. r < rmain (fst e)) (case ev_at c evs of None \<Rightarrow> [] | Some (rv, x) \<Rightarrow> [(rv, Some x)]) = []"
      using assms(2) ev_latest_bound [of c evs] by (auto simp: ev_at_Some split: option.splits)
    moreover have "filter (\<lambda>e. r < rmain (fst e)) (filter (\<lambda>e. c < rmain (fst e)) evs) = filter (\<lambda>e. r < rmain (fst e)) evs"
      using assms(2) by (auto simp: filter_filter intro: filter_cong)
    ultimately show ?thesis by (simp add: ev_compact_at)
  qed
  with ev_at_compact [OF assms] show ?thesis by (simp add: ev_compact_at [of r])
qed

text \<open>Two deletions of a key never follow each other.\<close>

definition no_tombs :: "(revision \<times> 'a option) list \<Rightarrow> bool" where
  "no_tombs evs \<longleftrightarrow> successively (\<lambda>a b. snd a \<noteq> None \<or> snd b \<noteq> None) evs"

lemma no_tombs_append: "no_tombs (xs @ ys) \<longleftrightarrow>
    no_tombs xs \<and> no_tombs ys \<and> (xs = [] \<or> ys = [] \<or> snd (last xs) \<noteq> None \<or> snd (hd ys) \<noteq> None)"
  by (auto simp: no_tombs_def successively_append_iff)

text \<open>The events after a revision are a final part of the history.\<close>

lemma after_suffix:
  assumes "ev_ok evs"
  shows "evs = filter (\<lambda>e. rmain (fst e) \<le> r) evs @ filter (\<lambda>e. r < rmain (fst e)) evs"
  using assms
proof (induction evs)
  case (Cons e evs)
  have ok: "ev_ok evs" "\<forall>x \<in> set evs. fst e < fst x" using Cons.prems by (auto simp: ev_ok_def)
  show ?case
  proof (cases "rmain (fst e) \<le> r")
    case True
    then show ?thesis using Cons.IH [OF ok(1)] by simp
  next
    case False
    then have "\<forall>x \<in> set evs. r < rmain (fst x)" using ok(2) less_rmain by fastforce
    then have "filter (\<lambda>e. rmain (fst e) \<le> r) evs = []" "filter (\<lambda>e. r < rmain (fst e)) evs = evs"
      by (auto simp: filter_empty_conv filter_id_conv not_le)
    then show ?thesis using False by simp
  qed
qed simp

lemma no_tombs_compact:
  assumes "ev_ok evs" "no_tombs evs"
  shows "no_tombs (ev_compact r evs)"
proof -
  have "no_tombs (filter (\<lambda>e. r < rmain (fst e)) evs)"
    using assms(2) after_suffix [OF assms(1), of r] by (metis no_tombs_append)
  moreover have "no_tombs [e]" for e :: "revision \<times> 'a option" by (simp add: no_tombs_def)
  moreover have "no_tombs ([] :: (revision \<times> 'a option) list)" by (simp add: no_tombs_def)
  ultimately show ?thesis by (cases "ev_at r evs") (auto simp: ev_compact_at no_tombs_append simp del: append_Cons append_Nil)
qed

lemma ev_compact_nolead:
  assumes "ev_ok evs" "no_tombs evs"
  shows "ev_compact r (nolead evs) = nolead (ev_compact r evs)"
proof -
  obtain ts where ts: "evs = ts @ nolead evs" "\<forall>e \<in> set ts. snd e = None" using nolead_split by blast
  let ?Y = "nolead evs" and ?f = "filter (\<lambda>e. r < rmain (fst e))"
  have okY: "ev_ok ?Y" "\<forall>x \<in> set ts. \<forall>y \<in> set ?Y. fst x < fst y" and ntY: "no_tombs ?Y"
    using assms ts(1) by (metis ev_ok_append, metis ev_ok_append, metis no_tombs_append)
  have f: "?f evs = ?f ts @ ?f ?Y" using ts(1) by (metis filter_append)
  show ?thesis
  proof (cases "ev_at r ?Y")
    case (Some x)
    obtain rv y where x: "x = (rv, y)" by (cases x)
    have l: "(rv, Some y) \<in> set ?Y" "rmain rv \<le> r" using Some x ev_latest_bound [of r ?Y] by (auto simp: ev_at_Some)
    have "?f ts = []" using okY(2) l less_rmain by (fastforce simp: filter_empty_conv)
    then show ?thesis using Some x f ev_at_nolead [of r evs] by (simp add: ev_compact_at nolead_id)
  next
    case None
    have "nolead (ev_compact r evs) = nolead (?f ?Y)"
      using None f ts(2) ev_at_nolead [of r evs] by (simp add: ev_compact_at nolead_tombs)
    also have "nolead (?f ?Y) = ?f ?Y"
    proof (rule nolead_id)
      show "?f ?Y = [] \<or> snd (hd (?f ?Y)) \<noteq> None"
      proof (cases "filter (\<lambda>e. rmain (fst e) \<le> r) ?Y = []")
        case True
        then have "?f ?Y = ?Y" using after_suffix [OF okY(1), of r] by simp
        then show ?thesis using nolead_hd [of evs] by simp
      next
        case False
        then have "ev_latest r ?Y = Some (last (filter (\<lambda>e. rmain (fst e) \<le> r) ?Y))" by (simp add: ev_latest_def)
        then have "snd (last (filter (\<lambda>e. rmain (fst e) \<le> r) ?Y)) = None" using None by (auto simp: ev_at_def split: prod.splits option.splits)
        then show ?thesis using ntY after_suffix [OF okY(1), of r] False by (metis no_tombs_append)
      qed
    qed
    finally show ?thesis using None by (simp add: ev_compact_at)
  qed
qed

section \<open>Dropping old events\<close>

text \<open>
  Deleting a first part of a history that has no event of interest: nothing that is read at or
  after the revision changes.
\<close>

lemma ev_latest_drop: "ev_latest r ys = Some e \<Longrightarrow> ev_latest r (xs @ ys) = Some e"
  by (simp add: ev_latest_append)

lemma ev_at_drop:
  assumes "ev_ok (xs @ ys)" "\<forall>e \<in> set xs. rmain (fst e) \<le> c" "c \<le> r"
    "\<forall>rv x. ev_latest c (xs @ ys) = Some (rv, Some x) \<longrightarrow> (rv, Some x) \<notin> set xs"
  shows "ev_at r ys = ev_at r (xs @ ys)"
proof (cases "ev_latest r ys")
  case None
  have l: "ev_latest r (xs @ ys) = ev_latest r xs" using None by (simp add: ev_latest_append)
  have "ev_latest r (xs @ ys) \<noteq> Some (rv, Some x)" for rv x
  proof
    assume a: "ev_latest r (xs @ ys) = Some (rv, Some x)"
    then have i: "(rv, Some x) \<in> set xs" using l ev_latest_bound [of r xs] by simp
    have "ev_latest c (xs @ ys) = Some (rv, Some x)"
    proof (rule ev_latestI [OF assms(1)])
      show "(rv, Some x) \<in> set (xs @ ys)" "rmain (fst (rv, Some x)) \<le> c" using i assms(2) by auto
      show "fst f \<le> fst (rv, Some x)" if "f \<in> set (xs @ ys)" "rmain (fst f) \<le> c" for f
        using ev_latest_after [OF assms(1) a that(1)] that(2) assms(3) by simp
    qed
    with assms(4) i show False by blast
  qed
  then show ?thesis using None by (simp add: ev_at_def split: option.splits)
next
  case (Some e)
  then show ?thesis using ev_latest_drop [OF Some, of xs] by (simp add: ev_at_def)
qed

lemma ev_compact_drop:
  assumes "ev_ok (xs @ ys)" "\<forall>e \<in> set xs. rmain (fst e) \<le> c" "c \<le> r"
    "\<forall>rv x. ev_latest c (xs @ ys) = Some (rv, Some x) \<longrightarrow> (rv, Some x) \<notin> set xs"
  shows "ev_compact r ys = ev_compact r (xs @ ys)"
proof -
  have "filter (\<lambda>e. r < rmain (fst e)) xs = []" using assms(2,3) by (auto simp: filter_empty_conv)
  then show ?thesis using ev_at_drop [OF assms] by (simp add: ev_compact_at)
qed

lemma filter_dropWhile:
  assumes "sorted_wrt (\<lambda>x y. P y \<longrightarrow> P x) xs"
  shows "filter (\<lambda>x. \<not> P x) xs = dropWhile P xs"
  using assms
proof (induction xs)
  case (Cons x xs)
  have "filter (\<lambda>x. \<not> P x) xs = xs" if "\<not> P x" using Cons.prems that by (auto simp: filter_id_conv)
  then show ?case using Cons by simp
qed simp

section \<open>The history of a key in the bucket\<close>

definition hist :: "bucket \<Rightarrow> bytes \<Rightarrow> (revision \<times> KeyValue option) list" where
  "hist b k = map (\<lambda>e. (fst (fst e), if snd (fst e) then None else Some (snd e))) (filter (\<lambda>e. kv_Key (snd e) = k) b)"

text \<open>The revisions of the bucket grow.\<close>

definition bk_ok :: "bucket \<Rightarrow> bool" where
  "bk_ok b \<longleftrightarrow> sorted_wrt (\<lambda>x y. fst (fst x) < fst (fst y)) b"

lemma hist_append: "hist (b @ b') k = hist b k @ hist b' k"
  by (simp add: hist_def)

lemma hist_single: "hist [((rv, m), kv)] k = (if kv_Key kv = k then [(rv, if m then None else Some kv)] else [])"
  by (simp add: hist_def)

lemma hist_ok: "bk_ok b \<Longrightarrow> ev_ok (hist b k)"
  unfolding bk_ok_def ev_ok_def hist_def by (simp add: sorted_wrt_map sorted_wrt_filter)

lemma hist_mem:
  "e \<in> set (hist b k) \<longleftrightarrow> (\<exists>x \<in> set b. kv_Key (snd x) = k \<and> e = (fst (fst x), if snd (fst x) then None else Some (snd x)))"
  unfolding hist_def by auto

lemma hist_memI: "((rv, False), kv) \<in> set b \<Longrightarrow> (rv, Some kv) \<in> set (hist b (kv_Key kv))"
  unfolding hist_mem by force

lemma hist_memD:
  assumes "(rv, x) \<in> set (hist b k)"
  shows "\<exists>kv. ((rv, x = None), kv) \<in> set b \<and> kv_Key kv = k \<and> (x \<noteq> None \<longrightarrow> x = Some kv)"
proof -
  from assms obtain y where y: "y \<in> set b" "kv_Key (snd y) = k" "(rv, x) = (fst (fst y), if snd (fst y) then None else Some (snd y))"
    unfolding hist_mem by blast
  obtain v m kv where "y = ((v, m), kv)" by (metis surj_pair)
  with y show ?thesis by (cases m) auto
qed

lemma bk_unique: "bk_ok b \<Longrightarrow> x \<in> set b \<Longrightarrow> y \<in> set b \<Longrightarrow> fst (fst x) = fst (fst y) \<Longrightarrow> x = y"
proof -
  assume "bk_ok b"
  then have "distinct (map (\<lambda>x. fst (fst x)) b)"
    unfolding bk_ok_def using strict_sorted_iff [of "map (\<lambda>x. fst (fst x)) b"] by (simp add: sorted_wrt_map)
  then show "x \<in> set b \<Longrightarrow> y \<in> set b \<Longrightarrow> fst (fst x) = fst (fst y) \<Longrightarrow> x = y" by (auto simp: distinct_map inj_on_def)
qed

lemma hist_unique:
  assumes "bk_ok b" "(rv, x) \<in> set (hist b k)" "(rv, y) \<in> set (hist b k')"
  shows "k = k' \<and> x = y"
proof -
  from assms(2,3) obtain e f where e: "e \<in> set b" "kv_Key (snd e) = k" "(rv, x) = (fst (fst e), if snd (fst e) then None else Some (snd e))"
    and f: "f \<in> set b" "kv_Key (snd f) = k'" "(rv, y) = (fst (fst f), if snd (fst f) then None else Some (snd f))"
    unfolding hist_mem by blast
  then have "e = f" using bk_unique [OF assms(1) e(1) f(1)] by simp
  with e f show ?thesis by simp
qed

lemma hist_filter: "hist (filter (\<lambda>x. P (fst (fst x))) b) k = filter (\<lambda>e. P (fst e)) (hist b k)"
  by (induction b) (auto simp: hist_def)

lemma rkey_less: "fst x < fst y \<Longrightarrow> x < (y :: rkey)"
  by (auto simp: less_prod_def)

lemma bk_sorted: "bk_ok b \<Longrightarrow> sorted_wrt (\<lambda>x y. fst x < fst y) b"
  unfolding bk_ok_def by (rule sorted_wrt_mono_rel) (auto intro: rkey_less)

lemma bk_map_of: "bk_ok b \<Longrightarrow> map_of b k = Some v \<longleftrightarrow> (k, v) \<in> set b"
proof -
  assume "bk_ok b"
  then have "distinct (map fst b)" using bk_sorted [of b] strict_sorted_iff [of "map fst b"] by (simp add: sorted_wrt_map)
  then show ?thesis by simp
qed

lemma bk_put_last: "\<forall>x \<in> set b. fst x < k \<Longrightarrow> bk_put k v b = b @ [(k, v)]"
  by (induction b) (auto simp: less_le_not_le)

lemma walk_filter:
  assumes "sorted_wrt (\<lambda>x y. fst x < fst y) (b :: bucket)"
  shows "takeWhile (\<lambda>x. fst x < e) (dropWhile (\<lambda>x. fst x < k) b) = filter (\<lambda>x. k \<le> fst x \<and> fst x < e) b"
  using assms
proof (induction b)
  case (Cons x b)
  have s: "\<forall>y \<in> set b. fst x < fst y" using Cons.prems by auto
  show ?case
  proof (cases "fst x < k")
    case True
    then show ?thesis using Cons by auto
  next
    case False
    then have "dropWhile (\<lambda>x. fst x < k) b = b" using s by (cases b) auto
    moreover have "filter (\<lambda>x. k \<le> fst x \<and> fst x < e) b = []" if "\<not> fst x < e" using that s by (auto simp: filter_empty_conv)
    ultimately show ?thesis using Cons False by auto
  qed
qed simp

lemma bk_range_filter:
  "bk_ok b \<Longrightarrow> bk_range k (Some e) limit b =
     (let es = filter (\<lambda>x. k \<le> fst x \<and> fst x < e) b in if limit > 0 then take (nat limit) es else es)"
  by (simp add: bk_range_def walk_filter [OF bk_sorted])

end
