(* ===== verification/Mvcc_Store_View.thy ===== *)
theory Mvcc_Store_View
  imports Mvcc_Store Mvcc_History
begin

text \<open>
  What the store of \<^verbatim>\<open>storage/kvstore.go\<close> keeps true: the bucket is the history of all keys and the
  index is its compacted view.  Reads answer from the history, and every operation keeps the
  invariant.
\<close>

section \<open>The invariant\<close>

text \<open>How a change of a key follows the one before it.\<close>

definition hstep :: "revision \<times> KeyValue option \<Rightarrow> revision \<times> KeyValue option \<Rightarrow> bool" where
  "hstep a b \<longleftrightarrow> (case snd b of
     None \<Rightarrow> snd a \<noteq> None
   | Some kv \<Rightarrow> (case snd a of
        None \<Rightarrow> kv_Version kv = 1 \<and> kv_CreateRevision kv = rmain (fst b)
      | Some kv' \<Rightarrow> kv_Version kv = kv_Version kv' + 1 \<and> kv_CreateRevision kv = kv_CreateRevision kv'))"

definition entry_ok :: "revision \<Rightarrow> rkey \<times> KeyValue \<Rightarrow> bool" where
  "entry_ok nr x \<longleftrightarrow> 2 \<le> rmain (fst (fst x)) \<and> 0 \<le> rsub (fst (fst x)) \<and> fst (fst x) < nr \<and>
     (if snd (fst x) then kv_Lease (snd x) = NoLease else kv_ModRevision (snd x) = rmain (fst (fst x)))"

definition bucket_inv :: "revision \<Rightarrow> bucket \<Rightarrow> bool" where
  "bucket_inv nr b \<longleftrightarrow> bk_ok b \<and> (\<forall>x \<in> set b. entry_ok nr x) \<and> (\<forall>k. successively hstep (hist b k))"

text \<open>An event of the index and the change in the bucket that it stands for.\<close>

definition ev_rel :: "kevent \<Rightarrow> revision \<times> KeyValue option \<Rightarrow> bool" where
  "ev_rel e h \<longleftrightarrow> fst e = fst h \<and>
     rel_option (\<lambda>cv kv. kv_CreateRevision kv = rmain (fst cv) \<and> kv_Version kv = snd cv) (snd e) (snd h)"

definition index_inv :: "int \<Rightarrow> bucket \<Rightarrow> tree \<Rightarrow> bool" where
  "index_inv c b t \<longleftrightarrow> (\<forall>k. list_all2 ev_rel (ti_events t k) (nolead (ev_compact c (hist b k))))"

text \<open>What a job may rely on: it keeps the last put of every key at its revision and nothing older.\<close>

definition job_ok :: "int \<Rightarrow> bucket \<Rightarrow> cjob \<Rightarrow> bool" where
  "job_ok c b j \<longleftrightarrow> cj_rev j \<le> c \<and>
     (\<forall>rv \<in> cj_keep j. rmain rv \<le> cj_rev j) \<and>
     (\<forall>k rv kv. ev_latest (cj_rev j) (hist b k) = Some (rv, Some kv) \<longrightarrow> rv \<in> cj_keep j) \<and>
     (\<forall>k. \<forall>e \<in> set (hist b k). fst e \<in> cj_keep j \<longrightarrow> snd e \<noteq> None \<and> ev_latest (cj_rev j) (hist b k) = Some e) \<and>
     (\<forall>x \<in> set b. fst x < cj_last j \<and> rmain (fst (fst x)) \<le> cj_rev j \<longrightarrow> fst (fst x) \<in> cj_keep j)"

text \<open>A finished compaction left only the last put of every key.\<close>

definition done_ok :: "int \<Rightarrow> bucket \<Rightarrow> bool" where
  "done_ok f b \<longleftrightarrow> (\<forall>k. \<forall>e \<in> set (hist b k). rmain (fst e) \<le> f \<longrightarrow> snd e \<noteq> None \<and> ev_latest f (hist b k) = Some e)"

definition st_next :: "store \<Rightarrow> revision" where
  "st_next st = Revision (rmain (st_currentRev st) + 1) (rsub (st_currentRev st))"

definition st_inv :: "store \<Rightarrow> bool" where
  "st_inv st \<longleftrightarrow> bucket_inv (st_next st) (st_key st) \<and>
     ti_inv (st_kvindex st) \<and> ti_below (st_next st) (st_kvindex st) \<and>
     index_inv (st_compactMainRev st) (st_key st) (st_kvindex st) \<and>
     0 \<le> rsub (st_currentRev st) \<and> 1 \<le> rmain (st_currentRev st) \<and> st_compactMainRev st \<le> rmain (st_currentRev st) \<and>
     (\<forall>j \<in> set (st_jobs st). job_ok (st_compactMainRev st) (st_key st) j) \<and>
     (\<forall>f. st_finished st = Some f \<longrightarrow> f \<le> st_compactMainRev st \<and> done_ok f (st_key st))"

text \<open>The state of a key at a main revision.\<close>

definition st_at :: "store \<Rightarrow> int \<Rightarrow> bytes \<Rightarrow> KeyValue option" where
  "st_at st r k = map_option snd (ev_at r (hist (st_key st) k))"

lemma st_inv_bk: "st_inv st \<Longrightarrow> bk_ok (st_key st)"
  by (simp add: st_inv_def bucket_inv_def)

lemma st_inv_hist: "st_inv st \<Longrightarrow> ev_ok (hist (st_key st) k)"
  by (rule hist_ok [OF st_inv_bk])

lemma hist_entry:
  assumes "bucket_inv nr b" "e \<in> set (hist b k)"
  shows "2 \<le> rmain (fst e) \<and> 0 \<le> rsub (fst e) \<and> fst e < nr \<and> (\<forall>kv. snd e = Some kv \<longrightarrow> kv_Key kv = k \<and> kv_ModRevision kv = rmain (fst e))"
proof -
  from assms(2) obtain x where x: "x \<in> set b" "kv_Key (snd x) = k" "e = (fst (fst x), if snd (fst x) then None else Some (snd x))"
    unfolding hist_mem by blast
  with assms(1) have "entry_ok nr x" by (simp add: bucket_inv_def)
  with x show ?thesis by (auto simp: entry_ok_def split: if_splits)
qed

lemma hist_bound: "st_inv st \<Longrightarrow> e \<in> set (hist (st_key st) k) \<Longrightarrow> rmain (fst e) \<le> rmain (st_currentRev st) + 1"
  using hist_entry [of "st_next st" "st_key st" e k] less_rmain [of "fst e" "st_next st"] by (simp add: st_inv_def st_next_def)

lemma hist_no_tombs: "bucket_inv nr b \<Longrightarrow> no_tombs (hist b k)"
  unfolding no_tombs_def bucket_inv_def
  by (auto elim!: allE [of _ k] successively_mono simp: hstep_def split: option.splits)

section \<open>The index answers from the history\<close>

lemma ev_rel_latest:
  assumes "list_all2 ev_rel E H"
  shows "rel_option ev_rel (ev_latest r E) (ev_latest r H)"
proof -
  have "list_all2 ev_rel (filter (\<lambda>e. rmain (fst e) \<le> r) E) (filter (\<lambda>e. rmain (fst e) \<le> r) H)"
    using assms by induction (auto simp: ev_rel_def)
  then show ?thesis
    unfolding ev_latest_def Let_def by (auto dest: list_all2_lengthD simp: last_conv_nth list_all2_conv_all_nth)
qed

abbreviation at_rel :: "revision \<times> revision \<times> int \<Rightarrow> revision \<times> KeyValue \<Rightarrow> bool" where
  "at_rel x y \<equiv> fst x = fst y \<and> kv_CreateRevision (snd y) = rmain (fst (snd x)) \<and> kv_Version (snd y) = snd (snd x)"

lemma ev_rel_at:
  assumes "list_all2 ev_rel E H"
  shows "rel_option at_rel (ev_at r E) (ev_at r H)"
  using ev_rel_latest [OF assms, of r]
  by (cases "ev_latest r E"; cases "ev_latest r H") (auto simp: ev_at_def ev_rel_def rel_option_iff split: option.splits)

lemma index_at:
  assumes "st_inv st" "st_compactMainRev st \<le> r"
  shows "rel_option at_rel (ev_at r (ti_events (st_kvindex st) k)) (ev_at r (hist (st_key st) k))"
proof -
  have "list_all2 ev_rel (ti_events (st_kvindex st) k) (nolead (ev_compact (st_compactMainRev st) (hist (st_key st) k)))"
    using assms(1) by (simp add: st_inv_def index_inv_def)
  from ev_rel_at [OF this, of r] show ?thesis
    by (simp add: ev_at_nolead ev_at_compact [OF st_inv_hist [OF assms(1)] assms(2)])
qed

lemma index_at_Some:
  assumes "st_inv st" "st_compactMainRev st \<le> r" "ev_at r (ti_events (st_kvindex st) k) = Some (rv, c, v)"
  shows "\<exists>kv. ev_at r (hist (st_key st) k) = Some (rv, kv) \<and> kv_CreateRevision kv = rmain c \<and> kv_Version kv = v \<and>
    ((rv, False), kv) \<in> set (st_key st) \<and> kv_Key kv = k"
proof -
  from index_at [OF assms(1,2), of k] assms(3) obtain kv where
    kv: "ev_at r (hist (st_key st) k) = Some (rv, kv)" "kv_CreateRevision kv = rmain c" "kv_Version kv = v"
    by (cases "ev_at r (hist (st_key st) k)") auto
  then have "(rv, Some kv) \<in> set (hist (st_key st) k)" using ev_latest_bound by (fastforce simp: ev_at_Some)
  from hist_memD [OF this] kv show ?thesis by auto
qed

lemma index_at_None:
  assumes "st_inv st" "st_compactMainRev st \<le> r"
  shows "ev_at r (ti_events (st_kvindex st) k) = None \<longleftrightarrow> ev_at r (hist (st_key st) k) = None"
  using index_at [OF assms, of k] by (cases "ev_at r (ti_events (st_kvindex st) k)"; cases "ev_at r (hist (st_key st) k)") auto

section \<open>Reading\<close>

lemma bk_get: "bk_ok b \<Longrightarrow> ((rv, False), kv) \<in> set b \<Longrightarrow> bk_range (rv, False) None 0 b = [((rv, False), kv)]"
  by (auto simp: bk_range_def split: option.split dest: bk_map_of [THEN iffD2])

lemma bk_range_rev:
  assumes "bk_ok b" "((rv, False), kv) \<in> set b"
  shows "bk_range (fst (revBytesRange rv)) (Some (snd (revBytesRange rv))) 0 b = [((rv, False), kv)]"
proof -
  let ?x = "((rv, False), kv)" and ?P = "\<lambda>x :: rkey \<times> KeyValue. (rv, False) \<le> fst x \<and> fst x < (Revision (rmain rv) (rsub rv + 1), False)"
  have "y = ?x" if "y \<in> set b" "?P y" for y
  proof -
    have "fst (fst y) = rv" using that(2)
      by (cases rv; cases "fst (fst y)") (auto simp: less_eq_prod_def less_prod_def less_eq_revision_def less_revision_def)
    then show ?thesis using bk_unique [OF assms(1) that(1) assms(2)] by simp
  qed
  moreover have "?P ?x" by (cases rv) (simp add: less_prod_def less_revision_def)
  moreover obtain xs ys where b: "b = xs @ ?x # ys" using assms(2) by (meson split_list)
  moreover have "?x \<notin> set xs \<union> set ys" using assms(1) b by (auto simp: bk_ok_def sorted_wrt_append)
  ultimately have "filter ?P xs = []" "filter ?P ys = []" "filter ?P b = filter ?P xs @ [?x] @ filter ?P ys"
    by (auto simp: filter_empty_conv)
  then show ?thesis by (simp add: bk_range_filter [OF assms(1)] revBytesRange_def)
qed

definition lim :: "int \<Rightarrow> 'a list \<Rightarrow> 'a list" where
  "lim limit xs = (if limit > 0 then take (nat limit) xs else xs)"

lemma range_fetch_lim:
  assumes "bk_ok b" "\<forall>x \<in> set ps. ((fst x, False), snd x) \<in> set b" "0 < limit \<longrightarrow> int (length kvs) < limit"
  shows "range_fetch limit b (map fst ps) kvs = Some (lim limit (kvs @ map snd ps))"
  using assms(2,3)
proof (induction ps arbitrary: kvs)
  case Nil
  then show ?case by (auto simp: lim_def)
next
  case (Cons x ps)
  have r: "bk_range (fst (revBytesRange (fst x))) (Some (snd (revBytesRange (fst x)))) 0 b = [((fst x, False), snd x)]"
    using bk_range_rev [OF assms(1)] Cons.prems(1) by simp
  show ?case
  proof (cases "limit > 0 \<and> int (length (kvs @ [snd x])) \<ge> limit")
    case True
    then have "nat limit = length (kvs @ [snd x])" using Cons.prems(2) by auto
    then show ?thesis using True r by (simp add: lim_def)
  next
    case False
    then show ?thesis using Cons.IH [of "kvs @ [snd x]"] Cons.prems r by auto
  qed
qed

text \<open>The pairs of a range at a revision, in the order of their keys.\<close>

definition st_view :: "store \<Rightarrow> bytes \<Rightarrow> bytes option \<Rightarrow> int \<Rightarrow> KeyValue list \<Rightarrow> bool" where
  "st_view st key end r kvs \<longleftrightarrow> sorted_wrt (<) (map kv_Key kvs) \<and>
     set kvs = {kv. range_of key end (kv_Key kv) \<and> st_at st r (kv_Key kv) = Some kv}"

lemma st_at_Key: "st_inv st \<Longrightarrow> st_at st r k = Some kv \<Longrightarrow> kv_Key kv = k"
  using hist_entry [of "st_next st" "st_key st" _ k] ev_latest_bound [of r "hist (st_key st) k"]
  by (fastforce simp: st_at_def ev_at_Some st_inv_def)

text \<open>The answer of the index to a range, with the pairs of the bucket.\<close>

lemma range_view:
  assumes "st_inv st" "st_compactMainRev st \<le> r"
  shows "\<exists>ps. ti_Range key end r (st_kvindex st) = Some (map (kv_Key \<circ> snd) ps, map fst ps) \<and>
    st_view st key end r (map snd ps) \<and>
    (\<forall>x \<in> set ps. ((fst x, False), snd x) \<in> set (st_key st) \<and> ev_at r (hist (st_key st) (kv_Key (snd x))) = Some x)"
proof -
  have ti: "ti_inv (st_kvindex st)" using assms(1) by (simp add: st_inv_def)
  from ti_Range_events [OF ti, of key "end" r] obtain kr where
    kr: "ti_Range key end r (st_kvindex st) = Some (map fst kr, map snd kr)" "sorted_wrt (<) (map fst kr)"
    "\<And>k rv. (k, rv) \<in> set kr \<longleftrightarrow> range_of key end k \<and> (\<exists>c v. ev_at r (ti_events (st_kvindex st) k) = Some (rv, c, v))" by blast
  define f where "f = (\<lambda>x. (snd x, snd (the (ev_at r (hist (st_key st) (fst x))))) :: revision \<times> KeyValue)"
  have f: "ev_at r (hist (st_key st) k) = Some (f (k, rv)) \<and> ((rv, False), snd (f (k, rv))) \<in> set (st_key st) \<and>
      kv_Key (snd (f (k, rv))) = k" if "(k, rv) \<in> set kr" for k rv
    using that kr(3) [of k rv] index_at_Some [OF assms, of k rv] by (auto simp: f_def)
  let ?ps = "map f kr"
  have m: "map (kv_Key \<circ> snd) ?ps = map fst kr" "map fst ?ps = map snd kr"
    using f by (auto simp: f_def)
  have "set (map snd ?ps) = {kv. range_of key end (kv_Key kv) \<and> st_at st r (kv_Key kv) = Some kv}" (is "?A = ?B")
  proof (intro equalityI subsetI)
    fix kv assume "kv \<in> ?A"
    then obtain k rv where "(k, rv) \<in> set kr" "kv = snd (f (k, rv))" by auto
    then show "kv \<in> ?B" using f [of k rv] kr(3) [of k rv] by (auto simp: st_at_def intro: prod.collapse [symmetric])
  next
    fix kv assume B: "kv \<in> ?B"
    let ?k = "kv_Key kv"
    from B obtain rv where e: "ev_at r (hist (st_key st) ?k) = Some (rv, kv)" by (auto simp: st_at_def)
    then have "ev_at r (ti_events (st_kvindex st) ?k) \<noteq> None" using index_at_None [OF assms] by simp
    then obtain rv' c v where i: "ev_at r (ti_events (st_kvindex st) ?k) = Some (rv', c, v)" by auto
    then have "(?k, rv') \<in> set kr" using B kr(3) by auto
    moreover have "snd (f (?k, rv')) = kv" using e by (simp add: f_def)
    ultimately show "kv \<in> ?A" by force
  qed
  moreover have "map kv_Key (map snd ?ps) = map fst kr" using m(1) by (simp add: comp_assoc)
  ultimately have "st_view st key end r (map snd ?ps)" using kr(2) unfolding st_view_def by metis
  moreover have "\<forall>x \<in> set ?ps. ((fst x, False), snd x) \<in> set (st_key st) \<and> ev_at r (hist (st_key st) (kv_Key (snd x))) = Some x"
    using f by (fastforce simp: f_def)
  ultimately show ?thesis using kr(1) m by metis
qed

lemma rangeKeys_view:
  assumes "st_inv st" "cur = rmain (st_currentRev st) + (if rsub (st_currentRev st) > 0 then 1 else 0)"
    "rangeRev \<le> cur" "r = (if rangeRev \<le> 0 then cur else rangeRev)" "st_compactMainRev st < r"
  shows "\<exists>kvs. st_rangeKeys key end limit rangeRev st = Some (lim limit kvs, cur, None) \<and> st_view st key end r kvs"
proof -
  from range_view [OF assms(1), of r key "end"] assms(5) obtain ps where
    ps: "ti_Range key end r (st_kvindex st) = Some (map (kv_Key \<circ> snd) ps, map fst ps)" "st_view st key end r (map snd ps)"
    "\<forall>x \<in> set ps. ((fst x, False), snd x) \<in> set (st_key st)" by auto
  have "range_fetch limit (st_key st) (map fst ps) [] = Some (lim limit (map snd ps))"
    using range_fetch_lim [OF st_inv_bk [OF assms(1)] ps(3), of limit "[]"] by simp
  moreover have "lim limit [] = ([] :: KeyValue list)" by (simp add: lim_def)
  ultimately have "st_rangeKeys key end limit rangeRev st = Some (lim limit (map snd ps), cur, None)"
    using assms(2-5) ps(1) by (auto simp: st_rangeKeys_def Let_def)
  with ps(2) show ?thesis by blast
qed

end
