(* ===== verification/Mvcc_Store_Changes.thy ===== *)
theory Mvcc_Store_Changes
  imports Mvcc_Store_View
begin

text \<open>
  Every operation of the store keeps its invariant, and what it does to the state of the keys at
  every revision.
\<close>

section \<open>Appending a change\<close>

lemma ev_latest_snoc: "ev_latest r (evs @ [e]) = (if rmain (fst e) \<le> r then Some e else ev_latest r evs)"
  by (simp add: ev_latest_append)

lemma ev_compact_snoc: "c < rmain (fst e) \<Longrightarrow> ev_compact c (evs @ [e]) = ev_compact c evs @ [e]"
  by (simp add: ev_compact_def ev_latest_snoc)

text \<open>A job and a finished compaction are not affected by a change at a later revision.\<close>

lemma job_ok_append:
  assumes "job_ok c b j" "\<And>k. hist b' k = hist b k \<or> (\<exists>e. hist b' k = hist b k @ [e] \<and> c < rmain (fst e))"
    "\<forall>x \<in> set b'. x \<in> set b \<or> c < rmain (fst (fst x))"
  shows "job_ok c b' j"
proof -
  have c: "cj_rev j \<le> c" and k: "\<forall>rv \<in> cj_keep j. rmain rv \<le> cj_rev j" using assms(1) by (auto simp: job_ok_def)
  have l: "ev_latest (cj_rev j) (hist b' k) = ev_latest (cj_rev j) (hist b k)" for k
    using assms(2) [of k] c by (auto simp: ev_latest_snoc)
  have h: "e \<in> set (hist b k)" if "e \<in> set (hist b' k)" "fst e \<in> cj_keep j" for e k
    using assms(2) [of k] that k c by force
  have last: "\<forall>x \<in> set b'. fst x < cj_last j \<and> rmain (fst (fst x)) \<le> cj_rev j \<longrightarrow> fst (fst x) \<in> cj_keep j"
  proof (intro ballI impI)
    fix x assume x: "x \<in> set b'" "fst x < cj_last j \<and> rmain (fst (fst x)) \<le> cj_rev j"
    then have "x \<in> set b" using assms(3) c by fastforce
    then show "fst (fst x) \<in> cj_keep j" using assms(1) x(2) unfolding job_ok_def by blast
  qed
  have "\<forall>k. \<forall>e \<in> set (hist b' k). fst e \<in> cj_keep j \<longrightarrow> snd e \<noteq> None \<and> ev_latest (cj_rev j) (hist b k) = Some e"
    using assms(1) h unfolding job_ok_def by blast
  then show ?thesis using assms(1) last unfolding job_ok_def l by blast
qed

lemma done_ok_append:
  assumes "done_ok f b" "f \<le> c" "\<And>k. hist b' k = hist b k \<or> (\<exists>e. hist b' k = hist b k @ [e] \<and> c < rmain (fst e))"
  shows "done_ok f b'"
  unfolding done_ok_def
proof (intro allI ballI impI)
  fix k e assume e: "e \<in> set (hist b' k)" "rmain (fst e) \<le> f"
  have l: "ev_latest f (hist b' k) = ev_latest f (hist b k)" using assms(2) assms(3) [of k] by (auto simp: ev_latest_snoc)
  have "e \<in> set (hist b k)" using assms(2) assms(3) [of k] e by auto
  with assms(1) e(2) l show "snd e \<noteq> None \<and> ev_latest f (hist b' k) = Some e" by (simp add: done_ok_def)
qed

text \<open>One change of a key: a put or a deletion at the next revision.\<close>

lemma change_inv:
  assumes inv: "st_inv st"
    and key: "st_key st' = st_key st @ [((st_next st, m), kv)]"
    and idx: "ti_inv (st_kvindex st')" "\<forall>rv. st_next st < rv \<longrightarrow> ti_below rv (st_kvindex st')"
      "ti_events (st_kvindex st') = (ti_events (st_kvindex st))(kv_Key kv := ti_events (st_kvindex st) (kv_Key kv) @ [e])"
    and cur: "st_currentRev st' = Revision (rmain (st_currentRev st)) (rsub (st_currentRev st) + 1)"
    and same: "st_compactMainRev st' = st_compactMainRev st" "st_jobs st' = st_jobs st" "st_finished st' = st_finished st"
    and rel: "ev_rel e (st_next st, if m then None else Some kv)" "m \<longrightarrow> ti_events (st_kvindex st) (kv_Key kv) \<noteq> []"
    and step: "hist (st_key st) (kv_Key kv) = [] \<or> hstep (last (hist (st_key st) (kv_Key kv))) (st_next st, if m then None else Some kv)"
    and kv: "if m then kv_Lease kv = NoLease else kv_ModRevision kv = rmain (st_currentRev st) + 1"
  shows "st_inv st'"
proof -
  let ?b = "st_key st" and ?nr = "st_next st" and ?x = "(st_next st, if m then None else Some kv)" and ?c = "st_compactMainRev st"
  have h: "hist (st_key st') k = hist ?b k @ (if kv_Key kv = k then [?x] else [])" for k
    by (simp add: key hist_append hist_single)
  have lt: "?nr < st_next st'" by (simp add: st_next_def cur less_revision_def)
  have c: "?c < rmain ?nr" using inv by (simp add: st_inv_def st_next_def)
  have b: "bucket_inv ?nr ?b" using inv by (simp add: st_inv_def)
  have "bk_ok (st_key st')" using b by (auto simp: key bk_ok_def bucket_inv_def sorted_wrt_append entry_ok_def)
  moreover have "entry_ok (st_next st') x" if "x \<in> set (st_key st')" for x
    using that b inv lt kv by (auto simp: key bucket_inv_def entry_ok_def st_inv_def st_next_def)
  moreover have "successively hstep (hist (st_key st') k)" for k
    using b step by (auto simp: h bucket_inv_def successively_append_iff)
  ultimately have "bucket_inv (st_next st') (st_key st')" by (simp add: bucket_inv_def)
  moreover have "index_inv ?c (st_key st') (st_kvindex st')"
    unfolding index_inv_def
  proof
    fix k
    have r: "list_all2 ev_rel (ti_events (st_kvindex st) k) (nolead (ev_compact ?c (hist ?b k)))"
      using inv by (simp add: st_inv_def index_inv_def)
    show "list_all2 ev_rel (ti_events (st_kvindex st') k) (nolead (ev_compact ?c (hist (st_key st') k)))"
    proof (cases "k = kv_Key kv")
      case True
      then have "m \<longrightarrow> nolead (ev_compact ?c (hist ?b k)) \<noteq> []" using rel(2) r by auto
      then have "nolead (ev_compact ?c (hist ?b k @ [?x])) = nolead (ev_compact ?c (hist ?b k)) @ [?x]"
        using c by (auto simp: ev_compact_snoc nolead_snoc)
      then show ?thesis using True r rel(1) by (simp add: h idx(3) list_all2_appendI)
    qed (use r in \<open>simp add: h idx(3)\<close>)
  qed
  moreover have a: "hist (st_key st') k = hist ?b k \<or> (\<exists>e. hist (st_key st') k = hist ?b k @ [e] \<and> ?c < rmain (fst e))" for k
    using c by (auto simp: h)
  have "job_ok ?c (st_key st') j" if "j \<in> set (st_jobs st)" for j
    using inv that c by (intro job_ok_append [OF _ a]) (auto simp: st_inv_def key)
  moreover have "f \<le> ?c \<and> done_ok f (st_key st')" if "st_finished st = Some f" for f
    using inv that done_ok_append [OF _ _ a] by (simp add: st_inv_def)
  ultimately show ?thesis using inv idx lt by (simp add: st_inv_def same cur)
qed

lemma change_at:
  assumes "st_key st' = st_key st @ [((st_next st, m), kv)]"
  shows "st_at st' r k = (if k = kv_Key kv \<and> rmain (st_currentRev st) < r then (if m then None else Some kv) else st_at st r k)"
proof -
  have n: "rmain (st_next st) \<le> r \<longleftrightarrow> rmain (st_currentRev st) < r" by (auto simp: st_next_def)
  then show ?thesis
    by (simp add: st_at_def assms hist_append hist_single ev_at_def ev_latest_snoc split: option.splits)
qed

text \<open>The current state of a key: the last change that the bucket has of it.\<close>

abbreviation st_now :: "store \<Rightarrow> bytes \<Rightarrow> KeyValue option" where
  "st_now st \<equiv> st_at st (rmain (st_currentRev st) + 1)"

lemma hist_last:
  assumes "st_inv st"
  shows "ev_at (rmain (st_currentRev st) + 1) (hist (st_key st) k) =
    (if ev_live (hist (st_key st) k) then Some (fst (last (hist (st_key st) k)), the (snd (last (hist (st_key st) k)))) else None)"
  using hist_bound [OF assms] by (intro ev_at_all) blast

lemma events_last:
  assumes "st_inv st"
  shows "ev_at (rmain (st_currentRev st) + 1) (ti_events (st_kvindex st) k) =
    (if ev_live (ti_events (st_kvindex st) k) then Some (fst (last (ti_events (st_kvindex st) k)), the (snd (last (ti_events (st_kvindex st) k)))) else None)"
proof (rule ev_at_all, intro ballI)
  fix e assume "e \<in> set (ti_events (st_kvindex st) k)"
  then have "fst e < st_next st" using assms ti_events_below [of "st_kvindex st" "st_next st" e k] by (simp add: st_inv_def)
  then show "rmain (fst e) \<le> rmain (st_currentRev st) + 1" using less_rmain [of "fst e" "st_next st"] by (simp add: st_next_def)
qed

lemma now_bound: "st_inv st \<Longrightarrow> st_compactMainRev st \<le> rmain (st_currentRev st) + 1"
  by (simp add: st_inv_def)

text \<open>The pair that a put writes.\<close>

definition put_kv :: "bytes \<Rightarrow> bytes \<Rightarrow> LeaseID \<Rightarrow> store \<Rightarrow> KeyValue" where
  "put_kv key value l st = \<lparr>kv_Key = key,
     kv_CreateRevision = (case st_now st key of None \<Rightarrow> rmain (st_currentRev st) + 1 | Some kv \<Rightarrow> kv_CreateRevision kv),
     kv_ModRevision = rmain (st_currentRev st) + 1,
     kv_Version = (case st_now st key of None \<Rightarrow> 1 | Some kv \<Rightarrow> kv_Version kv + 1),
     kv_Value = value, kv_Lease = l\<rparr>"

definition lease_of :: "KeyValue option \<Rightarrow> LeaseID" where
  "lease_of x = (case x of None \<Rightarrow> NoLease | Some kv \<Rightarrow> kv_Lease kv)"

text \<open>A put up to its effect on the leases.\<close>

definition put_written :: "bytes \<Rightarrow> bytes \<Rightarrow> LeaseID \<Rightarrow> tree \<Rightarrow> store \<Rightarrow> store" where
  "put_written key value l t st = st\<lparr>st_key := st_key st @ [((st_next st, False), put_kv key value l st)], st_kvindex := t,
     st_changes := st_changes st @ [put_kv key value l st],
     st_currentRev := Revision (rmain (st_currentRev st)) (rsub (st_currentRev st) + 1)\<rparr>"

lemma bk_put_next: "st_inv st \<Longrightarrow> bk_put (st_next st, m) kv (st_key st) = st_key st @ [((st_next st, m), kv)]"
  by (rule bk_put_last) (auto simp: st_inv_def bucket_inv_def entry_ok_def intro: rkey_less)

lemma next_pos: "st_inv st \<Longrightarrow> Revision 0 0 < st_next st"
  by (simp add: st_inv_def st_next_def less_revision_def)

lemma put_written_inv:
  assumes "st_inv st"
  shows "\<exists>t. st_put key value l st = Option.bind (st_detach (lease_of (st_now st key)) key (put_written key value l t st)) (st_attach l key) \<and>
    st_inv (put_written key value l t st)"
proof -
  let ?r = "rmain (st_currentRev st) + 1" and ?E = "ti_events (st_kvindex st) key" and ?H = "hist (st_key st) key" and ?kv = "put_kv key value l st"
  have ti: "ti_inv (st_kvindex st)" "ti_below (st_next st) (st_kvindex st)" using assms by (auto simp: st_inv_def)
  from ti_Put_events [OF this next_pos [OF assms], of key] obtain t where
    t: "ti_Put key (st_next st) (st_kvindex st) = Some t" "ti_inv t"
    "ti_events t = (ti_events (st_kvindex st))(key := ?E @ [(st_next st, Some (ev_next (st_next st) ?E))])"
    "\<forall>rv. st_next st < rv \<longrightarrow> ti_below rv t" by blast
  have nr: "Revision ?r (rsub (st_currentRev st)) = st_next st" "rmain (st_next st) = ?r" by (simp_all add: st_next_def)
  note g = ti_Get_events [OF ti(1), of key ?r]
  have E: "ev_at ?r ?E = None \<longleftrightarrow> \<not> ev_live ?E" using events_last [OF assms, of key] by simp
  have "st_put key value l st = Option.bind (st_detach (lease_of (st_now st key)) key (put_written key value l t st)) (st_attach l key) \<and>
    ev_rel (st_next st, Some (ev_next (st_next st) ?E)) (st_next st, Some ?kv) \<and> (?H = [] \<or> hstep (last ?H) (st_next st, Some ?kv))"
  proof (cases "ev_at ?r ?E")
    case None
    then have n: "ev_at ?r ?H = None" using index_at_None [OF assms now_bound [OF assms]] by simp
    then have now: "st_now st key = None" by (simp add: st_at_def)
    have kv: "?kv = \<lparr>kv_Key = key, kv_CreateRevision = ?r, kv_ModRevision = ?r, kv_Version = 1, kv_Value = value, kv_Lease = l\<rparr>"
      by (simp add: put_kv_def now)
    have "st_put key value l st = Option.bind (st_detach NoLease key (put_written key value l t st)) (st_attach l key)"
      using g None by (simp add: st_put_def put_written_def kv nr(1) t(1) bk_put_next [OF assms] Let_def)
    moreover have "ev_next (st_next st) ?E = (st_next st, 1)" using None E by (auto simp: ev_next_def ev_live_def split: option.split)
    moreover have "?H = [] \<or> snd (last ?H) = None" using n hist_last [OF assms, of key] by (auto simp: ev_live_def split: if_splits)
    ultimately show ?thesis using now by (auto simp: lease_of_def ev_rel_def kv nr(2) hstep_def)
  next
    case (Some x)
    obtain grev c v where x: "x = (grev, c, v)" by (cases x)
    from index_at_Some [OF assms now_bound [OF assms] Some [unfolded x]] obtain kv0 where
      kv0: "ev_at ?r ?H = Some (grev, kv0)" "kv_CreateRevision kv0 = rmain c" "kv_Version kv0 = v" "((grev, False), kv0) \<in> set (st_key st)" by blast
    then have now: "st_now st key = Some kv0" by (simp add: st_at_def)
    have kv: "?kv = \<lparr>kv_Key = key, kv_CreateRevision = rmain c, kv_ModRevision = ?r, kv_Version = v + 1, kv_Value = value, kv_Lease = l\<rparr>"
      by (simp add: put_kv_def now kv0)
    have "st_put key value l st = Option.bind (st_detach (kv_Lease kv0) key (put_written key value l t st)) (st_attach l key)"
      using g Some bk_get [OF st_inv_bk [OF assms] kv0(4)]
      by (simp add: x st_put_def put_written_def kv nr(1) t(1) bk_put_next [OF assms] Let_def)
    moreover have "ev_next (st_next st) ?E = (c, v + 1)"
      using Some x events_last [OF assms, of key] by (auto simp: ev_next_def ev_live_def split: if_splits option.splits)
    moreover have "snd (last ?H) = Some kv0" using kv0(1) hist_last [OF assms, of key] by (auto simp: ev_live_def split: if_splits)
    ultimately show ?thesis using now kv0 by (auto simp: lease_of_def ev_rel_def kv nr(2) hstep_def)
  qed
  moreover have "st_inv (put_written key value l t st)" if
    "ev_rel (st_next st, Some (ev_next (st_next st) ?E)) (st_next st, Some ?kv)" "?H = [] \<or> hstep (last ?H) (st_next st, Some ?kv)"
    using that t
    by (intro change_inv [OF assms, of _ False ?kv "(st_next st, Some (ev_next (st_next st) ?E))"]) (auto simp: put_written_def put_kv_def)
  ultimately show ?thesis by blast
qed

section \<open>Leases\<close>

text \<open>The keys that are attached to a lease, if it exists.\<close>

definition st_keys :: "store \<Rightarrow> LeaseID \<Rightarrow> bytes set option" where
  "st_keys st i = (case st_le st of None \<Rightarrow> None | Some le \<Rightarrow> map_option (set \<circ> ls_itemSet) (map_of (le_leaseMap le) i))"

text \<open>A lease has the keys whose current pair names it, and every named lease exists.\<close>

definition lease_ok :: "(LeaseID \<Rightarrow> bytes set option) \<Rightarrow> (bytes \<Rightarrow> KeyValue option) \<Rightarrow> bool" where
  "lease_ok K now \<longleftrightarrow> K NoLease = None \<and> (\<forall>i ks. K i = Some ks \<longrightarrow> ks = {k. lease_of (now k) = i}) \<and>
     (\<forall>k. lease_of (now k) \<noteq> NoLease \<longrightarrow> K (lease_of (now k)) \<noteq> None)"

definition lease_inv :: "store \<Rightarrow> bool" where
  "lease_inv st \<longleftrightarrow> lease_ok (st_keys st) (st_now st)"

lemma st_detach_keys:
  assumes "i \<noteq> NoLease \<Longrightarrow> st_keys st i = Some ks"
  shows "\<exists>le. st_detach i key st = Some (st\<lparr>st_le := le\<rparr>) \<and>
    st_keys (st\<lparr>st_le := le\<rparr>) = (if i = NoLease then st_keys st else (st_keys st)(i := Some (ks - {key})))"
proof (cases "i = NoLease")
  case True
  then show ?thesis by (intro exI [of _ "st_le st"]) (simp add: st_detach_def)
next
  case False
  from assms [OF False] obtain le l where "st_le st = Some le" "map_of (le_leaseMap le) i = Some l" "set (ls_itemSet l) = ks"
    by (auto simp: st_keys_def split: option.splits)
  then show ?thesis using False by (auto simp: st_detach_def le_Detach_def st_keys_def update_conv' fun_eq_iff)
qed

lemma st_attach_keys:
  assumes "i \<noteq> NoLease \<Longrightarrow> st_keys st i = Some ks"
  shows "\<exists>le. st_attach i key st = Some (st\<lparr>st_le := le\<rparr>) \<and>
    st_keys (st\<lparr>st_le := le\<rparr>) = (if i = NoLease then st_keys st else (st_keys st)(i := Some (insert key ks)))"
proof (cases "i = NoLease")
  case True
  then show ?thesis by (intro exI [of _ "st_le st"]) (simp add: st_attach_def)
next
  case False
  from assms [OF False] obtain le l where "st_le st = Some le" "map_of (le_leaseMap le) i = Some l" "set (ls_itemSet l) = ks"
    by (auto simp: st_keys_def split: option.splits)
  then show ?thesis using False
    by (intro exI [of _ "Some (le\<lparr>le_leaseMap := AList.update i (l\<lparr>ls_itemSet := set_add key (ls_itemSet l)\<rparr>) (le_leaseMap le)\<rparr>)"])
      (auto simp: st_attach_def le_Attach_def st_keys_def update_conv' fun_eq_iff set_add_def)
qed

lemma st_attach_none: "i \<noteq> NoLease \<Longrightarrow> st_keys st i = None \<Longrightarrow> st_attach i key st = None"
  by (auto simp: st_attach_def le_Attach_def st_keys_def split: option.splits)

text \<open>The invariant, the state of the keys and the leases do not look at the same fields.\<close>

lemma le_irrelevant [simp]:
  "st_inv (st\<lparr>st_le := le\<rparr>) = st_inv st" "st_at (st\<lparr>st_le := le\<rparr>) = st_at st" "st_next (st\<lparr>st_le := le\<rparr>) = st_next st"
  by (simp_all add: st_inv_def st_at_def st_next_def fun_eq_iff)

lemma lease_ok_move:
  assumes "lease_ok K now" "l \<noteq> NoLease \<longrightarrow> K l \<noteq> None" "lease_of x = l"
    "K1 = (if lease_of (now key) = NoLease then K else K(lease_of (now key) := Some (the (K (lease_of (now key))) - {key})))"
    "K2 = (if l = NoLease then K1 else K1(l := Some (insert key (the (K1 l)))))"
  shows "lease_ok K2 (now(key := x))"
proof -
  let ?o = "lease_of (now key)" and ?A = "\<lambda>i. {k. lease_of (now k) = i}"
  have K: "K NoLease = None" "\<And>i. K i \<noteq> None \<Longrightarrow> K i = Some (?A i)" "\<And>k. lease_of (now k) \<noteq> NoLease \<Longrightarrow> K (lease_of (now k)) \<noteq> None"
    using assms(1) by (auto simp: lease_ok_def)
  have K1: "K1 i = (if K i = None then None else Some (if i = ?o then ?A i - {key} else ?A i))" for i
    using K(1) K(2) [of i] K(3) [of key] by (auto simp: assms(4))
  have K2: "K2 i = (if K i = None then None else Some {k. lease_of ((now(key := x)) k) = i})" for i
    using K1 [of i] K(1) assms(2,3) by (auto simp: assms(5))
  have "K2 (lease_of ((now(key := x)) k)) \<noteq> None" if "lease_of ((now(key := x)) k) \<noteq> NoLease" for k
    using that K(3) [of k] assms(2,3) by (auto simp: K2)
  then show ?thesis using K(1) unfolding lease_ok_def by (auto simp: K2 split: if_splits)
qed

section \<open>Put\<close>

text \<open>What the operations inside a transaction leave alone.\<close>

definition st_same :: "store \<Rightarrow> store \<Rightarrow> bool" where
  "st_same st st' \<longleftrightarrow> st_compactMainRev st' = st_compactMainRev st \<and> rmain (st_currentRev st') = rmain (st_currentRev st) \<and>
     st_txnID st' = st_txnID st \<and> st_scheduled st' = st_scheduled st \<and> st_finished st' = st_finished st \<and> st_jobs st' = st_jobs st \<and>
     (\<forall>i. st_keys st' i = None \<longleftrightarrow> st_keys st i = None)"

lemma put_written_now: "st_now (put_written key value l t st) = (st_now st)(key := Some (put_kv key value l st))"
  using change_at [of "put_written key value l t st" st False "put_kv key value l st"]
  by (auto simp: put_written_def put_kv_def)

lemma put_ok:
  assumes "st_inv st" "lease_inv st" "l = NoLease \<or> st_keys st l \<noteq> None"
  shows "\<exists>st'. st_put key value l st = Some st' \<and> st_inv st' \<and> lease_inv st' \<and> st_same st st' \<and>
    rsub (st_currentRev st') = rsub (st_currentRev st) + 1 \<and> st_changes st' = st_changes st @ [put_kv key value l st] \<and>
    (\<forall>r k. st_at st' r k = (if k = key \<and> rmain (st_currentRev st) < r then Some (put_kv key value l st) else st_at st r k))"
proof -
  from put_written_inv [OF assms(1), of key "value" l] obtain t where
    p: "st_put key value l st = Option.bind (st_detach (lease_of (st_now st key)) key (put_written key value l t st)) (st_attach l key)"
    and inv: "st_inv (put_written key value l t st)" by blast
  let ?w = "put_written key value l t st" and ?o = "lease_of (st_now st key)" and ?K = "st_keys st"
  have K: "st_keys ?w = ?K" by (simp add: st_keys_def put_written_def fun_eq_iff)
  have ok: "lease_ok ?K (st_now st)" using assms(2) by (simp add: lease_inv_def)
  have "st_keys ?w ?o = Some (the (?K ?o))" if "?o \<noteq> NoLease" using ok that K by (auto simp: lease_ok_def)
  from st_detach_keys [OF this, of key] obtain le1 where
    d: "st_detach ?o key ?w = Some (?w\<lparr>st_le := le1\<rparr>)"
    "st_keys (?w\<lparr>st_le := le1\<rparr>) = (if ?o = NoLease then ?K else ?K(?o := Some (the (?K ?o) - {key})))" using K by auto
  have "st_keys (?w\<lparr>st_le := le1\<rparr>) l = Some (the (st_keys (?w\<lparr>st_le := le1\<rparr>) l))" if "l \<noteq> NoLease"
    using assms(3) that by (auto simp: d(2))
  from st_attach_keys [OF this, of key] obtain le2 where
    a: "st_attach l key (?w\<lparr>st_le := le1\<rparr>) = Some (?w\<lparr>st_le := le2\<rparr>)"
    "st_keys (?w\<lparr>st_le := le2\<rparr>) = (if l = NoLease then st_keys (?w\<lparr>st_le := le1\<rparr>)
       else (st_keys (?w\<lparr>st_le := le1\<rparr>))(l := Some (insert key (the (st_keys (?w\<lparr>st_le := le1\<rparr>) l)))))" by auto
  let ?s = "?w\<lparr>st_le := le2\<rparr>"
  have "st_now ?s = (st_now st)(key := Some (put_kv key value l st))" using put_written_now [of key "value" l t st] by simp
  moreover have "lease_of (Some (put_kv key value l st)) = l" by (simp add: lease_of_def put_kv_def)
  ultimately have "lease_inv ?s" unfolding lease_inv_def
    using lease_ok_move [OF ok _ _ d(2) a(2)] assms(3) by auto
  moreover have "st_same st ?s"
  proof -
    have "st_keys ?s i = None \<longleftrightarrow> ?K i = None" for i
      unfolding a(2) unfolding d(2) using assms(3) ok by (auto simp: lease_ok_def)
    then show ?thesis by (simp add: st_same_def put_written_def)
  qed
  moreover have "st_at ?s r k = (if k = key \<and> rmain (st_currentRev st) < r then Some (put_kv key value l st) else st_at st r k)" for r k
    using change_at [of ?w st False "put_kv key value l st" r k] by (simp add: put_written_def put_kv_def)
  moreover have "st_put key value l st = Some ?s" using p d(1) a(1) by simp
  ultimately show ?thesis using inv by (auto simp: put_written_def)
qed

text \<open>Attaching a key to a lease that does not exist panics.\<close>

lemma put_no_lease:
  assumes "st_inv st" "lease_inv st" "l \<noteq> NoLease" "st_keys st l = None"
  shows "st_put key value l st = None"
proof -
  from put_written_inv [OF assms(1), of key "value" l] obtain t where
    p: "st_put key value l st = Option.bind (st_detach (lease_of (st_now st key)) key (put_written key value l t st)) (st_attach l key)" by blast
  let ?w = "put_written key value l t st" and ?o = "lease_of (st_now st key)" and ?K = "st_keys st"
  have K: "st_keys ?w = ?K" by (simp add: st_keys_def put_written_def fun_eq_iff)
  have "st_keys ?w ?o = Some (the (?K ?o))" if "?o \<noteq> NoLease" using assms(2) that K by (auto simp: lease_inv_def lease_ok_def)
  from st_detach_keys [OF this, of key] obtain le1 where
    d: "st_detach ?o key ?w = Some (?w\<lparr>st_le := le1\<rparr>)" "st_keys (?w\<lparr>st_le := le1\<rparr>) = (if ?o = NoLease then ?K else ?K(?o := Some (the (?K ?o) - {key})))"
    using K by auto
  have "l \<noteq> ?o" using assms(2-4) by (auto simp: lease_inv_def lease_ok_def)
  then have "st_keys (?w\<lparr>st_le := le1\<rparr>) l = None" using assms(4) by (simp add: d(2))
  then show ?thesis using st_attach_none [OF assms(3)] by (simp add: p d(1))
qed

section \<open>Deletion\<close>

lemma delete_ok:
  assumes "st_inv st" "lease_inv st" "ev_at (rmain (st_currentRev st) + 1) (hist (st_key st) key) = Some (rv, kv)"
  shows "\<exists>st'. st_delete key rv st = Some st' \<and> st_inv st' \<and> lease_inv st' \<and> st_same st st' \<and>
    rsub (st_currentRev st') = rsub (st_currentRev st) + 1 \<and> st_changes st' = st_changes st @ [zero_KeyValue\<lparr>kv_Key := key\<rparr>] \<and>
    (\<forall>k. k \<noteq> key \<longrightarrow> hist (st_key st') k = hist (st_key st) k) \<and>
    (\<forall>r k. st_at st' r k = (if k = key \<and> rmain (st_currentRev st) < r then None else st_at st r k))"
proof -
  let ?r = "rmain (st_currentRev st) + 1" and ?E = "ti_events (st_kvindex st) key" and ?H = "hist (st_key st) key" and ?t = "zero_KeyValue\<lparr>kv_Key := key\<rparr>"
  have ti: "ti_inv (st_kvindex st)" "ti_below (st_next st) (st_kvindex st)" using assms(1) by (auto simp: st_inv_def)
  have live: "ev_live ?E" using events_last [OF assms(1), of key] index_at_None [OF assms(1) now_bound [OF assms(1)], of key] assms(3)
    by (auto split: if_splits)
  with ti_Tombstone_events [OF ti, of key] obtain t where
    t: "ti_Tombstone key (st_next st) (st_kvindex st) = Some (Inr t)" "ti_inv t"
    "ti_events t = (ti_events (st_kvindex st))(key := ?E @ [(st_next st, None)])" "\<forall>rv. st_next st < rv \<longrightarrow> ti_below rv t" by auto
  let ?w = "st\<lparr>st_key := st_key st @ [((st_next st, True), ?t)], st_kvindex := t, st_changes := st_changes st @ [?t],
     st_currentRev := Revision (rmain (st_currentRev st)) (rsub (st_currentRev st) + 1)\<rparr>"
  have kt: "kv_Key ?t = key" "kv_Lease ?t = NoLease" by (simp_all add: zero_KeyValue_def)
  have "snd (last ?H) = Some kv" using assms(3) hist_last [OF assms(1), of key] by (auto simp: ev_live_def split: if_splits)
  then have inv: "st_inv ?w" using t live
    by (intro change_inv [OF assms(1), of _ True ?t "(st_next st, None)"]) (auto simp: kt ev_rel_def hstep_def ev_live_def)
  have at: "st_at ?w r k = (if k = key \<and> rmain (st_currentRev st) < r then None else st_at st r k)" for r k
    using change_at [of ?w st True ?t r k] kt by simp
  have m: "(rv, Some kv) \<in> set ?H" using assms(3) ev_latest_bound by (fastforce simp: ev_at_Some)
  from hist_memD [OF this] have kv: "((rv, False), kv) \<in> set (st_key st)" "kv_Key kv = key" by auto
  have g: "bk_range (rv, False) None 0 (st_key ?w) = [((rv, False), kv)]"
    using kv(1) by (intro bk_get st_inv_bk [OF inv]) simp
  have nr: "Revision ?r (rsub (st_currentRev st)) = st_next st" by (simp add: st_next_def)
  have o: "lease_of (st_now st key) = kv_Lease kv" using assms(3) by (simp add: lease_of_def st_at_def)
  let ?o = "lease_of (st_now st key)" and ?K = "st_keys st"
  have d0: "st_delete key rv st = st_detach ?o key ?w"
    using g by (simp add: st_delete_def nr t(1) bk_put_next [OF assms(1)] Let_def kv(2) o)
  have K: "st_keys ?w = ?K" by (simp add: st_keys_def fun_eq_iff)
  have ok: "lease_ok ?K (st_now st)" using assms(2) by (simp add: lease_inv_def)
  have "st_keys ?w ?o = Some (the (?K ?o))" if "?o \<noteq> NoLease" using ok that K by (auto simp: lease_ok_def)
  from st_detach_keys [OF this, of key] obtain le1 where
    d: "st_detach ?o key ?w = Some (?w\<lparr>st_le := le1\<rparr>)"
    "st_keys (?w\<lparr>st_le := le1\<rparr>) = (if ?o = NoLease then ?K else ?K(?o := Some (the (?K ?o) - {key})))" using K by auto
  let ?s = "?w\<lparr>st_le := le1\<rparr>"
  have now: "st_now ?s = (st_now st)(key := None)" using at by (auto simp: fun_eq_iff)
  have "lease_of None = NoLease" by (simp add: lease_of_def)
  from lease_ok_move [OF ok _ this d(2), of "st_keys ?s"] have "lease_inv ?s" unfolding lease_inv_def now by simp
  moreover have "st_same st ?s"
  proof -
    have "st_keys ?s i = None \<longleftrightarrow> ?K i = None" for i using ok by (auto simp: d(2) lease_ok_def)
    then show ?thesis by (simp add: st_same_def)
  qed
  moreover have "hist (st_key ?s) k = hist (st_key st) k" if "k \<noteq> key" for k using that by (simp add: hist_append hist_single kt)
  ultimately show ?thesis using inv at d d0 by auto
qed

lemma delete_all_ok:
  assumes "st_inv st" "lease_inv st" "distinct (map fst krs)"
    "\<forall>x \<in> set krs. \<exists>kv. ev_at (rmain (st_currentRev st) + 1) (hist (st_key st) (fst x)) = Some (snd x, kv)"
  shows "\<exists>st'. ofold (\<lambda>(k, rv) st. st_delete k rv st) krs st = Some st' \<and> st_inv st' \<and> lease_inv st' \<and> st_same st st' \<and>
    rsub (st_currentRev st') = rsub (st_currentRev st) + int (length krs) \<and>
    st_changes st' = st_changes st @ map (\<lambda>x. zero_KeyValue\<lparr>kv_Key := fst x\<rparr>) krs \<and>
    (\<forall>r k. st_at st' r k = (if k \<in> fst ` set krs \<and> rmain (st_currentRev st) < r then None else st_at st r k))"
  using assms
proof (induction krs arbitrary: st)
  case Nil
  then show ?case by (simp add: st_same_def)
next
  case (Cons x krs)
  obtain k rv where x: "x = (k, rv)" by (cases x)
  from Cons.prems(4) x obtain kv where "ev_at (rmain (st_currentRev st) + 1) (hist (st_key st) k) = Some (rv, kv)" by auto
  from delete_ok [OF Cons.prems(1,2) this] obtain st1 where
    s: "st_delete k rv st = Some st1" "st_inv st1" "lease_inv st1" "st_same st st1" "rsub (st_currentRev st1) = rsub (st_currentRev st) + 1"
      "st_changes st1 = st_changes st @ [zero_KeyValue\<lparr>kv_Key := k\<rparr>]"
    and h: "\<And>k'. k' \<noteq> k \<Longrightarrow> hist (st_key st1) k' = hist (st_key st) k'"
    and at: "\<And>r k'. st_at st1 r k' = (if k' = k \<and> rmain (st_currentRev st) < r then None else st_at st r k')" by blast
  have m: "rmain (st_currentRev st1) = rmain (st_currentRev st)" using s(4) by (simp add: st_same_def)
  have "\<forall>y \<in> set krs. \<exists>kv. ev_at (rmain (st_currentRev st1) + 1) (hist (st_key st1) (fst y)) = Some (snd y, kv)"
  proof
    fix y assume y: "y \<in> set krs"
    then have "fst y \<noteq> k" using Cons.prems(3) x by auto
    then show "\<exists>kv. ev_at (rmain (st_currentRev st1) + 1) (hist (st_key st1) (fst y)) = Some (snd y, kv)"
      using Cons.prems(4) y h m by simp
  qed
  from Cons.IH [OF s(2,3) _ this] Cons.prems(3) obtain st' where
    "ofold (\<lambda>(k, rv) st. st_delete k rv st) krs st1 = Some st'" "st_inv st'" "lease_inv st'" "st_same st1 st'"
    "rsub (st_currentRev st') = rsub (st_currentRev st1) + int (length krs)"
    "st_changes st' = st_changes st1 @ map (\<lambda>x. zero_KeyValue\<lparr>kv_Key := fst x\<rparr>) krs"
    "\<forall>r k'. st_at st' r k' = (if k' \<in> fst ` set krs \<and> rmain (st_currentRev st1) < r then None else st_at st1 r k')" by auto
  then show ?case using s at x m by (auto simp: st_same_def)
qed

text \<open>Without changes in the transaction, the current state is the one at the last revision.\<close>

lemma at_quiet:
  assumes "st_inv st" "rsub (st_currentRev st) = 0"
  shows "ev_at (rmain (st_currentRev st)) (hist (st_key st) k) = ev_at (rmain (st_currentRev st) + 1) (hist (st_key st) k)"
proof -
  have "rmain (fst e) \<le> rmain (st_currentRev st)" if "e \<in> set (hist (st_key st) k)" for e
    using hist_entry [of "st_next st" "st_key st" e k] that assms by (auto simp: st_inv_def st_next_def less_revision_def)
  then have "ev_latest (rmain (st_currentRev st)) (hist (st_key st) k) = ev_latest (rmain (st_currentRev st) + 1) (hist (st_key st) k)"
    unfolding ev_latest_def by (intro arg_cong [where f = "\<lambda>es. let es = es in if es = [] then None else Some (last es)"] filter_cong) fastforce+
  then show ?thesis by (simp add: ev_at_def)
qed

lemma deleteRange_ok:
  assumes "st_inv st" "lease_inv st"
  shows "\<exists>st' kvs. st_deleteRange key end st = Some (st', int (length kvs)) \<and> st_view st key end (rmain (st_currentRev st) + 1) kvs \<and>
    st_inv st' \<and> lease_inv st' \<and> st_same st st' \<and> rsub (st_currentRev st') = rsub (st_currentRev st) + int (length kvs) \<and>
    st_changes st' = st_changes st @ map (\<lambda>kv. zero_KeyValue\<lparr>kv_Key := kv_Key kv\<rparr>) kvs \<and>
    (\<forall>r k. st_at st' r k = (if range_of key end k \<and> rmain (st_currentRev st) < r then None else st_at st r k))"
proof -
  let ?m = "rmain (st_currentRev st)"
  define r where "r = ?m + (if rsub (st_currentRev st) > 0 then 1 else 0)"
  have q: "ev_at r (hist (st_key st) k) = ev_at (?m + 1) (hist (st_key st) k)" for k
    using at_quiet [OF assms(1), of k] assms(1) by (auto simp: r_def st_inv_def)
  have "st_compactMainRev st \<le> r" using assms(1) by (simp add: r_def st_inv_def)
  from range_view [OF assms(1) this, of key "end"] obtain ps where
    ps: "ti_Range key end r (st_kvindex st) = Some (map (kv_Key \<circ> snd) ps, map fst ps)" "st_view st key end r (map snd ps)"
    "\<forall>x \<in> set ps. ev_at r (hist (st_key st) (kv_Key (snd x))) = Some x" by auto
  have view: "st_view st key end (?m + 1) (map snd ps)" using ps(2) by (simp add: st_view_def st_at_def q)
  let ?krs = "zip (map (kv_Key \<circ> snd) ps) (map fst ps)"
  have krs: "?krs = map (\<lambda>x. (kv_Key (snd x), fst x)) ps" by (simp add: zip_map_map zip_same_conv_map)
  have "sorted_wrt (<) (map (kv_Key \<circ> snd) ps)" using ps(2) by (simp add: st_view_def comp_def)
  then have d: "distinct (map fst ?krs)" by (simp add: strict_sorted_iff)
  have "\<forall>x \<in> set ?krs. \<exists>kv. ev_at (?m + 1) (hist (st_key st) (fst x)) = Some (snd x, kv)" using ps(3) q by (fastforce simp: krs)
  from delete_all_ok [OF assms d this] obtain st' where
    s: "ofold (\<lambda>(k, rv) st. st_delete k rv st) ?krs st = Some st'" "st_inv st'" "lease_inv st'" "st_same st st'"
    "rsub (st_currentRev st') = rsub (st_currentRev st) + int (length ?krs)"
    "st_changes st' = st_changes st @ map (\<lambda>x. zero_KeyValue\<lparr>kv_Key := fst x\<rparr>) ?krs"
    and at: "\<And>r k. st_at st' r k = (if k \<in> fst ` set ?krs \<and> ?m < r then None else st_at st r k)" by blast
  have "st_at st' r k = (if range_of key end k \<and> ?m < r then None else st_at st r k)" for r k
  proof (cases "range_of key end k \<and> ?m < r \<and> k \<notin> fst ` set ?krs")
    case True
    then have "st_at st (?m + 1) k = None"
      using view st_at_Key [OF assms(1), of "?m + 1" k] by (cases "st_at st (?m + 1) k") (fastforce simp: st_view_def krs image_iff)+
    moreover have "st_at st r k = st_at st (?m + 1) k"
    proof -
      have "filter (\<lambda>e. rmain (fst e) \<le> r) (hist (st_key st) k) = filter (\<lambda>e. rmain (fst e) \<le> ?m + 1) (hist (st_key st) k)"
        using hist_bound [OF assms(1), of _ k] True by (intro filter_cong) fastforce+
      then show ?thesis by (simp add: st_at_def ev_at_def ev_latest_def)
    qed
    ultimately show ?thesis using True at [of r k] by simp
  next
    case False
    have "k \<in> fst ` set ?krs \<Longrightarrow> range_of key end k" using view by (force simp: st_view_def krs)
    then show ?thesis using False at [of r k] by auto
  qed
  moreover have "st_deleteRange key end st = Some (st', int (length (map snd ps)))"
    using ps(1) s(1) by (simp add: st_deleteRange_def r_def [symmetric] Let_def)
  ultimately show ?thesis using view s krs by (intro exI [of _ st'] exI [of _ "map snd ps"]) (simp add: comp_def)
qed

end
