(* ===== verification/Mvcc_Store_Compact.thy ===== *)
theory Mvcc_Store_Compact
  imports Mvcc_Store_Changes
begin

text \<open>
  Compaction: scheduling it changes only what is too old to be read, and so does every batch that
  the background job deletes, whatever happens between the batches.
\<close>

section \<open>Scheduling\<close>

lemma ev_rel_compact:
  assumes "list_all2 ev_rel E H"
  shows "list_all2 ev_rel (ev_compact c E) (ev_compact c H)"
proof -
  have f: "list_all2 ev_rel (filter (\<lambda>e. c < rmain (fst e)) E) (filter (\<lambda>e. c < rmain (fst e)) H)"
    using assms by induction (auto simp: ev_rel_def)
  have "list_all2 ev_rel (case ev_at c E of None \<Rightarrow> [] | Some (rv, x) \<Rightarrow> [(rv, Some x)]) (case ev_at c H of None \<Rightarrow> [] | Some (rv, x) \<Rightarrow> [(rv, Some x)])"
    using ev_rel_at [OF assms, of c] by (cases "ev_at c E"; cases "ev_at c H") (auto simp: ev_rel_def)
  with f show ?thesis unfolding ev_compact_at by (rule list_all2_appendI [rotated])
qed

lemma compact_index:
  assumes inv: "st_inv st" and c: "st_compactMainRev st \<le> c"
    and t: "ti_events t = (\<lambda>k. ev_compact c (ti_events (st_kvindex st) k))"
  shows "index_inv c (st_key st) t"
  unfolding index_inv_def
proof
  fix k
  let ?H = "hist (st_key st) k" and ?C = "st_compactMainRev st"
  have ok: "ev_ok ?H" by (rule st_inv_hist [OF inv])
  have nt: "no_tombs ?H" using inv hist_no_tombs [of "st_next st"] by (simp add: st_inv_def)
  have "list_all2 ev_rel (ti_events (st_kvindex st) k) (nolead (ev_compact ?C ?H))" using inv by (simp add: st_inv_def index_inv_def)
  from ev_rel_compact [OF this, of c]
  have "list_all2 ev_rel (ti_events t k) (ev_compact c (nolead (ev_compact ?C ?H)))" by (simp add: t)
  also have "ev_compact c (nolead (ev_compact ?C ?H)) = nolead (ev_compact c ?H)"
    using ev_compact_nolead [OF ev_ok_compact [OF ok] no_tombs_compact [OF ok nt], of c ?C] ev_compact_compact [OF ok c] by simp
  finally show "list_all2 ev_rel (ti_events t k) (nolead (ev_compact c ?H))" .
qed

lemma compact_job:
  assumes inv: "st_inv st" and c: "st_compactMainRev st \<le> c"
    and keep: "keep = (\<Union>k. ev_kept c (ti_events (st_kvindex st) k))"
  shows "job_ok c (st_key st) \<lparr>cj_rev = c, cj_keep = keep, cj_last = (Revision 0 0, False)\<rparr>"
proof -
  let ?b = "st_key st"
  have k: "rv \<in> keep \<longleftrightarrow> (\<exists>k kv. ev_at c (hist ?b k) = Some (rv, kv))" for rv
  proof -
    have "rv \<in> ev_kept c (ti_events (st_kvindex st) k) \<longleftrightarrow> (\<exists>kv. ev_at c (hist ?b k) = Some (rv, kv))" for k
      using index_at [OF inv c, of k] by (cases "ev_at c (ti_events (st_kvindex st) k)"; cases "ev_at c (hist ?b k)") (auto simp: ev_kept_at)
    then show ?thesis by (auto simp: keep)
  qed
  have "\<forall>rv \<in> keep. rmain rv \<le> c" using ev_latest_bound by (fastforce simp: k ev_at_Some)
  moreover have "\<forall>k rv kv. ev_latest c (hist ?b k) = Some (rv, Some kv) \<longrightarrow> rv \<in> keep" by (auto simp: k ev_at_Some)
  moreover have "snd e \<noteq> None \<and> ev_latest c (hist ?b k) = Some e" if e: "e \<in> set (hist ?b k)" "fst e \<in> keep" for k e
  proof -
    from e(2) obtain k' kv where a: "ev_latest c (hist ?b k') = Some (fst e, Some kv)" by (auto simp: k ev_at_Some)
    then have "(fst e, Some kv) \<in> set (hist ?b k')" using ev_latest_bound by fastforce
    moreover have "(fst e, snd e) \<in> set (hist ?b k)" using e(1) by simp
    ultimately have "k' = k \<and> Some kv = snd e" using hist_unique [OF st_inv_bk [OF inv]] by blast
    with a show ?thesis by (metis option.distinct(1) prod.collapse)
  qed
  moreover have "\<not> fst x < (Revision 0 0, False)" if "x \<in> set ?b" for x
    using inv that by (auto simp: st_inv_def bucket_inv_def entry_ok_def less_prod_def less_eq_revision_def less_revision_def)
  ultimately show ?thesis by (auto simp: job_ok_def)
qed

lemma job_ok_mono: "job_ok c b j \<Longrightarrow> c \<le> c' \<Longrightarrow> job_ok c' b j"
  by (auto simp: job_ok_def)

lemma Compact_ok:
  assumes "st_inv st" "st_compactMainRev st < c" "c \<le> rmain (st_currentRev st)"
  shows "\<exists>st'. st_Compact c st = Some (Inr st') \<and> st_inv st' \<and> st_key st' = st_key st \<and> st_le st' = st_le st \<and>
    st_currentRev st' = st_currentRev st \<and> st_compactMainRev st' = c \<and> st_scheduled st' = Some c \<and> st_finished st' = st_finished st"
proof -
  have ti: "ti_inv (st_kvindex st)" "ti_below (st_next st) (st_kvindex st)" using assms(1) by (auto simp: st_inv_def)
  from ti_Compact_events [OF ti(1), of c] obtain t keep where
    t: "ti_Compact c (st_kvindex st) = Some (t, keep)" "ti_inv t" "keep = (\<Union>k. ev_kept c (ti_events (st_kvindex st) k))"
    "ti_events t = (\<lambda>k. ev_compact c (ti_events (st_kvindex st) k))" "\<forall>rv. ti_below rv (st_kvindex st) \<longrightarrow> ti_below rv t" by blast
  let ?j = "\<lparr>cj_rev = c, cj_keep = keep, cj_last = (Revision 0 0, False)\<rparr>"
  let ?s = "st\<lparr>st_compactMainRev := c, st_scheduled := Some c, st_kvindex := t, st_jobs := st_jobs st @ [?j]\<rparr>"
  have le: "st_compactMainRev st \<le> c" using assms(2) by simp
  have "st_Compact c st = Some (Inr ?s)" using assms(2,3) t(1) by (simp add: st_Compact_def Let_def)
  moreover have "st_inv ?s"
  proof -
    have "job_ok c (st_key st) j" if "j \<in> set (st_jobs st @ [?j])" for j
      using that assms(1) le compact_job [OF assms(1) le t(3)] by (auto simp: st_inv_def intro: job_ok_mono)
    then show ?thesis using assms compact_index [OF assms(1) le t(4)] t(2,5) ti
      by (auto simp: st_inv_def st_next_def)
  qed
  ultimately show ?thesis by auto
qed

section \<open>A batch\<close>

text \<open>What a batch deletes, as a set of revisions.\<close>

lemma fold_delete:
  "fold (\<lambda>k b. if fst k \<in> keep then b else bk_delete k b) ks b = filter (\<lambda>x. \<not> (fst x \<in> set ks \<and> fst (fst x) \<notin> keep)) b"
  by (induction ks arbitrary: b) (auto simp: bk_delete_def filter_filter intro!: filter_cong)

lemma hist_drop:
  assumes b: "bk_ok b" and j: "job_ok c b j"
    and D: "\<And>x y. x \<in> set b \<Longrightarrow> y \<in> set b \<Longrightarrow> fst (fst x) < fst (fst y) \<Longrightarrow> kv_Key (snd x) = kv_Key (snd y) \<Longrightarrow>
        fst (fst y) \<in> D \<Longrightarrow> fst (fst x) \<in> D"
    and c: "\<And>x. x \<in> set b \<Longrightarrow> fst (fst x) \<in> D \<Longrightarrow> rmain (fst (fst x)) \<le> cj_rev j \<and> fst (fst x) \<notin> cj_keep j"
  shows "\<exists>xs. hist b k = xs @ hist (filter (\<lambda>x. fst (fst x) \<notin> D) b) k \<and>
    (\<forall>e \<in> set xs. rmain (fst e) \<le> cj_rev j) \<and>
    (\<forall>rv x. ev_latest (cj_rev j) (hist b k) = Some (rv, Some x) \<longrightarrow> (rv, Some x) \<notin> set xs)"
proof -
  let ?H = "hist b k" and ?P = "\<lambda>e :: revision \<times> KeyValue option. fst e \<in> D"
  have mem: "\<exists>x \<in> set b. kv_Key (snd x) = k \<and> fst (fst x) = fst e" if "e \<in> set ?H" for e using that by (auto simp: hist_mem)
  have "sorted_wrt (\<lambda>x y. ?P y \<longrightarrow> ?P x) ?H"
  proof -
    have "sorted_wrt (\<lambda>x y. fst x < fst y) ?H" using hist_ok [OF b, of k] by (simp add: ev_ok_def sorted_wrt_map)
    then show ?thesis
    proof (rule sorted_wrt_mono_rel [rotated])
      fix e f assume ef: "e \<in> set ?H" "f \<in> set ?H" "fst e < fst f"
      from mem [OF ef(1)] mem [OF ef(2)] D ef(3) show "?P f \<longrightarrow> ?P e" by metis
    qed
  qed
  then have d: "filter (\<lambda>x. \<not> ?P x) ?H = dropWhile ?P ?H" by (rule filter_dropWhile)
  have h: "hist (filter (\<lambda>x. fst (fst x) \<notin> D) b) k = filter (\<lambda>x. \<not> ?P x) ?H" using hist_filter [of "\<lambda>r. r \<notin> D" b k] by simp
  let ?xs = "takeWhile ?P ?H"
  have "rmain (fst e) \<le> cj_rev j \<and> fst e \<notin> cj_keep j" if "e \<in> set ?xs" for e
    using set_takeWhileD [OF that] mem [of e] c by metis
  moreover have "rv \<in> cj_keep j" if "ev_latest (cj_rev j) ?H = Some (rv, Some x)" for rv x using j that unfolding job_ok_def by blast
  ultimately show ?thesis using d h by (intro exI [of _ ?xs]) fastforce
qed

lemma suffix_job:
  assumes "job_ok c b j" "\<And>k. \<exists>xs. hist b k = xs @ hist b' k" "set b' \<subseteq> set b"
  shows "job_ok c b' j"
proof -
  have l: "ev_latest r (hist b k) = Some e" if "ev_latest r (hist b' k) = Some e" for r k e
    using assms(2) [of k] that ev_latest_drop by metis
  have s: "e \<in> set (hist b k)" if "e \<in> set (hist b' k)" for e k using assms(2) [of k] that by auto
  have m: "ev_latest r (hist b' k) = ev_latest r (hist b k)" if "e \<in> set (hist b' k)" "rmain (fst e) \<le> r" for e k r
    using that l [of r k] by (cases "ev_latest r (hist b' k)") (auto simp: ev_latest_None)
  have k: "\<forall>rv \<in> cj_keep j. rmain rv \<le> cj_rev j" using assms(1) by (auto simp: job_ok_def)
  have "snd e \<noteq> None \<and> ev_latest (cj_rev j) (hist b' k) = Some e" if "e \<in> set (hist b' k)" "fst e \<in> cj_keep j" for k e
    using assms(1) s [OF that(1)] m [OF that(1)] that(2) k unfolding job_ok_def by metis
  then show ?thesis using assms(1,3) l unfolding job_ok_def by blast
qed

lemma suffix_done:
  assumes "done_ok f b" "\<And>k. \<exists>xs. hist b k = xs @ hist b' k"
  shows "done_ok f b'"
  unfolding done_ok_def
proof (intro allI ballI impI)
  fix k e assume e: "e \<in> set (hist b' k)" "rmain (fst e) \<le> f"
  obtain xs where xs: "hist b k = xs @ hist b' k" using assms(2) by blast
  then have "e \<in> set (hist b k)" using e(1) by simp
  then have d: "snd e \<noteq> None" "ev_latest f (hist b k) = Some e" using assms(1) e(2) unfolding done_ok_def by blast+
  show "snd e \<noteq> None \<and> ev_latest f (hist b' k) = Some e"
    using d e xs by (cases "ev_latest f (hist b' k)") (auto simp: ev_latest_append ev_latest_None)
qed

text \<open>Deleting old parts of histories keeps the invariant.\<close>

lemma shrink_inv:
  assumes inv: "st_inv st" and j: "j \<in> set (st_jobs st)"
    and h: "\<And>k. \<exists>xs. hist (st_key st) k = xs @ hist b' k \<and> (\<forall>e \<in> set xs. rmain (fst e) \<le> cj_rev j) \<and>
      (\<forall>rv x. ev_latest (cj_rev j) (hist (st_key st) k) = Some (rv, Some x) \<longrightarrow> (rv, Some x) \<notin> set xs)"
    and b': "b' = filter P (st_key st)"
  shows "bucket_inv (st_next st) b' \<and> index_inv (st_compactMainRev st) b' (st_kvindex st) \<and>
    (\<forall>j \<in> set (st_jobs st). job_ok (st_compactMainRev st) b' j) \<and> (\<forall>f. st_finished st = Some f \<longrightarrow> done_ok f b') \<and>
    (\<forall>r k. st_compactMainRev st \<le> r \<longrightarrow> ev_at r (hist b' k) = ev_at r (hist (st_key st) k))"
proof -
  let ?b = "st_key st" and ?C = "st_compactMainRev st"
  have sub: "set b' \<subseteq> set ?b" by (auto simp: b')
  have suf: "\<exists>xs. hist ?b k = xs @ hist b' k" for k using h [of k] by blast
  have b: "bucket_inv (st_next st) ?b" using inv by (simp add: st_inv_def)
  have "bk_ok b'" using b by (simp add: b' bk_ok_def bucket_inv_def sorted_wrt_filter)
  moreover have "successively hstep (hist b' k)" for k
    using b suf [of k] unfolding bucket_inv_def by (metis successively_append_iff)
  ultimately have "bucket_inv (st_next st) b'" using b sub by (auto simp: bucket_inv_def)
  moreover have c: "cj_rev j \<le> ?C" using inv j by (auto simp: st_inv_def job_ok_def)
  have e: "ev_compact ?C (hist b' k) = ev_compact ?C (hist ?b k)" "?C \<le> r \<Longrightarrow> ev_at r (hist b' k) = ev_at r (hist ?b k)" for k r
  proof -
    from h [of k] obtain xs where xs: "hist ?b k = xs @ hist b' k" "\<forall>e \<in> set xs. rmain (fst e) \<le> cj_rev j"
      "\<forall>rv x. ev_latest (cj_rev j) (xs @ hist b' k) = Some (rv, Some x) \<longrightarrow> (rv, Some x) \<notin> set xs" by metis
    have ok: "ev_ok (xs @ hist b' k)" using st_inv_hist [OF inv, of k] xs(1) by simp
    show "ev_compact ?C (hist b' k) = ev_compact ?C (hist ?b k)" using ev_compact_drop [OF ok xs(2) c xs(3)] xs(1) by simp
    show "?C \<le> r \<Longrightarrow> ev_at r (hist b' k) = ev_at r (hist ?b k)" using ev_at_drop [OF ok xs(2) _ xs(3), of r] xs(1) c by simp
  qed
  have "index_inv ?C b' (st_kvindex st)" using inv by (simp add: st_inv_def index_inv_def e(1))
  moreover have "job_ok ?C b' i" if "i \<in> set (st_jobs st)" for i
    using inv that suffix_job [OF _ suf sub] by (auto simp: st_inv_def)
  moreover have "done_ok f b'" if "st_finished st = Some f" for f
    using inv that suffix_done [OF _ suf] by (auto simp: st_inv_def)
  ultimately show ?thesis using e(2) by blast
qed

text \<open>A walk through the bucket that stops early has seen everything before its last entry.\<close>

lemma take_down:
  assumes "bk_ok b" "x \<in> set b" "y \<in> set (take n b)" "fst (fst x) < fst (fst y)"
  shows "x \<in> set (take n b)"
proof (rule ccontr)
  assume "x \<notin> set (take n b)"
  then have "x \<in> set (drop n b)" using assms(2) by (metis Un_iff append_take_drop_id set_append)
  moreover have "sorted_wrt (\<lambda>x y. fst (fst x) < fst (fst y)) (take n b @ drop n b)" using assms(1) by (simp add: bk_ok_def)
  ultimately have "fst (fst y) < fst (fst x)" using assms(3) unfolding sorted_wrt_append by blast
  with assms(4) show False by simp
qed

lemma take_all:
  assumes "bk_ok b" "x \<in> set b" "take n b \<noteq> []" "fst (fst x) \<le> fst (fst (last (take n b)))"
  shows "x \<in> set (take n b)"
proof (cases "fst (fst x) = fst (fst (last (take n b)))")
  case True
  have "last (take n b) \<in> set (take n b)" using assms(3) by simp
  moreover from this have "last (take n b) \<in> set b" by (rule in_set_takeD)
  ultimately show ?thesis using bk_unique [OF assms(1,2) _ True] by simp
next
  case False
  then show ?thesis using take_down [OF assms(1,2), of "last (take n b)" n] assms(3,4) by simp
qed

lemma batch_ok:
  assumes inv: "st_inv st"
  shows "st_inv (st_compactBatch st) \<and> (\<forall>r k. st_compactMainRev st \<le> r \<longrightarrow> st_at (st_compactBatch st) r k = st_at st r k)"
proof (cases "st_jobs st")
  case Nil
  then show ?thesis using inv by (simp add: st_compactBatch_def)
next
  case (Cons j js)
  let ?b = "st_key st" and ?C = "st_compactMainRev st" and ?top = "(Revision (cj_rev j + 1) 0, False)"
  have jm: "j \<in> set (st_jobs st)" and job: "job_ok ?C ?b j" using inv Cons by (auto simp: st_inv_def)
  have bk: "bk_ok ?b" by (rule st_inv_bk [OF inv])
  define F where "F = filter (\<lambda>x. cj_last j \<le> fst x \<and> fst x < ?top) ?b"
  define es where "es = take 10000 F"
  have es: "bk_range (cj_last j) (Some ?top) batchsize ?b = es" by (simp add: bk_range_filter [OF bk] es_def F_def)
  have F: "bk_ok F" using bk by (simp add: F_def bk_ok_def sorted_wrt_filter)
  have esF: "x \<in> set ?b \<and> cj_last j \<le> fst x \<and> fst x < ?top" if "x \<in> set es" for x
    using that by (auto simp: es_def F_def dest!: in_set_takeD)
  have main: "rmain (fst (fst x)) \<le> cj_rev j \<longleftrightarrow> fst x < ?top" if "x \<in> set ?b" for x
  proof -
    have "0 \<le> rsub (fst (fst x))" using inv that by (auto simp: st_inv_def bucket_inv_def entry_ok_def)
    then show ?thesis by (auto simp: less_prod_def less_eq_revision_def less_revision_def)
  qed
  have u: "x \<in> set es" if "x \<in> set ?b" "y \<in> set es" "fst (fst x) = fst (fst y)" for x y
    using bk_unique [OF bk that(1) _ that(3)] esF [OF that(2)] that(2) by simp
  define D where "D = {rv. rv \<in> (fst \<circ> fst) ` set es \<and> rv \<notin> cj_keep j}"
  have inD: "fst (fst x) \<in> D \<longleftrightarrow> x \<in> set es \<and> fst (fst x) \<notin> cj_keep j" if "x \<in> set ?b" for x
  proof -
    have "fst (fst x) \<in> (fst \<circ> fst) ` set es \<longleftrightarrow> x \<in> set es" using u [OF that] unfolding comp_def image_iff by blast
    then show ?thesis by (simp add: D_def)
  qed
  define b' where "b' = filter (\<lambda>x. fst (fst x) \<notin> D) ?b"
  have b': "fold (\<lambda>k b. if fst k \<in> cj_keep j then b else bk_delete k b) (map fst es) ?b = b'"
    unfolding fold_delete b'_def
  proof (rule filter_cong [OF refl])
    fix x assume x: "x \<in> set ?b"
    have "fst x \<in> set (map fst es) \<longleftrightarrow> x \<in> set es" using u [OF x] unfolding set_map image_iff by metis
    then show "(\<not> (fst x \<in> set (map fst es) \<and> fst (fst x) \<notin> cj_keep j)) = (fst (fst x) \<notin> D)" using inD [OF x] by simp
  qed
  have keep: "\<not> (fst (fst x) < fst (fst y) \<and> rmain (fst (fst y)) \<le> cj_rev j)"
    if "x \<in> set ?b" "y \<in> set ?b" "kv_Key (snd x) = kv_Key (snd y)" "fst (fst x) \<in> cj_keep j" for x y
  proof
    assume lt: "fst (fst x) < fst (fst y) \<and> rmain (fst (fst y)) \<le> cj_rev j"
    let ?h = "\<lambda>x :: rkey \<times> KeyValue. (fst (fst x), if snd (fst x) then None else Some (snd x))" and ?k = "kv_Key (snd x)"
    have h: "?h x \<in> set (hist ?b ?k)" "?h y \<in> set (hist ?b ?k)" using that(1-3) unfolding hist_mem by metis+
    have "ev_latest (cj_rev j) (hist ?b ?k) = Some (?h x)" using job h(1) that(4) unfolding job_ok_def by force
    from ev_latest_after [OF st_inv_hist [OF inv] this h(2)] lt show False by auto
  qed
  have h: "\<exists>xs. hist ?b k = xs @ hist b' k \<and> (\<forall>e \<in> set xs. rmain (fst e) \<le> cj_rev j) \<and>
      (\<forall>rv x. ev_latest (cj_rev j) (hist ?b k) = Some (rv, Some x) \<longrightarrow> (rv, Some x) \<notin> set xs)" for k
    unfolding b'_def
  proof (rule hist_drop [OF bk job])
    fix x y assume x: "x \<in> set ?b" and y: "y \<in> set ?b" and lt: "fst (fst x) < fst (fst y)" and k: "kv_Key (snd x) = kv_Key (snd y)" and yD: "fst (fst y) \<in> D"
    have ye: "y \<in> set es" and my: "rmain (fst (fst y)) \<le> cj_rev j" using inD [OF y] yD esF main [OF y] by auto
    have mx: "rmain (fst (fst x)) \<le> cj_rev j" using less_rmain [OF lt] my by simp
    have nk: "fst (fst x) \<notin> cj_keep j" using keep [OF x y k] lt my by blast
    have "cj_last j \<le> fst x" using job x mx nk unfolding job_ok_def by (metis not_le)
    then have "x \<in> set F" using x mx main [OF x] by (simp add: F_def)
    then have "x \<in> set es" using take_down [OF F _ _ lt] ye by (simp add: es_def)
    then show "fst (fst x) \<in> D" using inD [OF x] nk by simp
  next
    fix x assume "x \<in> set ?b" "fst (fst x) \<in> D"
    then show "rmain (fst (fst x)) \<le> cj_rev j \<and> fst (fst x) \<notin> cj_keep j" using inD esF main by blast
  qed
  note S = shrink_inv [OF inv jm h b'_def]
  have kept: "fst (fst x) \<in> cj_keep j" if "x \<in> set b'" "x \<in> set es \<or> fst x < cj_last j \<and> rmain (fst (fst x)) \<le> cj_rev j" for x
  proof -
    have x: "x \<in> set ?b" "fst (fst x) \<notin> D" using that(1) by (simp_all add: b'_def)
    show ?thesis using that(2) inD [OF x(1)] x job unfolding job_ok_def by blast
  qed
  show ?thesis
  proof (cases "int (length es) < batchsize")
    case True
    let ?s = "st\<lparr>st_key := b', st_finished := Some (cj_rev j), st_jobs := js\<rparr>"
    have st: "st_compactBatch st = ?s" using Cons True by (simp add: st_compactBatch_def es b' Let_def)
    have "es = F" using True by (simp add: es_def)
    have "done_ok (cj_rev j) b'" unfolding done_ok_def
    proof (intro allI ballI impI)
      fix k e assume e: "e \<in> set (hist b' k)" "rmain (fst e) \<le> cj_rev j"
      from e(1) obtain x where x: "x \<in> set b'" "fst e = fst (fst x)" by (auto simp: hist_mem)
      have xb: "x \<in> set ?b" using x(1) by (simp add: b'_def)
      have "x \<in> set es \<or> fst x < cj_last j" using xb main [OF xb] e(2) x(2) unfolding \<open>es = F\<close> F_def by auto
      then have "fst e \<in> cj_keep j" using kept [OF x(1)] e(2) x(2) by auto
      moreover have "job_ok ?C b' j" using S jm by blast
      ultimately show "snd e \<noteq> None \<and> ev_latest (cj_rev j) (hist b' k) = Some e" using e(1) unfolding job_ok_def by blast
    qed
    moreover have "cj_rev j \<le> ?C" using job by (simp add: job_ok_def)
    ultimately have "st_inv ?s" using inv S Cons by (auto simp: st_inv_def st_next_def)
    then show ?thesis using S by (simp add: st st_at_def)
  next
    case False
    then have ne: "es \<noteq> []" by auto
    let ?rv = "fst (fst (last es))"
    let ?j = "j\<lparr>cj_last := (Revision (rmain ?rv) (rsub ?rv + 1), False)\<rparr>"
    let ?s = "st\<lparr>st_key := b', st_jobs := ?j # js\<rparr>"
    have st: "st_compactBatch st = ?s" using Cons False ne by (simp add: st_compactBatch_def es b' Let_def last_map)
    have "fst (fst x) \<in> cj_keep j" if x: "x \<in> set b'" "fst x < cj_last ?j" "rmain (fst (fst x)) \<le> cj_rev j" for x
    proof -
      have xb: "x \<in> set ?b" using x(1) by (simp add: b'_def)
      have "fst (fst x) \<le> ?rv" using x(2) by (auto simp: less_prod_def less_eq_revision_def less_revision_def)
      then have "x \<in> set es \<or> fst x < cj_last j"
        using take_all [OF F, of x 10000] ne xb main [OF xb] x(3) by (auto simp: es_def F_def)
      then show ?thesis using kept [OF x(1)] x(3) by blast
    qed
    moreover have "job_ok ?C b' j" using S jm by blast
    ultimately have "job_ok ?C b' ?j" by (simp add: job_ok_def)
    then have "st_inv ?s" using inv S Cons by (auto simp: st_inv_def st_next_def)
    then show ?thesis using S by (simp add: st st_at_def)
  qed
qed

end
