(* ===== verification/Lease_Props.thy ===== *)
theory Lease_Props
  imports Lease_Lessor "HOL-Library.Code_Target_Nat" "HOL-Library.Code_Target_Int"
begin

text \<open>Properties of the lessor.\<close>

section \<open>Invariant\<close>

text \<open>A call of a method of the lessor.\<close>

datatype le_op = OGrant int LeaseID int | ORemove LeaseID | ORenew int LeaseID | OPromote int int | ODemote
  | OAttach LeaseID "bytes list" | ODetach LeaseID "bytes list"

fun le_exec :: "le_op \<Rightarrow> lessor \<Rightarrow> lessor" where
  "le_exec (OGrant now i ttl) le = (case le_Grant now i ttl le of Inl _ \<Rightarrow> le | Inr (l, le') \<Rightarrow> le')"
| "le_exec (ORemove i) le = le_remove i le"
| "le_exec (ORenew now i) le = (case le_Renew now i le of Inl _ \<Rightarrow> le | Inr (ttl, le') \<Rightarrow> le')"
| "le_exec (OPromote now ext) le = le_Promote now ext le"
| "le_exec ODemote le = le_Demote le"
| "le_exec (OAttach i items) le = (case le_Attach i items le of Inl _ \<Rightarrow> le | Inr le' \<Rightarrow> le')"
| "le_exec (ODetach i items) le = (case le_Detach i items le of Inl _ \<Rightarrow> le | Inr le' \<Rightarrow> le')"

lemma le_inv_lease:
  "le_inv le \<Longrightarrow> map_of (le_leaseMap le) i = Some l \<Longrightarrow> ls_ID l = i \<and> i \<noteq> NoLease \<and> minLeaseTTL \<le> ls_TTL l \<and> distinct (ls_itemSet l)"
  unfolding le_inv_def by (auto dest: map_of_SomeD)

text \<open>Replacing a lease by one with the same identifier and time to live.\<close>

lemma le_inv_replace:
  assumes "le_inv le" "map_of (le_leaseMap le) i = Some l" "ls_ID l' = i" "ls_TTL l' = ls_TTL l" "distinct (ls_itemSet l')"
  shows "le_inv (le\<lparr>le_leaseMap := AList.update i l' (le_leaseMap le)\<rparr>)"
proof -
  have b: "map_option ls_TTL (map_of (AList.update i l' (le_leaseMap le)) k) = map_of (le_b le) k" for k
    using assms(1,2,4) by (auto simp: le_inv_def update_conv' dest: spec [of _ k])
  have "\<forall>(k, x) \<in> insert (i, l') (set (le_leaseMap le)). ls_ID x = k \<and> k \<noteq> NoLease \<and> minLeaseTTL \<le> ls_TTL x \<and> distinct (ls_itemSet x)"
    using assms le_inv_lease [OF assms(1,2)] unfolding le_inv_def by auto
  with set_update_subset [of i l' "le_leaseMap le"]
  have "\<forall>(k, x) \<in> set (AList.update i l' (le_leaseMap le)). ls_ID x = k \<and> k \<noteq> NoLease \<and> minLeaseTTL \<le> ls_TTL x \<and> distinct (ls_itemSet x)"
    by blast
  then show ?thesis using assms(1) b by (auto simp: le_inv_def distinct_update)
qed

lemma le_inv_Grant:
  assumes "le_inv le" "le_Grant now i ttl le = Inr (l, le')"
  shows "le_inv le'"
proof -
  have n: "i \<noteq> NoLease" "map_of (le_leaseMap le) i = None"
    and le': "le' = le_persist l (le\<lparr>le_leaseMap := AList.update i l (le_leaseMap le)\<rparr>)"
    and l: "ls_ID l = i" "ls_TTL l = max minLeaseTTL ttl" "ls_itemSet l = []"
    using assms(2) by (auto simp: le_Grant_def Let_def split: if_splits)
  have "\<forall>(k, x) \<in> insert (i, l) (set (le_leaseMap le)). ls_ID x = k \<and> k \<noteq> NoLease \<and> minLeaseTTL \<le> ls_TTL x \<and> distinct (ls_itemSet x)"
    using assms(1) n l unfolding le_inv_def by auto
  with set_update_subset [of i l "le_leaseMap le"]
  have "\<forall>(k, x) \<in> set (AList.update i l (le_leaseMap le)). ls_ID x = k \<and> k \<noteq> NoLease \<and> minLeaseTTL \<le> ls_TTL x \<and> distinct (ls_itemSet x)"
    by blast
  then show ?thesis using assms(1) l by (auto simp: le_inv_def le' le_persist_def distinct_update update_conv')
qed

lemma le_inv_map:
  assumes "le_inv le" "\<And>l. ls_ID (f l) = ls_ID l \<and> ls_itemSet (f l) = ls_itemSet l \<and> ls_TTL (f l) = max minLeaseTTL (ls_TTL l)"
  shows "le_inv (le\<lparr>le_primary := p, le_leaseMap := map (\<lambda>(i, l). (i, f l)) (le_leaseMap le)\<rparr>)"
proof -
  have "map_option ls_TTL (map_option f (map_of (le_leaseMap le) k)) = map_of (le_b le) k" for k
    using assms le_inv_lease [OF assms(1), of k] by (cases "map_of (le_leaseMap le) k") (auto simp: le_inv_def dest: spec [of _ k])
  moreover have "distinct (map fst (map (\<lambda>(i, l). (i, f l)) (le_leaseMap le)))"
    using assms(1) by (simp add: le_inv_def comp_def case_prod_unfold)
  moreover have "\<forall>(k, x) \<in> set (map (\<lambda>(i, l). (i, f l)) (le_leaseMap le)).
      ls_ID x = k \<and> k \<noteq> NoLease \<and> minLeaseTTL \<le> ls_TTL x \<and> distinct (ls_itemSet x)"
    using assms unfolding le_inv_def by auto
  ultimately show ?thesis using assms(1) unfolding le_inv_def by (simp add: map_of_map_snd)
qed

lemma le_inv_remove: "le_inv le \<Longrightarrow> le_inv (le_remove i le)"
proof -
  assume i: "le_inv le"
  have "set (AList.delete i (le_leaseMap le)) \<subseteq> set (le_leaseMap le)" by (simp add: AList.delete_eq)
  with i have "\<forall>(k, x) \<in> set (AList.delete i (le_leaseMap le)). ls_ID x = k \<and> k \<noteq> NoLease \<and> minLeaseTTL \<le> ls_TTL x \<and> distinct (ls_itemSet x)"
    unfolding le_inv_def by blast
  then show ?thesis using i by (auto simp: le_inv_def le_remove_def distinct_delete delete_conv')
qed

lemma le_inv_exec: "le_inv le \<Longrightarrow> le_inv (le_exec op le)"
proof (induction op)
  case (OGrant now i ttl)
  then show ?case using le_inv_Grant [OF OGrant] by (auto split: sum.split)
next
  case (ORenew now i)
  have "le_inv le'" if "le_Renew now i le = Inr (ttl, le')" for ttl le'
    using that ORenew le_inv_replace [OF ORenew] le_inv_lease [OF ORenew]
    by (fastforce simp: le_Renew_def Let_def split: if_splits option.splits)
  then show ?case using ORenew by (auto split: sum.split)
next
  case (OAttach i items)
  then show ?case using le_inv_replace [OF OAttach] le_inv_lease [OF OAttach]
    by (auto simp: le_Attach_def split: option.split)
next
  case (ODetach i items)
  then show ?case using le_inv_replace [OF ODetach] le_inv_lease [OF ODetach]
    by (auto simp: le_Detach_def split: option.split)
next
  case (OPromote now ext)
  then show ?case using le_inv_map [of le "ls_refresh now ext" True] by (simp add: le_Promote_def)
next
  case ODemote
  then show ?case using le_inv_map [of le ls_forever False] by (simp add: le_Demote_def le_inv_def)
next
  case (ORemove i)
  then show ?case by (simp add: le_inv_remove)
qed


section \<open>Expiry\<close>


definition lessor1 :: lessor where
  "lessor1 = \<lparr>le_primary = True, le_leaseMap = [(7, \<lparr>ls_ID = 7, ls_TTL = 60, ls_itemSet = [''k''], ls_expiry = 5\<rparr>)], le_b = [(7, 60)]\<rparr>"


text \<open>C34. A time to live that does not fit the nanosecond clock overflows: a lease granted by the
  primary with a time to live between 9223372037 and 18446744073 seconds, almost 300 years and more, is
  reported as expired at once.\<close>

theorem grant_overflow:
  assumes "le_primary le" "i \<noteq> NoLease" "map_of (le_leaseMap le) i = None" "9223372037 \<le> ttl" "ttl \<le> 18446744073"
  shows "\<exists>l le'. le_Grant now i ttl le = Inr (l, le') \<and> l \<in> set (le_expired now le')"
proof -
  let ?l = "ls_refresh now 0 \<lparr>ls_ID = i, ls_TTL = ttl, ls_itemSet = [], ls_expiry = 0\<rparr>"
  let ?le = "le_persist ?l (le\<lparr>le_leaseMap := AList.update i ?l (le_leaseMap le)\<rparr>)"
  have g: "le_Grant now i ttl le = Inr (?l, ?le)" using assms by (simp add: le_Grant_def Let_def)
  have "int64 (second * ttl) = second * ttl - 18446744073709551616"
  proof -
    let ?x = "second * ttl - 9223372036854775808"
    have "(second * ttl + 9223372036854775808) mod 18446744073709551616 = (?x + 18446744073709551616) mod 18446744073709551616" by (simp add: add.commute)
    also have "\<dots> = ?x mod 18446744073709551616" by (rule mod_add_self2)
    also have "\<dots> = ?x" using assms(4,5) by (intro mod_pos_pos_trivial) auto
    finally show ?thesis by (simp add: int64_def)
  qed
  then have "int64 (second * ttl) < 0" "int64 (int64 (second * ttl)) = int64 (second * ttl)"
    using assms(4,5) by (simp_all add: int64_id)
  then have "ls_expiry ?l < now" using assms(4) by (simp add: ls_refresh_def)
  moreover have "(i, ?l) \<in> set (AList.update i ?l (le_leaseMap le))" using update_conv' [of i ?l "le_leaseMap le"] by (auto intro: map_of_SomeD)
  ultimately have "?l \<in> set (le_expired now ?le)"
    using assms(1) by (force simp: le_expired_def le_findExpiredLeases_def le_persist_def)
  with g show ?thesis by blast
qed

theorem grant_overflow_witness:
  "\<exists>l le'. le_Grant 1000 8 10000000000 lessor1 = Inr (l, le') \<and> l \<in> set (le_expired 1000 le')"
  using grant_overflow [of lessor1 8 10000000000 1000] by (simp add: lessor1_def)

section \<open>Recovery\<close>



end
