(* ===== verification/Mvcc_Store_Run.thy ===== *)
theory Mvcc_Store_Run
  imports Mvcc_Store_Compact Lease_Props
begin

text \<open>
  The store as a state machine: a step is one operation under the lock, one batch of a background
  compaction or an operation of the lessor.  Every step keeps the invariants and the history that
  can still be read.
\<close>

section \<open>Transactions\<close>

text \<open>A store between two transactions.\<close>

definition st_idle :: "store \<Rightarrow> bool" where
  "st_idle st \<longleftrightarrow> st_inv (st\<lparr>st_currentRev := Revision (rmain (st_currentRev st)) 0\<rparr>)"

definition st_ok :: "store \<Rightarrow> bool" where
  "st_ok st \<longleftrightarrow> st_idle st \<and> lease_inv st"

lemma TxnBegin_inv: "st_idle st \<Longrightarrow> st_inv (st_TxnBegin i st)"
  by (simp add: st_idle_def st_TxnBegin_def st_inv_def st_next_def)

lemma TxnBegin_sel [simp]:
  "rmain (st_currentRev (st_TxnBegin i st)) = rmain (st_currentRev st)" "rsub (st_currentRev (st_TxnBegin i st)) = 0"
  "st_txnID (st_TxnBegin i st) = i" "st_compactMainRev (st_TxnBegin i st) = st_compactMainRev st"
  "st_key (st_TxnBegin i st) = st_key st" "st_le (st_TxnBegin i st) = st_le st" "st_changes (st_TxnBegin i st) = st_changes st"
  "st_at (st_TxnBegin i st) = st_at st" "st_keys (st_TxnBegin i st) = st_keys st"
  "st_finished (st_TxnBegin i st) = st_finished st" "st_scheduled (st_TxnBegin i st) = st_scheduled st"
  "st_jobs (st_TxnBegin i st) = st_jobs st"
  by (simp_all add: st_TxnBegin_def st_at_def st_keys_def fun_eq_iff)

lemma TxnBegin_lease: "lease_inv st \<Longrightarrow> lease_inv (st_TxnBegin i st)"
  by (simp add: lease_inv_def)

lemma at_future:
  assumes "st_inv st" "rmain (st_currentRev st) < r"
  shows "st_at st r = st_now st"
proof
  fix k
  have "filter (\<lambda>e. rmain (fst e) \<le> r) (hist (st_key st) k) = filter (\<lambda>e. rmain (fst e) \<le> rmain (st_currentRev st) + 1) (hist (st_key st) k)"
    using hist_bound [OF assms(1), of _ k] assms(2) by (intro filter_cong) fastforce+
  then show "st_at st r k = st_now st k" by (simp add: st_at_def ev_at_def ev_latest_def)
qed

text \<open>The end of a transaction.\<close>

lemma txnEnd_ok:
  assumes "st_inv st" "lease_inv st" "st_txnID st = i"
  shows "\<exists>st'. st_txnEnd i st = Inr st' \<and> st_end i st = st' \<and> st_ok st' \<and> st_at st' = st_at st \<and> st_keys st' = st_keys st \<and>
    st_currentRev st' = Revision (rmain (st_currentRev st) + (if rsub (st_currentRev st) \<noteq> 0 then 1 else 0)) 0 \<and>
    st_changes st' = st_changes st \<and> st_compactMainRev st' = st_compactMainRev st \<and> st_le st' = st_le st \<and> st_key st' = st_key st \<and>
    st_finished st' = st_finished st \<and> st_scheduled st' = st_scheduled st \<and> st_jobs st' = st_jobs st"
proof -
  let ?m = "rmain (st_currentRev st)" and ?s = "rsub (st_currentRev st)"
  let ?st = "st\<lparr>st_currentRev := Revision (if ?s \<noteq> 0 then ?m + 1 else ?m) 0\<rparr>"
  have e: "st_txnEnd i st = Inr ?st" using assms(3) by (simp add: st_txnEnd_def Let_def)
  have n: "st_next st \<le> st_next ?st" using assms(1) by (auto simp: st_inv_def st_next_def less_eq_revision_def)
  have b: "bucket_inv (st_next ?st) (st_key st)"
    using assms(1) n by (auto simp: st_inv_def bucket_inv_def entry_ok_def intro: less_le_trans)
  have t: "ti_below (st_next ?st) (st_kvindex st)" using assms(1) n by (auto simp: st_inv_def intro: ti_below_mono)
  have "st_inv ?st" using assms(1) b t by (auto simp: st_inv_def)
  then have "st_idle ?st" by (simp add: st_idle_def)
  moreover have at: "st_at ?st = st_at st" "st_keys ?st = st_keys st" by (simp_all add: st_at_def st_keys_def fun_eq_iff)
  moreover have "lease_inv ?st" using assms(2) at at_future [OF assms(1), of "2 + ?m"] by (auto simp: lease_inv_def)
  ultimately show ?thesis using e by (simp add: st_end_def st_ok_def)
qed

section \<open>Steps\<close>

text \<open>What is kept from one state to a later one.\<close>

definition st_later :: "store \<Rightarrow> store \<Rightarrow> bool" where
  "st_later st st' \<longleftrightarrow> st_Rev st \<le> st_Rev st' \<and> st_compactMainRev st \<le> st_compactMainRev st' \<and>
     (\<forall>r k. st_compactMainRev st' \<le> r \<and> r \<le> st_Rev st \<longrightarrow> st_at st' r k = st_at st r k)"

lemma st_later_refl: "st_later st st"
  by (simp add: st_later_def)

lemma st_later_trans: "st_later st st' \<Longrightarrow> st_later st' st'' \<Longrightarrow> st_later st st''"
  by (auto simp: st_later_def)

datatype txn_op = TPut bytes bytes LeaseID | TDeleteRange bytes "bytes option"

fun txn_exec :: "int \<Rightarrow> txn_op \<Rightarrow> store \<Rightarrow> store option" where
  "txn_exec i (TPut key val l) st = (case st_TxnPut i key val l st of Some (Inr (st, _)) \<Rightarrow> Some st | _ \<Rightarrow> None)"
| "txn_exec i (TDeleteRange key end) st = (case st_TxnDeleteRange i key end st of Some (Inr (st, _)) \<Rightarrow> Some st | _ \<Rightarrow> None)"

inductive st_step :: "store \<Rightarrow> store \<Rightarrow> bool" where
  step_Put: "st_Put i key val l st = Some (st', r) \<Longrightarrow> st_step st st'"
| step_DeleteRange: "st_DeleteRange i key end st = Some (st', n, r) \<Longrightarrow> st_step st st'"
| step_Range: "st_Range i key end limit rangeRev st = Some (st', res) \<Longrightarrow> st_step st st'"
| step_Txn: "ofold (txn_exec i) ops (st_TxnBegin i st) = Some st1 \<Longrightarrow> st_TxnEnd i st1 = Inr st' \<Longrightarrow> st_step st st'"
| step_Compact: "st_Compact c st = Some (Inr st') \<Longrightarrow> st_step st st'"
| step_Batch: "st_step st (st_compactBatch st)"
| step_Grant: "st_le st = Some le \<Longrightarrow> le_Grant now i ttl le = Inr (l, le') \<Longrightarrow> st_step st (st\<lparr>st_le := Some le'\<rparr>)"
| step_Renew: "st_le st = Some le \<Longrightarrow> le_Renew now i le = Inr (ttl, le') \<Longrightarrow> st_step st (st\<lparr>st_le := Some le'\<rparr>)"
| step_Promote: "st_le st = Some le \<Longrightarrow> st_step st (st\<lparr>st_le := Some (le_Promote now ext le)\<rparr>)"
| step_Demote: "st_le st = Some le \<Longrightarrow> st_step st (st\<lparr>st_le := Some (le_Demote le)\<rparr>)"
| step_Revoke: "st_Revoke i l st = Some (Inr st') \<Longrightarrow> st_step st st'"

text \<open>A put or a deletion inside a transaction that has begun.\<close>

definition txn_ok :: "store \<Rightarrow> store \<Rightarrow> bool" where
  "txn_ok st0 st \<longleftrightarrow> st_inv st \<and> lease_inv st \<and> st_same st0 st \<and> rsub (st_currentRev st0) \<le> rsub (st_currentRev st) \<and>
     (rsub (st_currentRev st) = rsub (st_currentRev st0) \<longrightarrow> st_now st = st_now st0) \<and>
     (\<forall>r k. r \<le> rmain (st_currentRev st0) \<longrightarrow> st_at st r k = st_at st0 r k) \<and>
     (\<forall>k kv. st_now st k = Some kv \<longrightarrow> st_now st0 k = Some kv \<or> kv_ModRevision kv = rmain (st_currentRev st0) + 1)"

lemma txn_ok_refl: "st_inv st \<Longrightarrow> lease_inv st \<Longrightarrow> txn_ok st st"
  by (simp add: txn_ok_def st_same_def)

lemma txn_ok_put:
  assumes "txn_ok st0 st" "st_put key val l st = Some st'"
  shows "txn_ok st0 st'"
proof -
  have i: "st_inv st" "lease_inv st" "st_same st0 st" using assms(1) by (auto simp: txn_ok_def)
  have "l = NoLease \<or> st_keys st l \<noteq> None" using put_no_lease [OF i(1,2), of l key val] assms(2) by auto
  from put_ok [OF i(1,2) this, of key val] assms(2) have
    p: "st_inv st'" "lease_inv st'" "st_same st st'" "rsub (st_currentRev st') = rsub (st_currentRev st) + 1"
    and at: "\<And>r k. st_at st' r k = (if k = key \<and> rmain (st_currentRev st) < r then Some (put_kv key val l st) else st_at st r k)" by auto
  have m: "rmain (st_currentRev st) = rmain (st_currentRev st0)" "rmain (st_currentRev st') = rmain (st_currentRev st0)"
    using i(3) p(3) by (auto simp: st_same_def)
  show ?thesis using assms(1) p at m unfolding txn_ok_def by (auto simp: st_same_def put_kv_def split: if_splits)
qed

lemma txn_ok_delete:
  assumes "txn_ok st0 st" "st_deleteRange key end st = Some (st', n)"
  shows "txn_ok st0 st' \<and> 0 \<le> n"
proof -
  have i: "st_inv st" "lease_inv st" "st_same st0 st" using assms(1) by (auto simp: txn_ok_def)
  from deleteRange_ok [OF i(1,2), of key "end"] assms(2) obtain kvs where
    n: "n = int (length kvs)" "st_view st key end (rmain (st_currentRev st) + 1) kvs"
    and p: "st_inv st'" "lease_inv st'" "st_same st st'" "rsub (st_currentRev st') = rsub (st_currentRev st) + int (length kvs)"
    and at: "\<And>r k. st_at st' r k = (if range_of key end k \<and> rmain (st_currentRev st) < r then None else st_at st r k)" by auto
  have m: "rmain (st_currentRev st) = rmain (st_currentRev st0)" "rmain (st_currentRev st') = rmain (st_currentRev st0)"
    using i(3) p(3) by (auto simp: st_same_def)
  have "st_now st' = st_now st0" if "rsub (st_currentRev st') = rsub (st_currentRev st0)"
  proof -
    have le: "rsub (st_currentRev st0) \<le> rsub (st_currentRev st)" using assms(1) by (simp add: txn_ok_def)
    have "int (length kvs) = 0" using that p(4) le by linarith
    then have z: "kvs = []" by simp
    then have e: "st_now st = st_now st0" using that p(4) assms(1) by (simp add: txn_ok_def)
    have "st_now st k = None" if "range_of key end k" for k
      using n(2) z that st_at_Key [OF i(1), of _ k] by (cases "st_now st k") (auto simp: st_view_def)
    then show ?thesis using e at m by (auto simp: fun_eq_iff)
  qed
  then show ?thesis using assms(1) p at m n(1) unfolding txn_ok_def by (auto simp: st_same_def split: if_splits)
qed

lemma txn_ok_exec: "txn_ok st0 st \<Longrightarrow> txn_exec i op st = Some st' \<Longrightarrow> txn_ok st0 st'"
  by (cases op) (auto simp: st_TxnPut_def st_TxnDeleteRange_def bind_eq_Some_conv Let_def intro: txn_ok_put txn_ok_delete [THEN conjunct1]
      split: option.splits sum.splits if_splits)

lemma txn_ok_all: "txn_ok st0 st \<Longrightarrow> ofold (txn_exec i) ops st = Some st' \<Longrightarrow> txn_ok st0 st'"
  using ofold_invariant [of "txn_exec i" ops st st' "txn_ok st0"] txn_ok_exec by blast

text \<open>A whole transaction.\<close>

lemma txn_end_later:
  assumes "st_ok st" "txn_ok (st_TxnBegin i st) st1"
  shows "\<exists>st'. st_txnEnd i st1 = Inr st' \<and> st_end i st1 = st' \<and> st_ok st' \<and> st_later st st' \<and> st_at st' = st_at st1 \<and> st_keys st' = st_keys st1 \<and>
    st_Rev st' = st_Rev st + (if rsub (st_currentRev st1) \<noteq> 0 then 1 else 0) \<and> rsub (st_currentRev st') = 0 \<and>
    st_compactMainRev st' = st_compactMainRev st"
proof -
  have t: "st_inv st1" "lease_inv st1" "st_same (st_TxnBegin i st) st1"
    "\<And>r k. r \<le> rmain (st_currentRev st) \<Longrightarrow> st_at st1 r k = st_at st r k"
    using assms(2) by (auto simp: txn_ok_def)
  have "st_txnID st1 = i" using t(3) by (simp add: st_same_def)
  from txnEnd_ok [OF t(1,2) this] obtain st' where
    "st_txnEnd i st1 = Inr st'" "st_end i st1 = st'" "st_ok st'" "st_at st' = st_at st1" "st_keys st' = st_keys st1" "st_compactMainRev st' = st_compactMainRev st1"
    "st_currentRev st' = Revision (rmain (st_currentRev st1) + (if rsub (st_currentRev st1) \<noteq> 0 then 1 else 0)) 0" by blast
  then show ?thesis using t(3,4) by (auto simp: st_later_def st_Rev_def st_same_def)
qed

section \<open>Every step keeps the invariants and the past\<close>

lemma Put_txn:
  assumes "st_ok st"
  shows "st_Put i key val l st = map_option (\<lambda>st1. (st_end i st1, st_Rev (st_end i st1))) (st_put key val l (st_TxnBegin i st))"
  by (cases "st_put key val l (st_TxnBegin i st)") (simp_all add: st_Put_def st_Rev_def Let_def)

lemma begin_txn_ok: "st_ok st \<Longrightarrow> txn_ok (st_TxnBegin i st) (st_TxnBegin i st)"
  by (auto simp: st_ok_def intro: txn_ok_refl TxnBegin_inv TxnBegin_lease)

lemma Put_later:
  assumes "st_ok st" "st_Put i key val l st = Some (st', r)"
  shows "st_ok st' \<and> st_later st st' \<and> st_compactMainRev st' = st_compactMainRev st"
proof -
  from assms(2) obtain st1 where s: "st_put key val l (st_TxnBegin i st) = Some st1" "st' = st_end i st1"
    by (auto simp: Put_txn [OF assms(1)])
  from txn_end_later [OF assms(1) txn_ok_put [OF begin_txn_ok [OF assms(1)] s(1)]] s(2) show ?thesis by auto
qed

lemma DeleteRange_later:
  assumes "st_ok st" "st_DeleteRange i key end st = Some (st', n, r)"
  shows "st_ok st' \<and> st_later st st' \<and> st_compactMainRev st' = st_compactMainRev st"
proof -
  from assms(2) obtain st1 where s: "st_deleteRange key end (st_TxnBegin i st) = Some (st1, n)" "st' = st_end i st1"
    by (auto simp: st_DeleteRange_def bind_eq_Some_conv Let_def)
  from txn_end_later [OF assms(1) txn_ok_delete [OF begin_txn_ok [OF assms(1)] s(1), THEN conjunct1]] s(2) show ?thesis by auto
qed

lemma Range_later:
  assumes "st_ok st" "st_Range i key end limit rangeRev st = Some (st', res)"
  shows "st_ok st' \<and> st_later st st' \<and> st_at st' = st_at st \<and> st_Rev st' = st_Rev st"
proof -
  have "st' = st_end i (st_TxnBegin i st)" using assms(2) by (auto simp: st_Range_def bind_eq_Some_conv Let_def)
  with txn_end_later [OF assms(1) begin_txn_ok [OF assms(1)]] show ?thesis by auto
qed

lemma Compact_later:
  assumes "st_ok st" "st_Compact c st = Some (Inr st')"
  shows "st_ok st' \<and> st_later st st' \<and> st_at st' = st_at st \<and> st_keys st' = st_keys st \<and> st_Rev st' = st_Rev st \<and>
    st_compactMainRev st' = c \<and> st_compactMainRev st < c \<and> c \<le> st_Rev st"
proof -
  let ?f = "\<lambda>st. st\<lparr>st_currentRev := Revision (rmain (st_currentRev st)) 0\<rparr>"
  have c: "st_compactMainRev st < c" "c \<le> rmain (st_currentRev st)" using assms(2) by (auto simp: st_Compact_def split: if_splits)
  have f: "st_Compact c (?f st) = Some (Inr (?f st'))" using assms(2) c by (auto simp: st_Compact_def bind_eq_Some_conv Let_def)
  have "st_inv (?f st)" using assms(1) by (simp add: st_ok_def st_idle_def)
  from Compact_ok [OF this, of c] c f have
    k: "st_inv (?f st')" "st_key st' = st_key st" "st_le st' = st_le st" "st_compactMainRev st' = c" by auto
  have m: "st_currentRev st' = st_currentRev st" using assms(2) c by (auto simp: st_Compact_def bind_eq_Some_conv Let_def)
  have at: "st_at st' = st_at st" "st_keys st' = st_keys st" using k by (simp_all add: st_at_def st_keys_def fun_eq_iff)
  then have "lease_inv st'" using assms(1) m by (simp add: st_ok_def lease_inv_def)
  then show ?thesis using k at m c by (auto simp: st_ok_def st_idle_def st_later_def st_Rev_def)
qed

lemma batch_sel [simp]:
  "st_currentRev (st_compactBatch st) = st_currentRev st" "st_compactMainRev (st_compactBatch st) = st_compactMainRev st"
  "st_le (st_compactBatch st) = st_le st" "st_kvindex (st_compactBatch st) = st_kvindex st" "st_txnID (st_compactBatch st) = st_txnID st"
  by (auto simp: st_compactBatch_def Let_def split: list.split)

lemma batch_cur: "st_compactBatch (st\<lparr>st_currentRev := r\<rparr>) = (st_compactBatch st)\<lparr>st_currentRev := r\<rparr>"
  by (auto simp: st_compactBatch_def Let_def split: list.split)

lemma Batch_later:
  assumes "st_ok st"
  shows "st_ok (st_compactBatch st) \<and> st_later st (st_compactBatch st) \<and> st_keys (st_compactBatch st) = st_keys st"
proof -
  let ?r = "Revision (rmain (st_currentRev st)) 0"
  have i: "st_inv (st\<lparr>st_currentRev := ?r\<rparr>)" using assms by (simp add: st_ok_def st_idle_def)
  from batch_ok [OF i] have b: "st_inv ((st_compactBatch st)\<lparr>st_currentRev := ?r\<rparr>)"
    and at: "st_compactMainRev st \<le> r \<Longrightarrow> st_at (st_compactBatch st) r k = st_at st r k" for r k
    by (auto simp: batch_cur st_at_def)
  have "st_now (st_compactBatch st) = st_now st" using at i by (auto simp: st_inv_def fun_eq_iff)
  moreover have K: "st_keys (st_compactBatch st) = st_keys st" by (simp add: st_keys_def fun_eq_iff)
  ultimately have "lease_inv (st_compactBatch st)" using assms by (simp add: st_ok_def lease_inv_def)
  then show ?thesis using b at K by (auto simp: st_ok_def st_idle_def st_later_def st_Rev_def)
qed

text \<open>The lessor alone.\<close>

lemma le_later:
  assumes "st_ok st" "lease_ok (st_keys (st\<lparr>st_le := le\<rparr>)) (st_now st)"
  shows "st_ok (st\<lparr>st_le := le\<rparr>) \<and> st_later st (st\<lparr>st_le := le\<rparr>)"
proof -
  have "st_idle (st\<lparr>st_le := le\<rparr>) = st_idle st" by (simp add: st_idle_def st_inv_def st_next_def)
  then show ?thesis using assms by (simp add: st_ok_def lease_inv_def st_later_def st_Rev_def)
qed

lemma Grant_keys:
  assumes "st_le st = Some le" "le_Grant now i ttl le = Inr (l, le')"
  shows "st_keys (st\<lparr>st_le := Some le'\<rparr>) = (st_keys st)(i := Some {})" "i \<noteq> NoLease" "st_keys st i = None"
  using assms by (auto simp: le_Grant_def le_persist_def st_keys_def Let_def update_conv' fun_eq_iff split: if_splits)

lemma Renew_keys:
  assumes "st_le st = Some le" "le_Renew now i le = Inr (ttl, le')"
  shows "st_keys (st\<lparr>st_le := Some le'\<rparr>) = st_keys st"
  using assms by (auto simp: le_Renew_def st_keys_def Let_def update_conv' fun_eq_iff split: if_splits option.splits)

lemma map_keys:
  assumes "st_le st = Some le" "le_leaseMap le' = map (\<lambda>(i, l). (i, f l)) (le_leaseMap le)" "\<And>l. ls_itemSet (f l) = ls_itemSet l"
  shows "st_keys (st\<lparr>st_le := Some le'\<rparr>) = st_keys st"
  using assms by (auto simp: st_keys_def fun_eq_iff map_of_map_snd option.map_comp comp_def)

lemma lease_ok_grant: "lease_ok K now \<Longrightarrow> K i = None \<Longrightarrow> i \<noteq> NoLease \<Longrightarrow> lease_ok (K(i := Some {})) now"
  by (auto simp: lease_ok_def)

text \<open>Revoking: the keys of the lease are deleted one after the other.\<close>

lemma DeleteRange_one:
  assumes "st_ok st"
  shows "\<exists>st' n r. st_DeleteRange i key None st = Some (st', n, r) \<and> st_ok st' \<and> st_later st st' \<and> st_compactMainRev st' = st_compactMainRev st \<and>
    st_now st' = (st_now st)(key := None) \<and> (\<forall>l. st_keys st' l = None \<longleftrightarrow> st_keys st l = None)"
proof -
  let ?b = "st_TxnBegin i st"
  have b: "st_inv ?b" "lease_inv ?b" using begin_txn_ok [OF assms, of i] by (auto simp: txn_ok_def)
  from deleteRange_ok [OF b, of key None] obtain st1 n where
    s: "st_deleteRange key None ?b = Some (st1, n)" "st_same ?b st1" "st_inv st1"
    and at: "\<And>r k. st_at st1 r k = (if k = key \<and> rmain (st_currentRev st) < r then None else st_at st r k)"
    by (auto simp: range_of_def)
  from txn_end_later [OF assms txn_ok_delete [OF begin_txn_ok [OF assms] s(1), THEN conjunct1]] obtain st' where
    e: "st_end i st1 = st'" "st_ok st'" "st_later st st'" "st_at st' = st_at st1" "st_keys st' = st_keys st1"
    "st_Rev st' = st_Rev st + (if rsub (st_currentRev st1) \<noteq> 0 then 1 else 0)" "st_compactMainRev st' = st_compactMainRev st" by blast
  have "st_now st' = st_now st1"
  proof -
    have m: "rmain (st_currentRev st1) = rmain (st_currentRev st)" using s(2) by (simp add: st_same_def)
    then have "rmain (st_currentRev st1) < rmain (st_currentRev st') + 1" using e(6) by (auto simp: st_Rev_def split: if_splits)
    from at_future [OF s(3) this] show ?thesis by (simp add: e(4))
  qed
  also have "\<dots> = (st_now st)(key := None)" using at s(2) by (auto simp: st_same_def fun_eq_iff)
  finally have "st_now st' = (st_now st)(key := None)" .
  moreover have "st_DeleteRange i key None st = Some (st', n, st_Rev st')" using s(1) e(1) by (simp add: st_DeleteRange_def st_Rev_def Let_def)
  moreover have "st_keys st' l = None \<longleftrightarrow> st_keys st l = None" for l using s(2) e(5) by (simp add: st_same_def)
  ultimately show ?thesis using e by blast
qed

lemma delete_items:
  assumes "st_ok st"
  shows "\<exists>st'. ofold (\<lambda>k st. map_option fst (st_DeleteRange i k None st)) items st = Some st' \<and> st_ok st' \<and> st_later st st' \<and>
    st_compactMainRev st' = st_compactMainRev st \<and>
    st_now st' = (\<lambda>k. if k \<in> set items then None else st_now st k) \<and> (\<forall>l. st_keys st' l = None \<longleftrightarrow> st_keys st l = None)"
  using assms
proof (induction items arbitrary: st)
  case Nil
  then show ?case by (simp add: st_later_refl)
next
  case (Cons k items)
  from DeleteRange_one [OF Cons.prems, of i k] obtain st1 n r where
    s: "st_DeleteRange i k None st = Some (st1, n, r)" "st_ok st1" "st_later st st1" "st_compactMainRev st1 = st_compactMainRev st"
    "st_now st1 = (st_now st)(k := None)" "\<forall>l. st_keys st1 l = None \<longleftrightarrow> st_keys st l = None" by blast
  from Cons.IH [OF s(2)] obtain st' where
    t: "ofold (\<lambda>k st. map_option fst (st_DeleteRange i k None st)) items st1 = Some st'" "st_ok st'" "st_later st1 st'"
    "st_compactMainRev st' = st_compactMainRev st1" "st_now st' = (\<lambda>k. if k \<in> set items then None else st_now st1 k)"
    "\<forall>l. st_keys st' l = None \<longleftrightarrow> st_keys st1 l = None" by blast
  have "st_now st' = (\<lambda>k'. if k' \<in> set (k # items) then None else st_now st k')" using s(5) t(5) by (auto simp: fun_eq_iff)
  then show ?case using s t st_later_trans [OF s(3) t(3)] by auto
qed

lemma Revoke_ok:
  assumes "st_ok st" "st_keys st l = Some ks"
  shows "\<exists>st'. st_Revoke i l st = Some (Inr st') \<and> st_ok st' \<and> st_later st st' \<and> st_compactMainRev st' = st_compactMainRev st \<and>
    st_now st' = (\<lambda>k. if lease_of (st_now st k) = l then None else st_now st k) \<and> st_keys st' l = None"
proof -
  from assms(2) obtain le x where le: "st_le st = Some le" "map_of (le_leaseMap le) l = Some x" "ks = set (ls_itemSet x)"
    by (auto simp: st_keys_def split: option.splits)
  have ks: "set (ls_itemSet x) = {k. lease_of (st_now st k) = l}" "l \<noteq> NoLease"
    using assms le(3) by (auto simp: st_ok_def lease_inv_def lease_ok_def)
  from delete_items [OF assms(1), of i "ls_itemSet x"] obtain st1 where
    s: "ofold (\<lambda>k st. map_option fst (st_DeleteRange i k None st)) (ls_itemSet x) st = Some st1" "st_ok st1" "st_later st st1"
    "st_compactMainRev st1 = st_compactMainRev st" "st_now st1 = (\<lambda>k. if k \<in> set (ls_itemSet x) then None else st_now st k)"
    "\<forall>l. st_keys st1 l = None \<longleftrightarrow> st_keys st l = None" by blast
  have "st_keys st1 l \<noteq> None" using s(6) assms(2) by simp
  then obtain le1 where le1: "st_le st1 = Some le1" by (auto simp: st_keys_def split: option.splits)
  let ?s = "st1\<lparr>st_le := Some (le_remove l le1)\<rparr>"
  have K: "st_keys ?s = (st_keys st1)(l := None)" using le1 by (auto simp: st_keys_def le_remove_def delete_conv' fun_eq_iff)
  have "lease_of (st_now st1 k) \<noteq> l" for k using ks by (auto simp: s(5) lease_of_def)
  then have "lease_ok (st_keys ?s) (st_now st1)" using s(2) unfolding K by (auto simp: st_ok_def lease_inv_def lease_ok_def)
  from le_later [OF s(2) this] have "st_ok ?s" "st_later st1 ?s" by auto
  moreover have "st_Revoke i l st = Some (Inr ?s)" using le s(1) le1 by (simp add: st_Revoke_def le_items_def)
  moreover have "st_now ?s = (\<lambda>k. if lease_of (st_now st k) = l then None else st_now st k)" using s(5) ks(1) by auto
  ultimately show ?thesis using st_later_trans [OF s(3)] K s(4) by auto
qed

lemma step_later: "st_step st st' \<Longrightarrow> st_ok st \<Longrightarrow> st_ok st' \<and> st_later st st'"
proof (induction rule: st_step.induct)
  case (step_Put i key val l st st' r)
  then show ?case using Put_later by blast
next
  case (step_DeleteRange i key e st st' n r)
  then show ?case using DeleteRange_later by blast
next
  case (step_Range i key e limit rangeRev st st' res)
  then show ?case using Range_later by blast
next
  case (step_Txn i ops st st1 st')
  from txn_end_later [OF step_Txn(3) txn_ok_all [OF begin_txn_ok [OF step_Txn(3)] step_Txn(1)]] step_Txn(2)
  show ?case by (auto simp: st_TxnEnd_def)
next
  case (step_Compact c st st')
  then show ?case using Compact_later by blast
next
  case (step_Batch st)
  then show ?case using Batch_later by blast
next
  case (step_Grant st le now i ttl l le')
  then show ?case using Grant_keys [OF step_Grant(1,2)]
    by (intro le_later) (auto simp: st_ok_def lease_inv_def intro: lease_ok_grant)
next
  case (step_Renew st le now i ttl le')
  then show ?case using Renew_keys [OF step_Renew(1,2)] by (intro le_later) (auto simp: st_ok_def lease_inv_def)
next
  case (step_Promote st le now ext)
  then show ?case using map_keys [OF step_Promote(1), of "le_Promote now ext le" "ls_refresh now ext"]
    by (intro le_later) (auto simp: st_ok_def lease_inv_def le_Promote_def)
next
  case (step_Demote st le)
  then show ?case using map_keys [OF step_Demote(1), of "le_Demote le" ls_forever]
    by (intro le_later) (auto simp: st_ok_def lease_inv_def le_Demote_def)
next
  case (step_Revoke i l st st')
  from step_Revoke(1) obtain ks where "st_keys st l = Some ks"
    by (auto simp: st_Revoke_def bind_eq_Some_conv le_items_def st_keys_def split: option.splits sum.splits)
  from Revoke_ok [OF step_Revoke(2) this, of i] step_Revoke(1) show ?case by auto
qed

lemma run_later: "st_step\<^sup>*\<^sup>* st st' \<Longrightarrow> st_ok st \<Longrightarrow> st_ok st' \<and> st_later st st'"
proof (induction rule: rtranclp_induct)
  case base
  then show ?case by (simp add: st_later_refl)
next
  case (step st1 st2)
  then show ?case using step_later st_later_trans by blast
qed

text \<open>A new store on an empty backend.\<close>

definition empty_store :: "lessor option \<Rightarrow> store" where
  "empty_store le = \<lparr>st_key = [], st_scheduled = None, st_finished = None, st_kvindex = [], st_le = le,
     st_currentRev = Revision 1 0, st_compactMainRev = - 1, st_txnID = 0, st_changes = [], st_jobs = []\<rparr>"

lemma NewStore_empty: "NewStore ([], None, None) le = Some (empty_store le, None)"
  by (simp add: NewStore_def st_restore_def bk_range_def empty_store_def)

lemma empty_ok:
  assumes "le = None \<or> le = Some (newLessor [])"
  shows "st_ok (empty_store le)"
proof -
  have h: "hist [] k = []" for k by (simp add: hist_def)
  have "st_inv (empty_store le)"
    by (simp add: empty_store_def st_inv_def bucket_inv_def bk_ok_def h ti_inv_def bt_ok_def ti_below_def index_inv_def ti_events_def
        nolead_def ev_compact_def)
  moreover have "lease_inv (empty_store le)"
    using assms by (auto simp: lease_inv_def lease_ok_def st_keys_def st_at_def h ev_at_def lease_of_def empty_store_def
        newLessor_def le_initAndRecover_def)
  ultimately show ?thesis by (simp add: st_ok_def st_idle_def empty_store_def)
qed

text \<open>The states that a member can be in without a restart.\<close>

definition st_reach :: "store \<Rightarrow> bool" where
  "st_reach st \<longleftrightarrow> (\<exists>le. (le = None \<or> le = Some (newLessor [])) \<and> st_step\<^sup>*\<^sup>* (empty_store le) st)"

lemma reach_ok: "st_reach st \<Longrightarrow> st_ok st"
  using run_later empty_ok unfolding st_reach_def by blast

end
