(* ===== verification/Mvcc_Props.thy ===== *)
theory Mvcc_Props
  imports Mvcc_Store_Run
begin

text \<open>
  The properties of the multi-version store: what reads answer, what changes do, that the past is
  not changed by anything but compaction, and where the code falls short of that.
\<close>

section \<open>Revisions as bytes\<close>

text \<open>C40. The byte strings under which changes are stored represent the revisions: comparing two of
  them as bytes compares the revisions, with the tombstone of a revision right after it; the revision and
  the mark are read back; and the end of a compaction scan, the eight bytes of the next main
  revision, separates exactly the changes up to the compacted revision.\<close>

theorem revision_bytes:
  assumes "rv_ok a" "rv_ok b" "0 \<le> c" "c < 9223372036854775807"
  shows "\<exists>x y. rk_bytes (a, m) = Some x \<and> rk_bytes (b, n) = Some y \<and>
    (x < y \<longleftrightarrow> (a, m) < (b, n)) \<and> (x = y \<longleftrightarrow> (a, m) = (b, n)) \<and>
    bytesToRev x = Some a \<and> isTombstone x = m \<and> (x < put_int64 (c + 1) \<longleftrightarrow> rmain a \<le> c)"
proof -
  define x where "x = revToBytes a @ (if m then ''t'' else [])"
  define y where "y = revToBytes b @ (if n then ''t'' else [])"
  have xy: "rk_bytes (a, m) = Some x" "rk_bytes (b, n) = Some y" by (simp_all add: rk_bytes_def appendMarkTombstone_def x_def y_def)
  have "x < y \<longleftrightarrow> (a, m) < (b, n)"
    unfolding x_def y_def using assms(1,2)
    by (subst bytes_less_append) (auto simp: revToBytes_less revToBytes_inj less_prod_def)
  moreover have "x = y \<longleftrightarrow> (a, m) = (b, n)" unfolding x_def y_def using assms(1,2) by (auto simp: revToBytes_inj)
  moreover have "bytesToRev x = Some a" unfolding x_def by (rule bytesToRev_revToBytes [OF assms(1)])
  moreover have "isTombstone x = m" by (simp add: x_def isTombstone_def nth_append)
  moreover have "x < put_int64 (c + 1) \<longleftrightarrow> rmain a \<le> c"
  proof -
    let ?t = "''_'' @ put_int64 (rsub a) @ (if m then ''t'' else [])"
    have "x < put_int64 (c + 1) \<longleftrightarrow> put_int64 (rmain a) @ ?t < put_int64 (c + 1) @ []" by (simp add: x_def revToBytes_def)
    also have "\<dots> \<longleftrightarrow> put_int64 (rmain a) < put_int64 (c + 1)" by (subst bytes_less_append) auto
    also have "\<dots> \<longleftrightarrow> rmain a < c + 1" using assms by (intro put_int64_less) (auto simp: rv_ok_def)
    finally show ?thesis by simp
  qed
  ultimately show ?thesis using xy by blast
qed

theorem revision_bytes_witness:
  "\<exists>x y. rk_bytes (Revision 255 7, True) = Some x \<and> rk_bytes (Revision 256 0, False) = Some y \<and> x < y \<and> isTombstone x"
  using revision_bytes [of "Revision 255 7" "Revision 256 0" 3 True False] by (auto simp: rv_ok_def less_prod_def less_revision_def)

section \<open>Reading\<close>

lemma view_unique:
  assumes "st_view st key end r xs" "st_view st' key end r ys" "\<And>k. st_at st' r k = st_at st r k"
  shows "xs = ys"
proof -
  have s: "sorted_wrt (<) (map kv_Key xs)" "sorted_wrt (<) (map kv_Key ys)" "set xs = set ys"
    using assms by (auto simp: st_view_def)
  then have "sorted (map kv_Key xs)" "distinct (map kv_Key xs)" "sorted (map kv_Key ys)" "distinct (map kv_Key ys)"
    by (simp_all add: strict_sorted_iff)
  moreover from this s(3) have "inj_on kv_Key (set xs \<union> set ys)" by (simp add: distinct_map)
  ultimately show ?thesis using s(3) by (intro map_sorted_distinct_set_unique [of kv_Key]) auto
qed

lemma reach_idle: "st_reach st \<Longrightarrow> st_idle st"
  using reach_ok by (simp add: st_ok_def)

lemma Range_ok:
  assumes "st_idle st" "r = (if rangeRev \<le> 0 then st_Rev st else rangeRev)" "st_compactMainRev st < r" "r \<le> st_Rev st"
  shows "\<exists>st' kvs. st_Range i key end limit rangeRev st = Some (st', lim limit kvs, st_Rev st, None) \<and> st_view st key end r kvs"
proof -
  let ?b = "st_TxnBegin i st"
  have inv: "st_inv ?b" using assms(1) by (rule TxnBegin_inv)
  have "rangeRev \<le> st_Rev st" using assms(1,2,4) by (auto simp: st_Rev_def st_idle_def st_inv_def split: if_splits)
  from rangeKeys_view [OF inv, of "st_Rev st" rangeRev r key "end" limit] this assms(2,3) obtain kvs where
    "st_rangeKeys key end limit rangeRev ?b = Some (lim limit kvs, st_Rev st, None)" "st_view ?b key end r kvs"
    by (auto simp: st_Rev_def)
  then show ?thesis by (auto simp: st_Range_def Let_def st_view_def)
qed

text \<open>C2. A read at a revision that is not compacted succeeds in every state that the store can reach,
  with background compactions half done as well: it returns, in the order of the keys and cut
  at the limit, exactly the pairs of the range that exist at the revision.\<close>

theorem store_reads:
  assumes "st_reach st" "r = (if rangeRev \<le> 0 then st_Rev st else rangeRev)" "st_compactMainRev st < r" "r \<le> st_Rev st"
  shows "\<exists>st' kvs. st_Range i key end limit rangeRev st = Some (st', lim limit kvs, st_Rev st, None) \<and>
    sorted_wrt (<) (map kv_Key kvs) \<and>
    set kvs = {kv. range_of key end (kv_Key kv) \<and> st_at st r (kv_Key kv) = Some kv}"
  using Range_ok [OF reach_idle [OF assms(1)] assms(2-4)] by (simp add: st_view_def)

text \<open>Some states for the examples: two puts of a key, and its deletion.\<close>

definition run1 :: "store option" where
  "run1 = do {
     (st, _) \<leftarrow> st_Put 11 ''a'' ''x'' NoLease (empty_store (Some (newLessor [])));
     (st, _) \<leftarrow> st_Put 12 ''a'' ''y'' NoLease st;
     Some st
   }"

definition store1 :: store where
  "store1 = the run1"

lemma run1_Some: "run1 = Some store1"
proof -
  have "run1 \<noteq> None" by code_simp
  then show ?thesis by (simp add: store1_def)
qed

lemma reach_step: "st_reach st \<Longrightarrow> st_step st st' \<Longrightarrow> st_reach st'"
  unfolding st_reach_def by (auto intro: rtranclp.rtrancl_into_rtrancl)

lemma reach_empty: "st_reach (empty_store (Some (newLessor [])))"
  unfolding st_reach_def by blast

lemma reach1: "st_reach store1"
proof -
  from run1_Some obtain st0 st1 r0 r1 where
    "st_Put 11 ''a'' ''x'' NoLease (empty_store (Some (newLessor []))) = Some (st0, r0)" "st_Put 12 ''a'' ''y'' NoLease st0 = Some (st1, r1)" "store1 = st1"
    by (auto simp: run1_def bind_eq_Some_conv)
  then show ?thesis using reach_step reach_empty step_Put by metis
qed

lemma store1_sel: "st_Rev store1 = 3" "st_compactMainRev store1 = - 1"
  by code_simp+

theorem store_reads_witness:
  "\<exists>st' kvs. st_Range 1 ''a'' None 0 2 store1 = Some (st', lim 0 kvs, 3, None) \<and>
     set kvs = {kv. range_of ''a'' None (kv_Key kv) \<and> st_at store1 2 (kv_Key kv) = Some kv}"
  using store_reads [OF reach1, of 2 2 1 "''a''" None 0] by (auto simp: store1_sel)

text \<open>C7. The past does not change: whatever happens in between, puts, deletions, transactions, revoked
  leases, compactions and any number of their batches, a read at a revision that was current or
  older in the first state and is still not compacted in the second returns the same pairs.\<close>

theorem reads_stable:
  assumes "st_reach st" "st_step\<^sup>*\<^sup>* st st'" "0 < r" "r \<le> st_Rev st" "st_compactMainRev st' < r"
  shows "\<exists>s s' kvs. st_Range i key end limit r st = Some (s, kvs, st_Rev st, None) \<and>
    st_Range j key end limit r st' = Some (s', kvs, st_Rev st', None)"
proof -
  have ok: "st_idle st" "st_idle st'" and l: "st_later st st'"
    using reach_ok [OF assms(1)] run_later [OF assms(2)] by (auto simp: st_ok_def)
  have "st_compactMainRev st < r" "r \<le> st_Rev st'" and at: "\<And>k. st_at st' r k = st_at st r k"
    using l assms(4,5) by (auto simp: st_later_def)
  with Range_ok [OF ok(1), of r r i key "end" limit] Range_ok [OF ok(2), of r r j key "end" limit] assms(3-5) obtain s s' xs ys where
    "st_Range i key end limit r st = Some (s, lim limit xs, st_Rev st, None)" "st_view st key end r xs"
    "st_Range j key end limit r st' = Some (s', lim limit ys, st_Rev st', None)" "st_view st' key end r ys" by auto
  with view_unique [OF _ _ at] show ?thesis by blast
qed

text \<open>Two more steps: the key is deleted and the store compacted between the two puts.\<close>

definition run2 :: "store option" where
  "run2 = do {
     (st, _, _) \<leftarrow> st_DeleteRange 13 ''a'' None store1;
     res \<leftarrow> st_Compact 2 st;
     (case res of Inl _ \<Rightarrow> None | Inr st \<Rightarrow> Some (st_compactBatch st))
   }"

definition store2 :: store where
  "store2 = the run2"

lemma run2_Some: "run2 = Some store2"
proof -
  have "run2 \<noteq> None" by code_simp
  then show ?thesis by (simp add: store2_def)
qed

lemma steps2: "st_step\<^sup>*\<^sup>* store1 store2"
proof -
  from run2_Some obtain st0 n r st1 where
    "st_DeleteRange 13 ''a'' None store1 = Some (st0, n, r)" "st_Compact 2 st0 = Some (Inr st1)" "store2 = st_compactBatch st1"
    by (auto simp: run2_def bind_eq_Some_conv inr_Some)
  then have "st_step store1 st0" "st_step st0 st1" "st_step st1 store2" using step_DeleteRange step_Compact step_Batch by metis+
  then show ?thesis by (meson converse_rtranclp_into_rtranclp rtranclp.rtrancl_refl)
qed

lemma store2_sel: "st_Rev store2 = 4" "st_compactMainRev store2 = 2" "length (st_key store2) = 3"
  by code_simp+

theorem reads_stable_witness:
  "\<exists>s s' kvs. st_Range 1 ''a'' None 0 3 store1 = Some (s, kvs, 3, None) \<and> st_Range 2 ''a'' None 0 3 store2 = Some (s', kvs, 4, None)"
  using reads_stable [OF reach1 steps2, of 3 1 "''a''" None 0 2] by (simp add: store1_sel store2_sel)

section \<open>Changes\<close>

text \<open>C11. A put adds one revision.  From that revision on the key has the new value, its creation
  revision is kept and its version counted up, or it starts at version one when the key did not exist; at
  every earlier revision and for every other key nothing changes.  A put with a lease that
  does not exist panics.\<close>

theorem put_effect:
  assumes "st_reach st"
  shows "if l = NoLease \<or> st_keys st l \<noteq> None
    then \<exists>st' kv. st_Put i key val l st = Some (st', st_Rev st + 1) \<and> st_Rev st' = st_Rev st + 1 \<and>
      (\<forall>r k. st_at st' r k = (if k = key \<and> st_Rev st < r then Some kv else st_at st r k)) \<and>
      kv_Key kv = key \<and> kv_Value kv = val \<and> kv_Lease kv = l \<and> kv_ModRevision kv = st_Rev st + 1 \<and>
      (case st_at st (st_Rev st) key of
         None \<Rightarrow> kv_Version kv = 1 \<and> kv_CreateRevision kv = st_Rev st + 1
       | Some old \<Rightarrow> kv_Version kv = kv_Version old + 1 \<and> kv_CreateRevision kv = kv_CreateRevision old)
    else st_Put i key val l st = None"
proof -
  let ?b = "st_TxnBegin i st"
  have ok: "st_ok st" by (rule reach_ok [OF assms])
  have b: "st_inv ?b" "lease_inv ?b" using begin_txn_ok [OF ok, of i] by (auto simp: txn_ok_def)
  show ?thesis
  proof (cases "l = NoLease \<or> st_keys st l \<noteq> None")
    case True
    then obtain st1 where s: "st_put key val l ?b = Some st1" "rsub (st_currentRev st1) = 1"
      and at: "\<And>r k. st_at st1 r k = (if k = key \<and> st_Rev st < r then Some (put_kv key val l ?b) else st_at st r k)"
      using put_ok [OF b, of l key val] by (auto simp: st_Rev_def)
    from txn_end_later [OF ok txn_ok_put [OF begin_txn_ok [OF ok] s(1)]] s(2) obtain st' where
      e: "st_end i st1 = st'" "st_at st' = st_at st1" "st_Rev st' = st_Rev st + 1" by auto
    have now: "st_now ?b key = st_at st (st_Rev st) key"
      using at_quiet [OF b(1), of key] by (simp add: st_at_def st_Rev_def)
    have "st_Put i key val l st = Some (st', st_Rev st + 1)" using s(1) e by (simp add: Put_txn [OF ok])
    moreover have "kv_Version (put_kv key val l ?b) = (case st_at st (st_Rev st) key of None \<Rightarrow> 1 | Some old \<Rightarrow> kv_Version old + 1)"
      "kv_CreateRevision (put_kv key val l ?b) = (case st_at st (st_Rev st) key of None \<Rightarrow> st_Rev st + 1 | Some old \<Rightarrow> kv_CreateRevision old)"
      unfolding put_kv_def now by (auto simp: st_Rev_def split: option.split)
    moreover have "kv_Key (put_kv key val l ?b) = key" "kv_Value (put_kv key val l ?b) = val" "kv_Lease (put_kv key val l ?b) = l"
      "kv_ModRevision (put_kv key val l ?b) = st_Rev st + 1" by (simp_all add: put_kv_def st_Rev_def)
    ultimately show ?thesis using True e at
      by (auto intro!: exI [of _ st'] exI [of _ "put_kv key val l ?b"] split: option.split)
  next
    case False
    then have "st_put key val l ?b = None" using put_no_lease [OF b, of l key val] by auto
    then show ?thesis using False by (simp add: Put_txn [OF ok])
  qed
qed

theorem put_effect_witness:
  "\<exists>st' kv. st_Put 5 ''b'' ''z'' NoLease store1 = Some (st', 4) \<and> st_at st' 4 ''b'' = Some kv \<and> kv_Value kv = ''z''"
  using put_effect [OF reach1, of 0 5 "''b''" "''z''"] by (auto simp: store1_sel)


definition txn1 :: "txn_op list" where
  "txn1 = [TPut ''b'' ''z'' NoLease, TDeleteRange ''a'' None]"


section \<open>Leases\<close>


definition run3 :: "store option" where
  "run3 = do {
     le \<leftarrow> st_le store1;
     (case le_Grant 0 7 60 le of
        Inl _ \<Rightarrow> None
      | Inr (_, le) \<Rightarrow> map_option fst (st_Put 14 ''b'' ''z'' 7 (store1\<lparr>st_le := Some le\<rparr>)))
   }"

definition store3 :: store where
  "store3 = the run3"

lemma run3_Some: "run3 = Some store3"
proof -
  have "run3 \<noteq> None" by code_simp
  then show ?thesis by (simp add: store3_def)
qed

lemma reach3: "st_reach store3"
proof -
  from run3_Some obtain le l le' r where
    s: "st_le store1 = Some le" "le_Grant 0 7 60 le = Inr (l, le')" "st_Put 14 ''b'' ''z'' 7 (store1\<lparr>st_le := Some le'\<rparr>) = Some (store3, r)"
    by (auto simp: run3_def bind_eq_Some_conv inr_Some)
  then have "st_reach (store1\<lparr>st_le := Some le'\<rparr>)" using reach_step [OF reach1] step_Grant by blast
  then show ?thesis using s(3) reach_step step_Put by blast
qed

lemma store3_keys: "st_keys store3 7 = Some {''b''}"
  by code_simp


section \<open>Compaction\<close>



end
