(* ===== verification/Mvcc_Restore.thy ===== *)
theory Mvcc_Restore
  imports Mvcc_Props
begin

text \<open>
  Restarting: the index and the attachments of leases are rebuilt from the bucket.  Reads survive;
  the current revision, the attachments and the leases of a snapshot do not always.
\<close>

section \<open>Rebuilding the index\<close>

lemma ev_rel_live:
  assumes "list_all2 ev_rel E H"
  shows "ev_live E \<longleftrightarrow> ev_live H" "E = [] \<longleftrightarrow> H = []"
    "E \<noteq> [] \<Longrightarrow> ev_rel (last E) (last H)"
proof -
  have l: "length E = length H" using assms by (rule list_all2_lengthD)
  show e: "E = [] \<longleftrightarrow> H = []" using l by auto
  show r: "E \<noteq> [] \<Longrightarrow> ev_rel (last E) (last H)" using assms l e by (simp add: last_conv_nth list_all2_conv_all_nth)
  show "ev_live E \<longleftrightarrow> ev_live H" using e r by (auto simp: ev_live_def ev_rel_def rel_option_iff split: option.splits)
qed

lemma last_nolead: "nolead H \<noteq> [] \<Longrightarrow> last (nolead H) = last H"
  using nolead_split [of H] by (metis last_appendR)

text \<open>What the loop has built after a first part of the bucket.\<close>

definition restored :: "bucket \<Rightarrow> store \<Rightarrow> bool" where
  "restored p st \<longleftrightarrow> ti_inv (st_kvindex st) \<and> (\<forall>rv. (\<forall>x \<in> set p. fst (fst x) < rv) \<longrightarrow> ti_below rv (st_kvindex st)) \<and>
     (\<forall>k. list_all2 ev_rel (ti_events (st_kvindex st) k) (nolead (hist p k))) \<and>
     st_currentRev st = (if p = [] then Revision 1 0 else fst (fst (last p)))"

lemma restored_index:
  assumes R: "restored p st" and p: "bucket_inv nr (p @ [((rv, m), kv)])"
  shows "if m
    then (case ti_Tombstone (kv_Key kv) rv (st_kvindex st) of
        Some (Inr t) \<Rightarrow> restored (p @ [((rv, m), kv)]) (st\<lparr>st_kvindex := t, st_currentRev := rv\<rparr>)
      | Some (Inl _) \<Rightarrow> restored (p @ [((rv, m), kv)]) (st\<lparr>st_currentRev := rv\<rparr>)
      | None \<Rightarrow> False)
    else \<exists>t. ti_Restore (kv_Key kv) (Revision (kv_CreateRevision kv) 0) rv (kv_Version kv) (st_kvindex st) = Some t \<and>
      restored (p @ [((rv, m), kv)]) (st\<lparr>st_kvindex := t, st_currentRev := rv\<rparr>)"
proof -
  let ?k = "kv_Key kv" and ?p = "p @ [((rv, m), kv)]" and ?x = "(rv, if m then None else Some kv)"
  let ?E = "ti_events (st_kvindex st) ?k" and ?H = "hist p ?k"
  have h: "hist ?p k = hist p k @ (if ?k = k then [?x] else [])" for k by (simp add: hist_append hist_single)
  have below: "\<forall>x \<in> set p. fst (fst x) < rv" using p by (auto simp: bucket_inv_def bk_ok_def sorted_wrt_append)
  have e: "entry_ok nr ((rv, m), kv)" using p by (simp add: bucket_inv_def)
  have pos: "Revision 0 0 < rv" using e by (auto simp: entry_ok_def less_revision_def)
  have ti: "ti_inv (st_kvindex st)" "ti_below rv (st_kvindex st)" using R below by (auto simp: restored_def)
  have rel: "list_all2 ev_rel (ti_events (st_kvindex st) k) (nolead (hist p k))" for k using R by (simp add: restored_def)
  note live = ev_rel_live [OF rel [of ?k]]
  have "successively hstep (hist ?p ?k)" using p by (simp add: bucket_inv_def)
  then have step: "?H = [] \<or> hstep (last ?H) ?x" by (auto simp: h successively_append_iff)
  have nxt: "(\<forall>x \<in> set ?p. fst (fst x) < rv') \<longrightarrow> rv < rv'" for rv' by auto
  have other: "list_all2 ev_rel (ti_events (st_kvindex st) k) (nolead (hist ?p k))" if "k \<noteq> ?k" for k using rel [of k] that by (simp add: h)
  show ?thesis
  proof (cases m)
    case True
    show ?thesis
    proof (cases "ev_live ?E")
      case L: True
      with ti_Tombstone_events [OF ti, of ?k] obtain t where
        t: "ti_Tombstone ?k rv (st_kvindex st) = Some (Inr t)" "ti_inv t" "\<forall>rv'. rv < rv' \<longrightarrow> ti_below rv' t"
        "ti_events t = (ti_events (st_kvindex st))(?k := ?E @ [(rv, None)])" by auto
      have "nolead ?H \<noteq> []" using L live(2) by (auto simp: ev_live_def)
      then have "list_all2 ev_rel (?E @ [(rv, None)]) (nolead (?H @ [?x]))"
        using rel [of ?k] True by (simp add: nolead_snoc list_all2_appendI ev_rel_def)
      then have "list_all2 ev_rel (ti_events t k) (nolead (hist ?p k))" for k using other [of k] by (cases "k = ?k") (simp_all add: t(4) h)
      then have "restored ?p (st\<lparr>st_kvindex := t, st_currentRev := rv\<rparr>)" using t nxt by (auto simp: restored_def)
      then show ?thesis using True t(1) by simp
    next
      case L: False
      then have t: "ti_Tombstone ?k rv (st_kvindex st) = Some (Inl ErrRevisionNotFound)" using ti_Tombstone_events [OF ti, of ?k] by simp
      have "nolead ?H = []"
      proof (rule ccontr)
        assume ne: "nolead ?H \<noteq> []"
        have "\<not> ev_live (nolead ?H)" using L live(1) by blast
        then have "snd (last ?H) = None" using ne last_nolead [OF ne] by (auto simp: ev_live_def)
        moreover have "?H \<noteq> []" using ne by (auto simp: nolead_def)
        ultimately show False using step True by (simp add: hstep_def)
      qed
      then have "nolead (?H @ [?x]) = []" using nolead_split [of ?H] True nolead_tombs [of ?H "[?x]"] by (auto simp: nolead_def)
      then have "list_all2 ev_rel ?E (nolead (hist ?p ?k))" using live(2) \<open>nolead ?H = []\<close> by (simp add: h)
      then have "list_all2 ev_rel (ti_events (st_kvindex st) k) (nolead (hist ?p k))" for k using other [of k] by (cases "k = ?k") simp_all
      then have "restored ?p (st\<lparr>st_currentRev := rv\<rparr>)" using ti nxt by (auto simp: restored_def intro: ti_below_mono)
      then show ?thesis using True t by simp
    qed
  next
    case False
    from ti_Restore_events [OF ti pos, of ?k "Revision (kv_CreateRevision kv) 0" "kv_Version kv"] obtain t where
      t: "ti_Restore ?k (Revision (kv_CreateRevision kv) 0) rv (kv_Version kv) (st_kvindex st) = Some t" "ti_inv t" "\<forall>rv'. rv < rv' \<longrightarrow> ti_below rv' t"
      "ti_events t = (ti_events (st_kvindex st))(?k := ?E @ [(rv, Some (if ?E = [] then (Revision (kv_CreateRevision kv) 0, kv_Version kv) else ev_next rv ?E))])"
      by blast
    let ?e = "(rv, Some (if ?E = [] then (Revision (kv_CreateRevision kv) 0, kv_Version kv) else ev_next rv ?E))"
    have "ev_rel ?e ?x"
    proof (cases "?E = []")
      case ne: False
      then have H: "nolead ?H \<noteq> []" "?H \<noteq> []" using live(2) by (auto simp: nolead_def)
      have "ev_rel (last ?E) (last ?H)" using live(3) [OF ne] last_nolead [OF H(1)] by simp
      moreover have "hstep (last ?H) ?x" using step H(2) by simp
      ultimately show ?thesis using ne False
        by (auto simp: ev_rel_def ev_next_def hstep_def rel_option_iff split: option.splits)
    qed (use False in \<open>simp add: ev_rel_def\<close>)
    then have "list_all2 ev_rel (?E @ [?e]) (nolead ?H @ [?x])" by (intro list_all2_appendI [OF rel]) simp
    moreover have "nolead (hist ?p ?k) = nolead ?H @ [?x]" using nolead_snoc [of ?x ?H] False h [of ?k] by simp
    moreover have "ti_events t ?k = ?E @ [?e]" by (simp add: t(4))
    ultimately have "list_all2 ev_rel (ti_events t ?k) (nolead (hist ?p ?k))" by (simp only:)
    then have "list_all2 ev_rel (ti_events t k) (nolead (hist ?p k))" for k using other [of k] by (cases "k = ?k") (simp_all add: t(4))
    then have "restored ?p (st\<lparr>st_kvindex := t, st_currentRev := rv\<rparr>)" using t nxt by (auto simp: restored_def)
    then show ?thesis using False t(1) by simp
  qed
qed

section \<open>Rebuilding the attachments\<close>

text \<open>The keys that any stored put attaches to a lease.\<close>

definition named :: "bucket \<Rightarrow> LeaseID \<Rightarrow> bytes set" where
  "named b l = (\<lambda>x. kv_Key (snd x)) ` set (filter (\<lambda>x. \<not> snd (fst x) \<and> kv_Lease (snd x) = l) b)"

lemma named_snoc: "named (b @ [((rv, m), kv)]) l = named b l \<union> (if \<not> m \<and> kv_Lease kv = l then {kv_Key kv} else {})"
  by (auto simp: named_def)

lemma restore_entry_ok:
  assumes R: "restored p st" and p: "bucket_inv nr (p @ [((rv, m), kv)])"
    and K: "K NoLease = None" "st_keys st = (\<lambda>l. map_option (\<lambda>ks. ks \<union> named p l) (K l))" "st_le st \<noteq> None"
  shows "\<exists>t le. restore_entry ((rv, m), kv) st = Some (st\<lparr>st_kvindex := t, st_le := le, st_currentRev := rv\<rparr>) \<and>
    restored (p @ [((rv, m), kv)]) (st\<lparr>st_kvindex := t, st_le := le, st_currentRev := rv\<rparr>) \<and> le \<noteq> None \<and>
    st_keys (st\<lparr>st_kvindex := t, st_le := le, st_currentRev := rv\<rparr>) = (\<lambda>l. map_option (\<lambda>ks. ks \<union> named (p @ [((rv, m), kv)]) l) (K l))"
proof -
  note I = restored_index [OF R p]
  have e: "entry_ok nr ((rv, m), kv)" using p by (simp add: bucket_inv_def)
  obtain le0 where le0: "st_le st = Some le0" using K(3) by auto
  have keys: "st_keys (st\<lparr>st_kvindex := t, st_le := st_le st, st_currentRev := rv\<rparr>) = st_keys st" for t
    by (simp add: st_keys_def fun_eq_iff)
  have n: "named (p @ [((rv, m), kv)]) l = named p l" if "m \<or> kv_Lease kv = NoLease" "K l \<noteq> None" for l
    using that K(1) by (auto simp: named_snoc)
  show ?thesis
  proof (cases m)
    case True
    have z: "kv_Lease kv = NoLease" using e True by (simp add: entry_ok_def)
    have k: "st_keys st = (\<lambda>l. map_option (\<lambda>ks. ks \<union> named (p @ [((rv, m), kv)]) l) (K l))" using K(2) n True by (auto simp: fun_eq_iff map_option_case split: option.split)
    obtain res where r: "ti_Tombstone (kv_Key kv) rv (st_kvindex st) = Some res" using I True by (cases "ti_Tombstone (kv_Key kv) rv (st_kvindex st)") auto
    show ?thesis
    proof (cases res)
      case (Inl err)
      then show ?thesis using I True z r k keys [of "st_kvindex st"] le0
        by (intro exI [of _ "st_kvindex st"] exI [of _ "st_le st"]) (simp add: restore_entry_def Let_def restored_def)
    next
      case (Inr t)
      then show ?thesis using I True z r k keys [of t] le0
        by (intro exI [of _ t] exI [of _ "st_le st"]) (simp add: restore_entry_def Let_def restored_def)
    qed
  next
    case False
    with I obtain t where t: "ti_Restore (kv_Key kv) (Revision (kv_CreateRevision kv) 0) rv (kv_Version kv) (st_kvindex st) = Some t"
      "restored (p @ [((rv, m), kv)]) (st\<lparr>st_kvindex := t, st_currentRev := rv\<rparr>)" by auto
    let ?l = "kv_Lease kv"
    show ?thesis
    proof (cases "?l = NoLease \<or> K ?l = None")
      case True
      have k: "st_keys st = (\<lambda>l. map_option (\<lambda>ks. ks \<union> named (p @ [((rv, m), kv)]) l) (K l))"
        using K(1,2) True by (auto simp: fun_eq_iff named_snoc map_option_case split: option.split)
      have "st_keys st ?l = None" using True K(1,2) by auto
      then have "?l \<noteq> NoLease \<Longrightarrow> le_Attach ?l [kv_Key kv] le0 = Inl ErrLeaseNotFound" using le0 by (simp add: st_keys_def le_Attach_def)
      then show ?thesis using False t k keys [of t] le0
        by (intro exI [of _ t] exI [of _ "st_le st"]) (auto simp: restore_entry_def Let_def restored_def)
    next
      case l: False
      then obtain x where x: "map_of (le_leaseMap le0) ?l = Some x" "set (ls_itemSet x) = the (K ?l) \<union> named p ?l"
        using fun_cong [OF K(2), of ?l] le0 by (auto simp: st_keys_def)
      let ?le = "Some (le0\<lparr>le_leaseMap := AList.update ?l (x\<lparr>ls_itemSet := set_add (kv_Key kv) (ls_itemSet x)\<rparr>) (le_leaseMap le0)\<rparr>)"
      let ?s = "st\<lparr>st_kvindex := t, st_le := ?le, st_currentRev := rv\<rparr>"
      have "st_keys ?s l = map_option (\<lambda>ks. ks \<union> named (p @ [((rv, m), kv)]) l) (K l)" for l
        using fun_cong [OF K(2), of l] x False le0 l by (auto simp: st_keys_def update_conv' named_snoc set_add_def)
      moreover have "restore_entry ((rv, m), kv) st = Some ?s" using False t(1) le0 x(1) l by (simp add: restore_entry_def Let_def le_Attach_def)
      moreover have "restored (p @ [((rv, m), kv)]) ?s" using t(2) by (simp add: restored_def)
      ultimately show ?thesis by (intro exI [of _ t] exI [of _ ?le]) auto
    qed
  qed
qed

lemma bucket_inv_prefix: "bucket_inv nr (p @ s) \<Longrightarrow> bucket_inv nr p"
  by (auto simp: bucket_inv_def bk_ok_def sorted_wrt_append hist_append successively_append_iff)

lemma restore_all:
  assumes "bucket_inv nr (p @ s)" "restored p st" "K NoLease = None" "st_keys st = (\<lambda>l. map_option (\<lambda>ks. ks \<union> named p l) (K l))" "st_le st \<noteq> None"
  shows "\<exists>t le rv. ofold restore_entry s st = Some (st\<lparr>st_kvindex := t, st_le := le, st_currentRev := rv\<rparr>) \<and>
    restored (p @ s) (st\<lparr>st_kvindex := t, st_le := le, st_currentRev := rv\<rparr>) \<and> le \<noteq> None \<and>
    st_keys (st\<lparr>st_kvindex := t, st_le := le, st_currentRev := rv\<rparr>) = (\<lambda>l. map_option (\<lambda>ks. ks \<union> named (p @ s) l) (K l))"
  using assms
proof (induction s arbitrary: p st)
  case Nil
  then show ?case by (intro exI [of _ "st_kvindex st"] exI [of _ "st_le st"] exI [of _ "st_currentRev st"]) simp
next
  case (Cons x s)
  obtain rv m kv where x: "x = ((rv, m), kv)" by (metis surj_pair)
  have b: "bucket_inv nr (p @ [x])" using bucket_inv_prefix [of nr "p @ [x]" s] Cons.prems(1) by simp
  from restore_entry_ok [OF Cons.prems(2) b [unfolded x] Cons.prems(3-5)] obtain t le where
    s: "restore_entry x st = Some (st\<lparr>st_kvindex := t, st_le := le, st_currentRev := rv\<rparr>)"
    "restored (p @ [x]) (st\<lparr>st_kvindex := t, st_le := le, st_currentRev := rv\<rparr>)" "le \<noteq> None"
    "st_keys (st\<lparr>st_kvindex := t, st_le := le, st_currentRev := rv\<rparr>) = (\<lambda>l. map_option (\<lambda>ks. ks \<union> named (p @ [x]) l) (K l))"
    unfolding x by blast
  have "bucket_inv nr ((p @ [x]) @ s)" using Cons.prems(1) by simp
  from Cons.IH [OF this s(2) Cons.prems(3) s(4)] s(1,3) show ?case by (auto 0 3)
qed

text \<open>The bucket after a finished compaction is its own compaction.\<close>

lemma done_compact:
  assumes "bk_ok b" "done_ok f b"
  shows "ev_compact f (hist b k) = hist b k"
proof -
  let ?H = "hist b k" and ?L = "filter (\<lambda>e. rmain (fst e) \<le> f) (hist b k)"
  have ok: "ev_ok ?H" by (rule hist_ok [OF assms(1)])
  have e: "snd e \<noteq> None \<and> ev_latest f ?H = Some e" if "e \<in> set ?L" for e using that assms(2) unfolding done_ok_def by auto
  have "distinct ?L" using ok by (auto simp: ev_ok_def strict_sorted_iff distinct_map)
  have "?L = (case ev_at f ?H of None \<Rightarrow> [] | Some (rv, x) \<Rightarrow> [(rv, Some x)])"
  proof (cases ?L)
    case Nil
    then have "ev_latest f ?H = None" by (auto simp: ev_latest_None filter_empty_conv not_le)
    then show ?thesis using Nil by (simp add: ev_at_def)
  next
    case (Cons a as)
    have a: "snd a \<noteq> None" "ev_latest f ?H = Some a" using e [of a] Cons by auto
    have "as = []"
    proof (rule ccontr)
      assume "as \<noteq> []"
      then have "hd as \<in> set ?L" "hd as \<in> set as" using Cons by auto
      then have "hd as = a" using e [of "hd as"] a(2) by simp
      then show False using \<open>hd as \<in> set as\<close> \<open>distinct ?L\<close> Cons by auto
    qed
    then show ?thesis using Cons a by (cases a) (auto simp: ev_at_def)
  qed
  then show ?thesis using after_suffix [OF ok, of f] by (simp add: ev_compact_at)
qed

definition last_main :: "bucket \<Rightarrow> int" where
  "last_main b = (if b = [] then 1 else rmain (fst (fst (last b))))"

definition fin_main :: "int option \<Rightarrow> int" where
  "fin_main f = (case f of None \<Rightarrow> - 1 | Some f \<Rightarrow> f)"

text \<open>Restoring the bucket of one store into another.\<close>

lemma restore_ok:
  assumes "st_idle st" "st_Rev st < max_int64" "st_key st0 = st_key st" "st_kvindex st0 = []" "st_currentRev st0 = Revision 1 0"
    "st_compactMainRev st0 = - 1" "st_le st0 = Some le" "map_of (le_leaseMap le) NoLease = None"
  shows "\<exists>t le' rv p. st_restore st0 = Some (st0\<lparr>st_compactMainRev := (case st_finished st0 of None \<Rightarrow> - 1 | Some f \<Rightarrow> f),
      st_kvindex := t, st_le := le', st_currentRev := rv\<rparr>, p) \<and>
    restored (st_key st) (st0\<lparr>st_compactMainRev := (case st_finished st0 of None \<Rightarrow> - 1 | Some f \<Rightarrow> f), st_kvindex := t, st_le := le', st_currentRev := rv\<rparr>) \<and>
    le' \<noteq> None \<and>
    st_keys (st0\<lparr>st_le := le'\<rparr>) = (\<lambda>l. map_option (\<lambda>x. set (ls_itemSet x) \<union> named (st_key st) l) (map_of (le_leaseMap le) l))"
proof -
  let ?b = "st_key st" and ?nr = "Revision (rmain (st_currentRev st) + 1) 0" and ?K = "\<lambda>l. map_option (set \<circ> ls_itemSet) (map_of (le_leaseMap le) l)"
  have b: "bucket_inv ?nr ?b" using assms(1) by (simp add: st_idle_def st_inv_def st_next_def)
  then have bk: "bk_ok ?b" by (simp add: bucket_inv_def)
  have all: "(Revision 1 0, False) \<le> fst x \<and> fst x < (Revision max_int64 max_int64, False)" if "x \<in> set ?b" for x
  proof -
    have "entry_ok ?nr x" using b that by (simp add: bucket_inv_def)
    then have "2 \<le> rmain (fst (fst x))" "rmain (fst (fst x)) < max_int64"
      using assms(2) by (auto simp: entry_ok_def less_revision_def st_Rev_def)
    then show ?thesis by (auto simp: less_eq_prod_def less_prod_def less_eq_revision_def less_revision_def)
  qed
  then have es: "bk_range (Revision 1 0, False) (Some (Revision max_int64 max_int64, False)) 0 ?b = ?b"
    by (simp add: bk_range_filter [OF bk] filter_id_conv)
  define s1 where "s1 = st0\<lparr>st_compactMainRev := (case st_finished st0 of None \<Rightarrow> - 1 | Some f \<Rightarrow> f)\<rparr>"
  have s1: "(case st_finished st0 of None \<Rightarrow> st0 | Some r \<Rightarrow> st0\<lparr>st_compactMainRev := r\<rparr>) = s1"
    using assms(6) by (simp add: s1_def split: option.split)
  have r: "restored [] s1" using assms(4,5)
    by (simp add: s1_def restored_def ti_inv_def bt_ok_def ti_below_def ti_events_def hist_def nolead_def)
  have k: "st_keys s1 = (\<lambda>l. map_option (\<lambda>ks. ks \<union> named [] l) (?K l))"
    using assms(7) by (auto simp: s1_def st_keys_def named_def fun_eq_iff option.map_comp comp_def)
  have "bucket_inv ?nr ([] @ ?b)" using b by simp
  from restore_all [OF this r _ k] assms(7,8) obtain t le' rv where
    a: "ofold restore_entry ?b s1 = Some (s1\<lparr>st_kvindex := t, st_le := le', st_currentRev := rv\<rparr>)"
    "restored ?b (s1\<lparr>st_kvindex := t, st_le := le', st_currentRev := rv\<rparr>)" "le' \<noteq> None"
    "st_keys (s1\<lparr>st_kvindex := t, st_le := le', st_currentRev := rv\<rparr>) = (\<lambda>l. map_option (\<lambda>ks. ks \<union> named ?b l) (?K l))"
    by (auto simp: s1_def)
  have k1: "st_key s1 = ?b" using assms(3) by (simp add: s1_def)
  have "st_restore st0 = Some (s1\<lparr>st_kvindex := t, st_le := le', st_currentRev := rv\<rparr>,
      case st_scheduled s1 of None \<Rightarrow> None | Some c \<Rightarrow> if c > st_compactMainRev s1 then Some c else None)"
    using a(1) by (simp add: st_restore_def s1 k1 es Let_def split: option.split)
  moreover have "st_keys (st0\<lparr>st_le := le'\<rparr>) = st_keys (s1\<lparr>st_kvindex := t, st_le := le', st_currentRev := rv\<rparr>)"
    by (simp add: st_keys_def s1_def fun_eq_iff)
  ultimately show ?thesis using a by (auto simp: s1_def option.map_comp comp_def)
qed

text \<open>A new store on the backend of another one.\<close>

lemma newLessor_map:
  "map_option ls_itemSet (map_of (le_leaseMap (newLessor lb)) l) = (if 0 \<le> l \<and> l < max_int64 then map_option (\<lambda>_. []) (map_of lb l) else None)"
  unfolding newLessor_def le_initAndRecover_def by (induction lb) auto

lemma NewStore_ok:
  assumes "st_idle st" "st_Rev st < max_int64" "map_of lb NoLease = None"
  shows "\<exists>st' p. NewStore (st_key st, st_scheduled st, st_finished st) (Some (newLessor lb)) = Some (st', p) \<and>
    st_key st' = st_key st \<and> restored (st_key st) st' \<and> st_compactMainRev st' = fin_main (st_finished st) \<and>
    st_finished st' = st_finished st \<and> st_jobs st' = [] \<and>
    st_keys st' = (\<lambda>l. if 0 \<le> l \<and> l < max_int64 then map_option (\<lambda>_. named (st_key st) l) (map_of lb l) else None)"
proof -
  let ?st0 = "\<lparr>st_key = st_key st, st_scheduled = st_scheduled st, st_finished = st_finished st, st_kvindex = [], st_le = Some (newLessor lb),
           st_currentRev = Revision 1 0, st_compactMainRev = - 1, st_txnID = 0, st_changes = [], st_jobs = []\<rparr>"
  have "map_of (le_leaseMap (newLessor lb)) NoLease = None" using newLessor_map [of lb NoLease] assms(3) by auto
  from restore_ok [OF assms(1,2) _ _ _ _ _ this, of ?st0] obtain t le' rv p where
    r: "st_restore ?st0 = Some (?st0\<lparr>st_compactMainRev := fin_main (st_finished st), st_kvindex := t, st_le := le', st_currentRev := rv\<rparr>, p)"
    "restored (st_key st) (?st0\<lparr>st_compactMainRev := fin_main (st_finished st), st_kvindex := t, st_le := le', st_currentRev := rv\<rparr>)"
    "st_keys (?st0\<lparr>st_le := le'\<rparr>) = (\<lambda>l. map_option (\<lambda>x. set (ls_itemSet x) \<union> named (st_key st) l) (map_of (le_leaseMap (newLessor lb)) l))"
    by (auto simp: fin_main_def)
  let ?s = "?st0\<lparr>st_compactMainRev := fin_main (st_finished st), st_kvindex := t, st_le := le', st_currentRev := rv\<rparr>"
  have "st_keys ?s = st_keys (?st0\<lparr>st_le := le'\<rparr>)" by (simp add: st_keys_def fun_eq_iff)
  moreover have "map_option (\<lambda>x. set (ls_itemSet x) \<union> named (st_key st) l) (map_of (le_leaseMap (newLessor lb)) l) =
      (if 0 \<le> l \<and> l < max_int64 then map_option (\<lambda>_. named (st_key st) l) (map_of lb l) else None)" for l
    using newLessor_map [of lb l]
    by (cases "map_of (le_leaseMap (newLessor lb)) l"; cases "map_of lb l") (auto split: if_splits)
  ultimately have "st_keys ?s = (\<lambda>l. if 0 \<le> l \<and> l < max_int64 then map_option (\<lambda>_. named (st_key st) l) (map_of lb l) else None)"
    by (simp only: r(3))
  moreover have "NewStore (st_key st, st_scheduled st, st_finished st) (Some (newLessor lb)) = Some (?s, p)" using r(1) by (simp add: NewStore_def)
  ultimately show ?thesis using r(2) by (intro exI [of _ ?s] exI [of _ p]) simp
qed

end
