(* ===== verification/Mvcc_Restore_Props.thy ===== *)
theory Mvcc_Restore_Props
  imports Mvcc_Restore
begin

text \<open>
  What a restart and a snapshot from the leader keep of a store: the properties on
  \<^verbatim>\<open>restore\<close> and \<^verbatim>\<open>applySnapshot\<close>.
\<close>

section \<open>Reads after a restart\<close>

lemma idle_done: "st_idle st \<Longrightarrow> done_ok (fin_main (st_finished st)) (st_key st) \<and> fin_main (st_finished st) \<le> max (- 1) (st_compactMainRev st)"
proof -
  assume "st_idle st"
  then have i: "st_inv (st\<lparr>st_currentRev := Revision (rmain (st_currentRev st)) 0\<rparr>)" by (simp add: st_idle_def)
  show ?thesis
  proof (cases "st_finished st")
    case None
    have "2 \<le> rmain (fst e)" if "e \<in> set (hist (st_key st) k)" for e k
      using hist_entry [of _ "st_key st" e k] i that by (auto simp: st_inv_def)
    then show ?thesis using None by (force simp: done_ok_def fin_main_def)
  next
    case (Some f)
    then show ?thesis using i by (auto simp: st_inv_def fin_main_def max_def)
  qed
qed

lemma last_main_Rev: "st_idle st \<Longrightarrow> last_main (st_key st) \<le> st_Rev st"
proof -
  assume "st_idle st"
  then have i: "bucket_inv (Revision (rmain (st_currentRev st) + 1) 0) (st_key st)" "1 \<le> rmain (st_currentRev st)"
    by (auto simp: st_idle_def st_inv_def st_next_def)
  show ?thesis
  proof (cases "st_key st = []")
    case False
    then have "entry_ok (Revision (rmain (st_currentRev st) + 1) 0) (last (st_key st))" using i(1) by (simp add: bucket_inv_def)
    then show ?thesis using False by (auto simp: last_main_def st_Rev_def entry_ok_def less_revision_def)
  qed (use i(2) in \<open>simp add: last_main_def st_Rev_def\<close>)
qed

lemma last_main_pos: "bucket_inv nr b \<Longrightarrow> 1 \<le> last_main b"
  by (cases "b = []") (auto simp: last_main_def bucket_inv_def entry_ok_def dest!: bspec [OF _ last_in_set])

lemma restored_Rev: "restored (st_key st) st' \<Longrightarrow> st_Rev st' = last_main (st_key st)"
  by (simp add: restored_def st_Rev_def last_main_def)

lemma restored_idle:
  assumes st: "st_idle st" and r: "restored (st_key st) st'" "st_key st' = st_key st" "st_compactMainRev st' = fin_main (st_finished st)"
    "st_finished st' = st_finished st" "st_jobs st' = []" and f: "fin_main (st_finished st) \<le> last_main (st_key st)"
  shows "st_idle st'"
proof -
  let ?b = "st_key st" and ?nr = "Revision (rmain (st_currentRev st') + 1) 0"
  have i: "bucket_inv (Revision (rmain (st_currentRev st) + 1) 0) ?b" using st by (simp add: st_idle_def st_inv_def st_next_def)
  then have bk: "bk_ok ?b" by (simp add: bucket_inv_def)
  have m: "rmain (st_currentRev st') = last_main ?b" using restored_Rev [OF r(1)] by (simp add: st_Rev_def)
  have le: "fst (fst x) \<le> fst (fst (last ?b)) \<and> ?b \<noteq> []" if x: "x \<in> set ?b" for x
  proof -
    from x obtain p l where p: "?b = p @ [l]" by (cases ?b rule: rev_cases) auto
    then show ?thesis using x bk by (auto simp: p bk_ok_def sorted_wrt_append)
  qed
  then have lt: "fst (fst x) < ?nr" if "x \<in> set ?b" for x
    using that by (fastforce simp: m last_main_def less_revision_def less_eq_revision_def)
  have b: "bucket_inv ?nr ?b" using i lt by (auto simp: bucket_inv_def entry_ok_def)
  have pos: "1 \<le> last_main ?b" by (rule last_main_pos [OF b])
  have d: "done_ok (fin_main (st_finished st)) ?b" using idle_done [OF st] by blast
  have "index_inv (st_compactMainRev st') ?b (st_kvindex st')"
    using r(1) by (simp add: index_inv_def r(3) done_compact [OF bk d] restored_def)
  moreover have "ti_inv (st_kvindex st')" "ti_below ?nr (st_kvindex st')" using r(1) lt by (auto simp: restored_def)
  moreover have "g \<le> fin_main (st_finished st) \<and> done_ok g ?b" if "st_finished st = Some g" for g using that d by (simp add: fin_main_def)
  ultimately show ?thesis using b pos f by (auto simp: st_idle_def st_inv_def st_next_def r m)
qed


lemma store2_backend: "st_finished store2 = Some 2" "last_main (st_key store2) = 4"
  by code_simp+

lemma reach2: "st_reach store2"
  using reach1 steps2 unfolding st_reach_def by (auto intro: rtranclp_trans)


text \<open>C36. The current revision can go back in a restart: it is read off the last change in the backend, and
  a compaction at a revision whose changes are all deletions removes them.  The restarted store then is at a
  revision below the compacted one, and every read of the current state fails as compacted.\<close>

theorem restart_revision:
  assumes "st_reach st" "st_Rev st < max_int64" "map_of lb NoLease = None" "st_finished st = Some f" "last_main (st_key st) < f"
  shows "\<exists>st' p. NewStore (st_key st, st_scheduled st, st_finished st) (Some (newLessor lb)) = Some (st', p) \<and>
    st_Rev st' < st_Rev st \<and> st_Rev st' < st_compactMainRev st' \<and>
    (\<forall>i key end limit. \<exists>s. st_Range i key end limit 0 st' = Some (s, [], 0, Some ErrCompacted))"
proof -
  have idle: "st_idle st" by (rule reach_idle [OF assms(1)])
  from NewStore_ok [OF idle assms(2,3)] obtain st' p where
    n: "NewStore (st_key st, st_scheduled st, st_finished st) (Some (newLessor lb)) = Some (st', p)"
    and s: "restored (st_key st) st'" "st_compactMainRev st' = f" using assms(4) by (auto simp: fin_main_def)
  have rev: "st_Rev st' = last_main (st_key st)" by (rule restored_Rev [OF s(1)])
  have "f \<le> st_Rev st" using idle assms(4) by (auto simp: st_idle_def st_inv_def st_Rev_def)
  moreover have "bucket_inv (Revision (rmain (st_currentRev st) + 1) 0) (st_key st)" using idle by (simp add: st_idle_def st_inv_def st_next_def)
  then have pos: "0 \<le> st_Rev st'" using last_main_pos by (fastforce simp: rev)
  moreover have "\<exists>s. st_Range i key e limit 0 st' = Some (s, [], 0, Some ErrCompacted)" for i key e limit
    using rev pos s(2) assms(5) by (simp add: st_Range_def st_rangeKeys_def st_Rev_def Let_def)
  ultimately show ?thesis using n rev s(2) assms(5) by auto
qed

definition run4 :: "store option" where
  "run4 = do {
     (st, _, _) \<leftarrow> st_DeleteRange 13 ''a'' None store1;
     res \<leftarrow> st_Compact 4 st;
     (case res of Inl _ \<Rightarrow> None | Inr st \<Rightarrow> Some (st_compactBatch st))
   }"

definition store4 :: store where
  "store4 = the run4"

lemma run4_Some: "run4 = Some store4"
proof -
  have "run4 \<noteq> None" by code_simp
  then show ?thesis by (simp add: store4_def)
qed

lemma reach4: "st_reach store4"
proof -
  from run4_Some obtain st0 n r st1 where
    "st_DeleteRange 13 ''a'' None store1 = Some (st0, n, r)" "st_Compact 4 st0 = Some (Inr st1)" "store4 = st_compactBatch st1"
    by (auto simp: run4_def bind_eq_Some_conv inr_Some)
  then have "st_step store1 st0" "st_step st0 st1" "st_step st1 store4" using step_DeleteRange step_Compact step_Batch by metis+
  then show ?thesis using reach_step [OF reach_step [OF reach_step [OF reach1]]] by blast
qed

lemma store4_sel: "st_Rev store4 = 4" "st_finished store4 = Some 4" "st_key store4 = []"
  by code_simp+

theorem restart_revision_witness:
  "\<exists>st' p s. NewStore (st_key store4, st_scheduled store4, st_finished store4) (Some (newLessor [])) = Some (st', p) \<and>
     st_Rev st' < 4 \<and> st_Range 1 ''a'' None 0 0 st' = Some (s, [], 0, Some ErrCompacted)"
  using restart_revision [OF reach4, of "[]" 4] unfolding store4_sel last_main_def by auto

section \<open>Leases after a restart\<close>

text \<open>C37. After a restart a lease owns every key for which the backend still has any put that names the lease,
  also when a later put or deletion of the key has detached it: the detaching is not replayed.
  Leases whose identifier is negative are not recovered at all.\<close>

theorem restart_leases:
  assumes "st_reach st" "st_Rev st < max_int64" "map_of lb NoLease = None"
  shows "\<exists>st' p. NewStore (st_key st, st_scheduled st, st_finished st) (Some (newLessor lb)) = Some (st', p) \<and>
    (\<forall>l. st_keys st' l = (if 0 \<le> l \<and> l < max_int64 then map_option (\<lambda>_. named (st_key st) l) (map_of lb l) else None)) \<and>
    (\<forall>r k. st_at st' r k = st_at st r k)"
proof -
  from NewStore_ok [OF reach_idle [OF assms(1)] assms(2,3)] obtain st' p where
    "NewStore (st_key st, st_scheduled st, st_finished st) (Some (newLessor lb)) = Some (st', p)" "st_key st' = st_key st"
    "st_keys st' = (\<lambda>l. if 0 \<le> l \<and> l < max_int64 then map_option (\<lambda>_. named (st_key st) l) (map_of lb l) else None)" by blast
  then show ?thesis by (auto simp: st_at_def)
qed

text \<open>A key that was attached to a lease and then put without one.\<close>

definition run5 :: "store option" where
  "run5 = map_option fst (st_Put 15 ''b'' ''w'' NoLease store3)"

definition store5 :: store where
  "store5 = the run5"

lemma reach5: "st_reach store5"
proof -
  have "run5 \<noteq> None" by code_simp
  then obtain r where "st_Put 15 ''b'' ''w'' NoLease store3 = Some (store5, r)" by (auto simp: run5_def store5_def)
  then show ?thesis using reach_step [OF reach3] step_Put by blast
qed

lemma store5_sel: "st_Rev store5 < max_int64" "named (st_key store5) 7 = {''b''}" "lease_of (st_at store5 5 ''b'') = NoLease" "st_keys store5 7 = Some {}"
  by code_simp+

theorem restart_leases_witness:
  "\<exists>st' p. NewStore (st_key store5, st_scheduled store5, st_finished store5) (Some (newLessor [(7, 60)])) = Some (st', p) \<and>
     st_keys store5 7 = Some {} \<and> st_keys st' 7 = Some {''b''} \<and> lease_of (st_at st' 5 ''b'') = NoLease"
proof -
  have "map_of [(7, 60)] NoLease = (None :: int option)" by simp
  from restart_leases [OF reach5 store5_sel(1) this] obtain st' p where
    n: "NewStore (st_key store5, st_scheduled store5, st_finished store5) (Some (newLessor [(7, 60)])) = Some (st', p)"
    and k: "\<And>l. st_keys st' l = (if 0 \<le> l \<and> l < max_int64 then map_option (\<lambda>_. named (st_key store5) l) (map_of [(7, 60 :: int)] l) else None)"
    and at: "\<And>r k. st_at st' r k = st_at store5 r k" by blast
  have "st_keys st' 7 = Some {''b''}" unfolding k by (simp add: store5_sel(2))
  moreover have "lease_of (st_at st' 5 ''b'') = NoLease" unfolding at by (rule store5_sel(3))
  ultimately show ?thesis using n store5_sel(4) by blast
qed

section \<open>Leases after a snapshot\<close>

text \<open>C38. A member that catches up with a snapshot of another one ends with leases that own no keys: the pairs
  are restored first, and recovering the lessor afterwards drops their attachments.  Revoking a
  lease on this member therefore deletes nothing.\<close>

theorem snapshot_leases:
  assumes "st_reach st" "st_Rev st < max_int64" "st_le st0 = Some le" "map_of (le_leaseMap le) NoLease = None"
    "map_of lb l = Some ttl" "0 < l" "l < max_int64"
  shows "\<exists>st' p. applySnapshot (st_key st, st_scheduled st, st_finished st) lb st0 = Some (st', p) \<and>
    st_keys st' l = Some {} \<and> st_key st' = st_key st \<and>
    (\<exists>st''. st_Revoke i l st' = Some (Inr st'') \<and> st_key st'' = st_key st \<and> st_keys st'' l = None)"
proof -
  have idle: "st_idle st" by (rule reach_idle [OF assms(1)])
  let ?st0 = "st0\<lparr>st_key := st_key st, st_scheduled := st_scheduled st, st_finished := st_finished st, st_kvindex := [],
           st_currentRev := Revision 1 0, st_compactMainRev := - 1, st_txnID := - 1, st_jobs := []\<rparr>"
  from restore_ok [OF idle assms(2) _ _ _ _ _ assms(4), of ?st0] assms(3) obtain s le' p where
    s: "st_restore ?st0 = Some (s, p)" "st_le s = le'" "le' \<noteq> None" "st_key s = st_key st" by auto
  then obtain le1 where le1: "st_le s = Some le1" by auto
  let ?s = "s\<lparr>st_le := Some (le_Recover lb le1)\<rparr>"
  have a: "applySnapshot (st_key st, st_scheduled st, st_finished st) lb st0 = Some (?s, p)"
    using s(1) le1 by (simp add: applySnapshot_def st_Restore_def)
  have "map_option ls_itemSet (map_of (le_leaseMap (le_Recover lb le1)) l) = Some []"
    using newLessor_map [of lb l] assms(5-7) by (simp add: newLessor_def le_Recover_def)
  then obtain x where x: "map_of (le_leaseMap (le_Recover lb le1)) l = Some x" "ls_itemSet x = []" by auto
  have "st_Revoke i l ?s = Some (Inr (?s\<lparr>st_le := Some (le_remove l (le_Recover lb le1))\<rparr>))"
    using x by (simp add: st_Revoke_def le_items_def)
  moreover have "st_keys (?s\<lparr>st_le := Some (le_remove l (le_Recover lb le1))\<rparr>) l = None"
    by (simp add: st_keys_def le_remove_def delete_conv')
  moreover have "st_keys ?s l = Some {}" using x by (simp add: st_keys_def)
  ultimately show ?thesis using a s(4) by (intro exI [of _ ?s] exI [of _ p]) auto
qed

theorem snapshot_leases_witness:
  "st_keys store3 7 = Some {''b''} \<and>
   (\<exists>st' p. applySnapshot (st_key store3, st_scheduled store3, st_finished store3) [(7, 60)] (empty_store (Some (newLessor []))) = Some (st', p) \<and>
     st_keys st' 7 = Some {})"
proof -
  have "st_Rev store3 < max_int64" by code_simp
  then show ?thesis
    using snapshot_leases [OF reach3, of "empty_store (Some (newLessor []))" "newLessor []" "[(7, 60)]" 7 60, where i = 1] store3_keys
    by (auto simp: empty_store_def newLessor_def le_initAndRecover_def)
qed

end
