(* ===== verification/Mvcc_Watch.thy ===== *)
theory Mvcc_Watch
  imports Mvcc_Store
begin

text \<open>
  Watching the store: \<^verbatim>\<open>storage/watcher_group.go\<close>, \<^verbatim>\<open>storage/watchable_store.go\<close> and
  \<^verbatim>\<open>storage/watcher.go\<close>, with the intervals of \<^verbatim>\<open>pkg/adt/interval_tree.go\<close>.  A pointer to a watcher is
  an address in a heap.  A channel is the list of everything that was sent on it and the number of
  responses that were taken out; it has room for 1024 responses, and the store never waits for
  room.  Go ranges over a map in no particular order, so the order is an argument.  An interval
  tree is the list of its intervals with their values.
\<close>

section \<open>Intervals of keys\<close>

text \<open>The empty string stands for the end of all keys.\<close>

definition affine_Compare :: "bytes \<Rightarrow> bytes \<Rightarrow> int" where
  "affine_Compare s sc =
     (if s = [] then (if sc = [] then 0 else 1)
      else if sc = [] then - 1
      else if s < sc then - 1
      else if s > sc then 1 else 0)"

type_synonym interval = "bytes \<times> bytes"

definition iv_Compare :: "interval \<Rightarrow> interval \<Rightarrow> int" where
  "iv_Compare ivl ivl2 =
     (let ivbCmpBegin = affine_Compare (fst ivl) (fst ivl2);
          ivbCmpEnd = affine_Compare (fst ivl) (snd ivl2);
          iveCmpBegin = affine_Compare (snd ivl) (fst ivl2)
      in if ivbCmpBegin < 0 \<and> iveCmpBegin \<le> 0 then - 1
         else if ivbCmpEnd \<ge> 0 then 1
         else 0)"

definition affinePoint :: "bytes \<Rightarrow> interval" where
  "affinePoint s = (s, s @ [CHR 0x00])"

text \<open>The tree looks only at nodes that overlap the interval, also when it looks for that interval itself.\<close>

definition ivt_Find :: "interval \<Rightarrow> (interval \<times> 'a) list \<Rightarrow> 'a option" where
  "ivt_Find ivl t = (if iv_Compare ivl ivl = 0 then map_of t ivl else None)"

definition ivt_Insert :: "interval \<Rightarrow> 'a \<Rightarrow> (interval \<times> 'a) list \<Rightarrow> (interval \<times> 'a) list" where
  "ivt_Insert ivl v t = (ivl, v) # t"

definition ivt_Delete :: "interval \<Rightarrow> (interval \<times> 'a) list \<Rightarrow> bool \<times> (interval \<times> 'a) list" where
  "ivt_Delete ivl t = (if ivt_Find ivl t = None then (False, t) else (True, AList.delete ivl t))"

definition ivt_Contains :: "interval \<Rightarrow> (interval \<times> 'a) list \<Rightarrow> bool" where
  "ivt_Contains iv t \<longleftrightarrow> list_ex (\<lambda>x. iv_Compare iv (fst x) = 0) t"

definition ivt_Stab :: "interval \<Rightarrow> (interval \<times> 'a) list \<Rightarrow> (interval \<times> 'a) list" where
  "ivt_Stab iv t = filter (\<lambda>x. iv_Compare iv (fst x) = 0) t"

section \<open>Events, watchers and their groups\<close>

datatype event_type = PUT | DELETE | EXPIRE

record event =
  we_Type :: event_type
  we_Kv :: KeyValue

record watcher =
  wa_key :: bytes
  wa_end :: "bytes option"
  wa_cur :: int
  wa_id :: int
  wa_ch :: nat

record eventBatch =
  eb_evs :: "event list"
  eb_revs :: int
  eb_moreRev :: int

abbreviation watchBatchMaxRevs :: int where
  "watchBatchMaxRevs \<equiv> 1000"

definition eb_add :: "event \<Rightarrow> eventBatch \<Rightarrow> eventBatch" where
  "eb_add ev eb =
     (if eb_revs eb > watchBatchMaxRevs then eb
      else if eb_evs eb = [] then eb\<lparr>eb_revs := 1, eb_evs := eb_evs eb @ [ev]\<rparr>
      else let ebRev = kv_ModRevision (we_Kv (last (eb_evs eb)));
               evRev = kv_ModRevision (we_Kv ev)
           in if evRev > ebRev
              then let eb = eb\<lparr>eb_revs := eb_revs eb + 1\<rparr>
                   in if eb_revs eb > watchBatchMaxRevs then eb\<lparr>eb_moreRev := evRev\<rparr>
                      else eb\<lparr>eb_evs := eb_evs eb @ [ev]\<rparr>
              else eb\<lparr>eb_evs := eb_evs eb @ [ev]\<rparr>)"

type_synonym watcherBatch = "(nat \<times> eventBatch) list"

definition wb_add :: "nat \<Rightarrow> event \<Rightarrow> watcherBatch \<Rightarrow> watcherBatch" where
  "wb_add w ev wb =
     (let eb = (case map_of wb w of None \<Rightarrow> \<lparr>eb_evs = [], eb_revs = 0, eb_moreRev = 0\<rparr> | Some eb \<Rightarrow> eb)
      in AList.update w (eb_add ev eb) wb)"

definition wb_contains :: "nat \<Rightarrow> watcherBatch \<Rightarrow> bool" where
  "wb_contains w wb \<longleftrightarrow> map_of wb w \<noteq> None"

text \<open>Sets of watchers; adding one twice and removing a missing one panic.\<close>

definition wset_add :: "nat \<Rightarrow> nat list \<Rightarrow> nat list option" where
  "wset_add wa w = (if wa \<in> set w then None else Some (w @ [wa]))"

definition wset_union :: "nat list \<Rightarrow> nat list \<Rightarrow> nat list option" where
  "wset_union ws w = ofold wset_add ws w"

definition wset_delete :: "nat \<Rightarrow> nat list \<Rightarrow> nat list option" where
  "wset_delete wa w = (if wa \<in> set w then Some (removeAll wa w) else None)"

type_synonym keyWatchers = "(bytes \<times> nat list) list"

definition wsk_add :: "bytes \<Rightarrow> nat \<Rightarrow> keyWatchers \<Rightarrow> keyWatchers option" where
  "wsk_add k wa w = do {
     s \<leftarrow> wset_add wa (case map_of w k of None \<Rightarrow> [] | Some s \<Rightarrow> s);
     Some (AList.update k s w)
   }"

definition wsk_delete :: "bytes \<Rightarrow> nat \<Rightarrow> keyWatchers \<Rightarrow> keyWatchers" where
  "wsk_delete k wa w =
     (case map_of w k of
        None \<Rightarrow> w
      | Some v \<Rightarrow>
          if wa \<in> set v
          then let v = removeAll wa v in if v = [] then AList.delete k w else AList.update k v w
          else w)"

record watcherGroup =
  wg_keyWatchers :: keyWatchers
  wg_ranges :: "(interval \<times> nat list) list"
  wg_watchers :: "nat list"

definition newWatcherGroup :: watcherGroup where
  "newWatcherGroup = \<lparr>wg_keyWatchers = [], wg_ranges = [], wg_watchers = []\<rparr>"

definition wg_add :: "(nat \<Rightarrow> watcher) \<Rightarrow> nat \<Rightarrow> watcherGroup \<Rightarrow> watcherGroup option" where
  "wg_add h wa wg = do {
     ws \<leftarrow> wset_add wa (wg_watchers wg);
     let wg = wg\<lparr>wg_watchers := ws\<rparr>;
     (case wa_end (h wa) of
        None \<Rightarrow> do {
          kw \<leftarrow> wsk_add (wa_key (h wa)) wa (wg_keyWatchers wg);
          Some (wg\<lparr>wg_keyWatchers := kw\<rparr>)
        }
      | Some e \<Rightarrow> do {
          let ivl = (wa_key (h wa), e);
          (case ivt_Find ivl (wg_ranges wg) of
             Some s \<Rightarrow> do {
               s \<leftarrow> wset_add wa s;
               Some (wg\<lparr>wg_ranges := AList.update ivl s (wg_ranges wg)\<rparr>)
             }
           | None \<Rightarrow> do {
               s \<leftarrow> wset_add wa [];
               Some (wg\<lparr>wg_ranges := ivt_Insert ivl s (wg_ranges wg)\<rparr>)
             })
        })
   }"

definition wg_contains :: "bytes \<Rightarrow> watcherGroup \<Rightarrow> bool" where
  "wg_contains key wg \<longleftrightarrow> map_of (wg_keyWatchers wg) key \<noteq> None \<or> ivt_Contains (affinePoint key) (wg_ranges wg)"

definition wg_size :: "watcherGroup \<Rightarrow> nat" where
  "wg_size wg = length (wg_watchers wg)"

definition wg_delete :: "(nat \<Rightarrow> watcher) \<Rightarrow> nat \<Rightarrow> watcherGroup \<Rightarrow> (bool \<times> watcherGroup) option" where
  "wg_delete h wa wg =
     (if wa \<notin> set (wg_watchers wg) then Some (False, wg)
      else do {
        ws \<leftarrow> wset_delete wa (wg_watchers wg);
        let wg = wg\<lparr>wg_watchers := ws\<rparr>;
        (case wa_end (h wa) of
           None \<Rightarrow> Some (True, wg\<lparr>wg_keyWatchers := wsk_delete (wa_key (h wa)) wa (wg_keyWatchers wg)\<rparr>)
         | Some e \<Rightarrow> do {
             let ivl = (wa_key (h wa), e);
             (case ivt_Find ivl (wg_ranges wg) of
                None \<Rightarrow> Some (False, wg)
              | Some s \<Rightarrow> do {
                  let s = removeAll wa s;
                  if s = []
                  then (case ivt_Delete ivl (wg_ranges wg) of
                          (False, _) \<Rightarrow> None
                        | (True, t) \<Rightarrow> Some (True, wg\<lparr>wg_ranges := t\<rparr>))
                  else Some (True, wg\<lparr>wg_ranges := AList.update ivl s (wg_ranges wg)\<rparr>)
                })
           })
      })"

text \<open>The watchers that receive the events of a key.\<close>

definition wg_watcherSetByKey :: "bytes \<Rightarrow> watcherGroup \<Rightarrow> nat list option" where
  "wg_watcherSetByKey key wg =
     (let wkeys = (case map_of (wg_keyWatchers wg) key of None \<Rightarrow> [] | Some s \<Rightarrow> s);
          wranges = ivt_Stab (affinePoint key) (wg_ranges wg)
      in if wranges = [] then Some wkeys
         else if length wranges = 1 \<and> wkeys = [] then Some (snd (hd wranges))
         else do {
           ret \<leftarrow> wset_union wkeys [];
           ofold (\<lambda>item ret. wset_union (snd item) ret) wranges ret
         })"

definition newWatcherBatch :: "(nat \<Rightarrow> watcher) \<Rightarrow> watcherGroup \<Rightarrow> event list \<Rightarrow> watcherBatch option" where
  "newWatcherBatch h wg evs =
     ofold (\<lambda>ev wb. do {
       ws \<leftarrow> wg_watcherSetByKey (kv_Key (we_Kv ev)) wg;
       Some (fold (\<lambda>w wb. if kv_ModRevision (we_Kv ev) \<ge> wa_cur (h w) then wb_add w ev wb else wb) ws wb)
     }) evs []"

section \<open>The watchable store\<close>

record WatchResponse =
  wr_WatchID :: int
  wr_Events :: "event list"
  wr_Revision :: int
  wr_CompactRevision :: int

text \<open>A stream of watches with its channel.\<close>

record watchStream =
  ws_sent :: "WatchResponse list"
  ws_recv :: nat
  ws_nextID :: int
  ws_closed :: bool
  ws_cancels :: "(int \<times> nat) list"
  ws_watchers :: "(int \<times> nat) list"

abbreviation chanBufLen :: nat where
  "chanBufLen \<equiv> 1024"

record watchableStore =
  w_store :: store
  w_unsynced :: watcherGroup
  w_synced :: watcherGroup
  w_heap :: "nat \<Rightarrow> watcher"
  w_next :: nat
  w_streams :: "nat \<Rightarrow> watchStream"
  w_nstreams :: nat

definition newWatchableStore :: "backend \<Rightarrow> lessor option \<Rightarrow> (watchableStore \<times> int option) option" where
  "newWatchableStore b le = do {
     (st, p) \<leftarrow> NewStore b le;
     Some (\<lparr>w_store = st, w_unsynced = newWatcherGroup, w_synced = newWatcherGroup,
            w_heap = (\<lambda>_. \<lparr>wa_key = [], wa_end = None, wa_cur = 0, wa_id = 0, wa_ch = 0\<rparr>), w_next = 0,
            w_streams = (\<lambda>_. \<lparr>ws_sent = [], ws_recv = 0, ws_nextID = 0, ws_closed = False, ws_cancels = [], ws_watchers = []\<rparr>),
            w_nstreams = 0\<rparr>, p)
   }"

text \<open>
  A send in a select with a default branch: it happens only when the channel has room, and panics
  when the channel is closed.
\<close>

definition ch_full :: "watchStream \<Rightarrow> bool" where
  "ch_full s \<longleftrightarrow> length (ws_sent s) \<ge> ws_recv s + chanBufLen"

definition upd_stream :: "nat \<Rightarrow> (watchStream \<Rightarrow> watchStream) \<Rightarrow> watchableStore \<Rightarrow> watchableStore" where
  "upd_stream c f ws = ws\<lparr>w_streams := (w_streams ws)(c := f (w_streams ws c))\<rparr>"

definition w_send :: "nat \<Rightarrow> WatchResponse \<Rightarrow> watchableStore \<Rightarrow> (bool \<times> watchableStore) option" where
  "w_send c r ws =
     (if ws_closed (w_streams ws c) then None
      else if ch_full (w_streams ws c) then Some (False, ws)
      else Some (True, upd_stream c (\<lambda>s. s\<lparr>ws_sent := ws_sent s @ [r]\<rparr>) ws))"

definition w_setCur :: "nat \<Rightarrow> int \<Rightarrow> watchableStore \<Rightarrow> watchableStore" where
  "w_setCur wa r ws = ws\<lparr>w_heap := (w_heap ws)(wa := (w_heap ws wa)\<lparr>wa_cur := r\<rparr>)\<rparr>"

definition w_toSynced :: "nat \<Rightarrow> watchableStore \<Rightarrow> watchableStore option" where
  "w_toSynced wa ws = do {
     g \<leftarrow> wg_add (w_heap ws) wa (w_synced ws);
     (_, u) \<leftarrow> wg_delete (w_heap ws) wa (w_unsynced ws);
     Some (ws\<lparr>w_synced := g, w_unsynced := u\<rparr>)
   }"

definition w_toUnsynced :: "nat \<Rightarrow> watchableStore \<Rightarrow> watchableStore option" where
  "w_toUnsynced wa ws = do {
     u \<leftarrow> wg_add (w_heap ws) wa (w_unsynced ws);
     (_, g) \<leftarrow> wg_delete (w_heap ws) wa (w_synced ws);
     Some (ws\<lparr>w_unsynced := u, w_synced := g\<rparr>)
   }"

text \<open>Notifying the synced watchers of the events of a new revision.\<close>

definition notify_one :: "int \<Rightarrow> watcherBatch \<Rightarrow> nat \<Rightarrow> watchableStore \<Rightarrow> watchableStore option" where
  "notify_one rv wb wa ws = do {
     eb \<leftarrow> map_of wb wa;
     panic_unless (eb_revs eb = 1);
     let w = w_heap ws wa;
     (sent, ws) \<leftarrow> w_send (wa_ch w) \<lparr>wr_WatchID = wa_id w, wr_Events = eb_evs eb, wr_Revision = st_Rev (w_store ws), wr_CompactRevision = 0\<rparr> ws;
     if sent then Some ws else w_toUnsynced wa (w_setCur wa rv ws)
   }"

definition w_notify :: "(nat list \<Rightarrow> nat list) \<Rightarrow> int \<Rightarrow> event list \<Rightarrow> watchableStore \<Rightarrow> watchableStore option" where
  "w_notify ord rv evs ws = do {
     wb \<leftarrow> newWatcherBatch (w_heap ws) (w_synced ws) evs;
     ofold (notify_one rv wb) (ord (map fst wb)) ws
   }"

definition w_Put :: "(nat list \<Rightarrow> nat list) \<Rightarrow> int \<Rightarrow> bytes \<Rightarrow> bytes \<Rightarrow> LeaseID \<Rightarrow> watchableStore \<Rightarrow> (watchableStore \<times> int) option" where
  "w_Put ord i key value leaseID ws = do {
     (st, rv) \<leftarrow> st_Put i key value leaseID (w_store ws);
     let (changes, st) = st_getChanges st;
     panic_unless (length changes = 1);
     ws \<leftarrow> w_notify ord rv [\<lparr>we_Type = PUT, we_Kv = hd changes\<rparr>] (ws\<lparr>w_store := st\<rparr>);
     Some (ws, rv)
   }"

text \<open>The events of a deletion all point to the one variable of the loop, which holds the last change in the end.\<close>

definition w_DeleteRange :: "(nat list \<Rightarrow> nat list) \<Rightarrow> int \<Rightarrow> bytes \<Rightarrow> bytes option \<Rightarrow> watchableStore \<Rightarrow> (watchableStore \<times> int \<times> int) option" where
  "w_DeleteRange ord i key end ws = do {
     (st, n, rv) \<leftarrow> st_DeleteRange i key end (w_store ws);
     let (changes, st) = st_getChanges st;
     panic_unless (int (length changes) = n);
     let ws = ws\<lparr>w_store := st\<rparr>;
     if n = 0 then Some (ws, n, rv)
     else do {
       let evs = map (\<lambda>_. \<lparr>we_Type = DELETE, we_Kv = (last changes)\<lparr>kv_ModRevision := rv\<rparr>\<rparr>) changes;
       ws \<leftarrow> w_notify ord rv evs ws;
       Some (ws, n, rv)
     }
   }"

definition w_TxnBegin :: "int \<Rightarrow> watchableStore \<Rightarrow> watchableStore" where
  "w_TxnBegin i ws = ws\<lparr>w_store := st_TxnBegin i (w_store ws)\<rparr>"

definition change_event :: "int \<Rightarrow> KeyValue \<Rightarrow> event" where
  "change_event rv change =
     (if kv_CreateRevision change = 0
      then \<lparr>we_Type = DELETE, we_Kv = change\<lparr>kv_ModRevision := rv\<rparr>\<rparr>
      else \<lparr>we_Type = PUT, we_Kv = change\<rparr>)"

definition w_TxnEnd :: "(nat list \<Rightarrow> nat list) \<Rightarrow> int \<Rightarrow> watchableStore \<Rightarrow> (store_err + watchableStore) option" where
  "w_TxnEnd ord i ws =
     (case st_TxnEnd i (w_store ws) of
        Inl e \<Rightarrow> Some (Inl e)
      | Inr st \<Rightarrow> do {
          let (changes, st) = st_getChanges st;
          let ws = ws\<lparr>w_store := st\<rparr>;
          if changes = [] then Some (Inr ws)
          else do {
            let rv = st_Rev st;
            ws \<leftarrow> w_notify ord rv (map (change_event rv) changes) ws;
            Some (Inr ws)
          }
        })"

section \<open>Creating, synchronising and cancelling watchers\<close>

definition w_NewWatchStream :: "watchableStore \<Rightarrow> nat \<times> watchableStore" where
  "w_NewWatchStream ws =
     (w_nstreams ws, ws\<lparr>w_nstreams := w_nstreams ws + 1,
        w_streams := (w_streams ws)(w_nstreams ws :=
          \<lparr>ws_sent = [], ws_recv = 0, ws_nextID = 0, ws_closed = False, ws_cancels = [], ws_watchers = []\<rparr>)\<rparr>)"

definition w_watch :: "bytes \<Rightarrow> bytes option \<Rightarrow> int \<Rightarrow> int \<Rightarrow> nat \<Rightarrow> watchableStore \<Rightarrow> (nat \<times> watchableStore) option" where
  "w_watch key end startRev i ch ws = do {
     let wa = w_next ws;
     let cur = rmain (st_currentRev (w_store ws));
     let synced = (startRev > cur \<or> startRev = 0);
     let c = (if synced then (if startRev > cur + 1 then startRev else cur + 1) else startRev);
     let ws = ws\<lparr>w_next := wa + 1,
                 w_heap := (w_heap ws)(wa := \<lparr>wa_key = key, wa_end = end, wa_cur = c, wa_id = i, wa_ch = ch\<rparr>)\<rparr>;
     if synced
     then do {
       g \<leftarrow> wg_add (w_heap ws) wa (w_synced ws);
       Some (wa, ws\<lparr>w_synced := g\<rparr>)
     }
     else do {
       g \<leftarrow> wg_add (w_heap ws) wa (w_unsynced ws);
       Some (wa, ws\<lparr>w_unsynced := g\<rparr>)
     }
   }"

definition w_cancel :: "nat \<Rightarrow> watchableStore \<Rightarrow> watchableStore option" where
  "w_cancel wa ws = do {
     (b, u) \<leftarrow> wg_delete (w_heap ws) wa (w_unsynced ws);
     let ws = ws\<lparr>w_unsynced := u\<rparr>;
     if b then Some ws
     else do {
       (_, g) \<leftarrow> wg_delete (w_heap ws) wa (w_synced ws);
       Some (ws\<lparr>w_synced := g\<rparr>)
     }
   }"

text \<open>
  \<^verbatim>\<open>scanMinRev\<close>: the smallest revision that a watcher still needs.  A watcher that is behind the
  compaction is told so and dropped, when its channel has room.
\<close>

definition scan_one :: "int \<Rightarrow> int \<Rightarrow> nat \<Rightarrow> watchableStore \<times> int \<Rightarrow> (watchableStore \<times> int) option" where
  "scan_one curRev compactRev wa s = do {
     let (ws, minRev) = s;
     let w = w_heap ws wa;
     if wa_cur w > curRev then None
     else if wa_cur w < compactRev
     then do {
       (sent, ws) \<leftarrow> w_send (wa_ch w) \<lparr>wr_WatchID = wa_id w, wr_Events = [], wr_Revision = 0, wr_CompactRevision = compactRev\<rparr> ws;
       if sent
       then do {
         (_, u) \<leftarrow> wg_delete (w_heap ws) wa (w_unsynced ws);
         Some (ws\<lparr>w_unsynced := u\<rparr>, minRev)
       }
       else Some (ws, minRev)
     }
     else Some (ws, if minRev > wa_cur w then wa_cur w else minRev)
   }"

definition scanMinRev :: "(nat list \<Rightarrow> nat list) \<Rightarrow> int \<Rightarrow> int \<Rightarrow> watchableStore \<Rightarrow> (watchableStore \<times> int) option" where
  "scanMinRev ord curRev compactRev ws =
     ofold (scan_one curRev compactRev) (ord (wg_watchers (w_unsynced ws))) (ws, max_int64)"

definition kvsToEvents :: "watcherGroup \<Rightarrow> bucket \<Rightarrow> event list" where
  "kvsToEvents wg es =
     map (\<lambda>((rv, mark), kv).
         if mark then \<lparr>we_Type = DELETE, we_Kv = kv\<lparr>kv_ModRevision := rmain rv\<rparr>\<rparr> else \<lparr>we_Type = PUT, we_Kv = kv\<rparr>)
       (filter (\<lambda>(_, kv). wg_contains (kv_Key kv) wg) es)"

definition sync_one :: "int \<Rightarrow> watcherBatch \<Rightarrow> nat \<Rightarrow> watchableStore \<Rightarrow> watchableStore option" where
  "sync_one curRev wb wa ws = do {
     eb \<leftarrow> map_of wb wa;
     let w = w_heap ws wa;
     (sent, ws) \<leftarrow> w_send (wa_ch w) \<lparr>wr_WatchID = wa_id w, wr_Events = eb_evs eb, wr_Revision = rmain (st_currentRev (w_store ws)), wr_CompactRevision = 0\<rparr> ws;
     if \<not> sent then Some ws
     else if eb_moreRev eb \<noteq> 0 then Some (w_setCur wa (eb_moreRev eb) ws)
     else w_toSynced wa (w_setCur wa curRev ws)
   }"

definition sync_rest :: "int \<Rightarrow> watcherBatch \<Rightarrow> nat \<Rightarrow> watchableStore \<Rightarrow> watchableStore option" where
  "sync_rest curRev wb wa ws =
     (if wb_contains wa wb then Some ws else w_toSynced wa (w_setCur wa curRev ws))"

definition syncWatchers :: "(nat list \<Rightarrow> nat list) \<Rightarrow> watchableStore \<Rightarrow> watchableStore option" where
  "syncWatchers ord ws =
     (if wg_size (w_unsynced ws) = 0 then Some ws
      else do {
        let curRev = rmain (st_currentRev (w_store ws));
        (ws, minRev) \<leftarrow> scanMinRev ord curRev (st_compactMainRev (w_store ws)) ws;
        let es = bk_range (Revision minRev 0, False) (Some (Revision (curRev + 1) 0, False)) 0 (st_key (w_store ws));
        wb \<leftarrow> newWatcherBatch (w_heap ws) (w_unsynced ws) (kvsToEvents (w_unsynced ws) es);
        ws \<leftarrow> ofold (sync_one curRev wb) (ord (map fst wb)) ws;
        ofold (sync_rest curRev wb) (ord (wg_watchers (w_unsynced ws))) ws
      })"

definition w_progress :: "nat \<Rightarrow> watchableStore \<Rightarrow> watchableStore option" where
  "w_progress wa ws =
     (let w = w_heap ws wa
      in if wa \<in> set (wg_watchers (w_synced ws))
         then map_option snd (w_send (wa_ch w) \<lparr>wr_WatchID = wa_id w, wr_Events = [], wr_Revision = st_Rev (w_store ws), wr_CompactRevision = 0\<rparr> ws)
         else Some ws)"

section \<open>Streams\<close>

definition ws_Watch :: "nat \<Rightarrow> bytes \<Rightarrow> bytes option \<Rightarrow> int \<Rightarrow> watchableStore \<Rightarrow> (int \<times> watchableStore) option" where
  "ws_Watch c key end startRev ws =
     (if ws_closed (w_streams ws c) then Some (- 1, ws)
      else do {
        let i = ws_nextID (w_streams ws c);
        let ws = upd_stream c (\<lambda>s. s\<lparr>ws_nextID := i + 1\<rparr>) ws;
        (wa, ws) \<leftarrow> w_watch key end startRev i c ws;
        Some (i, upd_stream c (\<lambda>s. s\<lparr>ws_cancels := AList.update i wa (ws_cancels s), ws_watchers := AList.update i wa (ws_watchers s)\<rparr>) ws)
      })"

text \<open>The result says whether the watcher exists; otherwise the error is \<^verbatim>\<open>ErrWatcherNotExist\<close>.\<close>

definition ws_Cancel :: "nat \<Rightarrow> int \<Rightarrow> watchableStore \<Rightarrow> (bool \<times> watchableStore) option" where
  "ws_Cancel c i ws =
     (case map_of (ws_cancels (w_streams ws c)) i of
        None \<Rightarrow> Some (False, ws)
      | Some wa \<Rightarrow> do {
          ws \<leftarrow> w_cancel wa ws;
          Some (True, upd_stream c (\<lambda>s. s\<lparr>ws_cancels := AList.delete i (ws_cancels s), ws_watchers := AList.delete i (ws_watchers s)\<rparr>) ws)
        })"

text \<open>Closing a channel a second time panics.\<close>

definition ws_Close :: "nat \<Rightarrow> watchableStore \<Rightarrow> watchableStore option" where
  "ws_Close c ws = do {
     ws \<leftarrow> ofold w_cancel (map snd (ws_cancels (w_streams ws c))) ws;
     panic_unless (\<not> ws_closed (w_streams ws c));
     Some (upd_stream c (\<lambda>s. s\<lparr>ws_closed := True\<rparr>) ws)
   }"

definition ws_RequestProgress :: "nat \<Rightarrow> int \<Rightarrow> watchableStore \<Rightarrow> watchableStore option" where
  "ws_RequestProgress c i ws =
     (case map_of (ws_watchers (w_streams ws c)) i of None \<Rightarrow> Some ws | Some wa \<Rightarrow> w_progress wa ws)"

text \<open>Taking the next response out of the channel.\<close>

definition ws_recvOne :: "nat \<Rightarrow> watchableStore \<Rightarrow> (WatchResponse \<times> watchableStore) option" where
  "ws_recvOne c ws =
     (let s = w_streams ws c
      in if ws_recv s < length (ws_sent s)
         then Some (ws_sent s ! ws_recv s, upd_stream c (\<lambda>s. s\<lparr>ws_recv := ws_recv s + 1\<rparr>) ws)
         else None)"

text \<open>Revoking a lease deletes its keys through the watchable store.\<close>

definition w_Revoke :: "(nat list \<Rightarrow> nat list) \<Rightarrow> int \<Rightarrow> LeaseID \<Rightarrow> watchableStore \<Rightarrow> (lease_err + watchableStore) option" where
  "w_Revoke ord i l ws = do {
     le \<leftarrow> st_le (w_store ws);
     (case le_items l le of
        Inl e \<Rightarrow> Some (Inl e)
      | Inr items \<Rightarrow> do {
          ws \<leftarrow> ofold (\<lambda>k ws. map_option fst (w_DeleteRange ord i k None ws)) items ws;
          le \<leftarrow> st_le (w_store ws);
          Some (Inr (ws\<lparr>w_store := (w_store ws)\<lparr>st_le := Some (le_remove l le)\<rparr>\<rparr>))
        })
   }"

end
