(* ===== verification/Mvcc_Watch_Group.thy ===== *)
theory Mvcc_Watch_Group
  imports Mvcc_Watch
begin

text \<open>
  Facts on groups of watchers: a group finds exactly the watchers of a key, adding and removing a
  watcher works as on sets, and the batch of a watcher holds its events up to the limit of revisions.
\<close>

section \<open>Ranges\<close>

lemma bytes_succ: "(k :: bytes) < b \<Longrightarrow> k @ [CHR 0x00] \<le> b"
proof (induction k arbitrary: b)
  case Nil
  then obtain c cs where b: "b = c # cs" by (cases b) auto
  have "CHR 0x00 \<le> c" by (simp add: less_eq_char_def)
  then show ?case by (cases cs) (auto simp: b le_less)
next
  case (Cons x k)
  then show ?case by (cases b) (auto simp: le_less)
qed

definition iv_proper :: "interval \<Rightarrow> bool" where
  "iv_proper ivl \<longleftrightarrow> iv_Compare ivl ivl = 0"

lemma stab_range:
  assumes "k \<noteq> []"
  shows "iv_Compare (affinePoint k) (b, e) = 0 \<longleftrightarrow> b \<noteq> [] \<and> b \<le> k \<and> (e = [] \<or> k < e)"
proof -
  have "k < k @ [CHR 0x00]" by (induction k) auto
  then have "k < b \<longleftrightarrow> k @ [CHR 0x00] \<le> b" using bytes_succ [of k b] by (metis order.strict_trans2)
  then show ?thesis using assms
    by (auto simp: iv_Compare_def affinePoint_def affine_Compare_def Let_def not_less)
qed

lemma stab_empty: "iv_Compare (affinePoint []) ivl \<noteq> 0"
  by (auto simp: iv_Compare_def affinePoint_def affine_Compare_def Let_def)

lemma stab_proper: "iv_Compare (affinePoint k) ivl = 0 \<Longrightarrow> iv_proper ivl"
proof (cases "k = []")
  case False
  assume "iv_Compare (affinePoint k) ivl = 0"
  then have "fst ivl \<noteq> []" "fst ivl \<le> k" "snd ivl = [] \<or> k < snd ivl" using stab_range [OF False, of "fst ivl" "snd ivl"] by auto
  then show ?thesis by (auto simp: iv_proper_def iv_Compare_def affine_Compare_def Let_def)
qed (simp add: stab_empty)

text \<open>The keys that a watcher asks for.\<close>

definition watches :: "watcher \<Rightarrow> bytes \<Rightarrow> bool" where
  "watches w k \<longleftrightarrow> (case wa_end w of None \<Rightarrow> k = wa_key w | Some e \<Rightarrow> iv_Compare (affinePoint k) (wa_key w, e) = 0)"

section \<open>Groups\<close>

definition lst :: "'a list option \<Rightarrow> 'a list" where
  "lst x = (case x of None \<Rightarrow> [] | Some xs \<Rightarrow> xs)"

lemma lst_simps [simp]: "lst None = []" "lst (Some xs) = xs"
  by (simp_all add: lst_def)

definition of_key :: "(nat \<Rightarrow> watcher) \<Rightarrow> nat set \<Rightarrow> bytes \<Rightarrow> nat set" where
  "of_key h W k = {a \<in> W. wa_end (h a) = None \<and> wa_key (h a) = k}"

definition of_range :: "(nat \<Rightarrow> watcher) \<Rightarrow> nat set \<Rightarrow> interval \<Rightarrow> nat set" where
  "of_range h W i = {a \<in> W. wa_end (h a) = Some (snd i) \<and> wa_key (h a) = fst i}"

text \<open>A set of watchers in a map, where an empty set is left out.\<close>

definition holds_set :: "nat list option \<Rightarrow> nat set \<Rightarrow> bool" where
  "holds_set x A \<longleftrightarrow> (case x of None \<Rightarrow> A = {} | Some s \<Rightarrow> distinct s \<and> set s = A \<and> A \<noteq> {})"

definition wg_inv :: "(nat \<Rightarrow> watcher) \<Rightarrow> watcherGroup \<Rightarrow> bool" where
  "wg_inv h wg \<longleftrightarrow> distinct (wg_watchers wg) \<and> distinct (map fst (filter (iv_proper \<circ> fst) (wg_ranges wg))) \<and>
     (\<forall>k. holds_set (map_of (wg_keyWatchers wg) k) (of_key h (set (wg_watchers wg)) k)) \<and>
     (\<forall>i. iv_proper i \<longrightarrow> holds_set (map_of (wg_ranges wg) i) (of_range h (set (wg_watchers wg)) i))"

lemma wg_inv_key: "wg_inv h wg \<Longrightarrow> holds_set (map_of (wg_keyWatchers wg) k) (of_key h (set (wg_watchers wg)) k)"
  by (simp add: wg_inv_def)

lemma wg_inv_range: "wg_inv h wg \<Longrightarrow> iv_proper i \<Longrightarrow> holds_set (map_of (wg_ranges wg) i) (of_range h (set (wg_watchers wg)) i)"
  unfolding wg_inv_def by blast

lemma wg_inv_new: "wg_inv h newWatcherGroup"
  by (simp add: wg_inv_def newWatcherGroup_def holds_set_def of_key_def of_range_def)

lemma wg_inv_frame:
  assumes "wg_inv h wg" "\<And>a. a \<in> set (wg_watchers wg) \<Longrightarrow> wa_key (h' a) = wa_key (h a) \<and> wa_end (h' a) = wa_end (h a)"
  shows "wg_inv h' wg"
proof -
  have "of_key h' (set (wg_watchers wg)) k = of_key h (set (wg_watchers wg)) k"
    "of_range h' (set (wg_watchers wg)) i = of_range h (set (wg_watchers wg)) i" for k i
    using assms(2) by (auto simp: of_key_def of_range_def)
  then show ?thesis using assms(1) unfolding wg_inv_def by simp
qed

lemma of_insert:
  "of_key h (insert a W) k = (if wa_end (h a) = None \<and> wa_key (h a) = k then insert a (of_key h W k) else of_key h W k)"
  "of_range h (insert a W) i = (if wa_end (h a) = Some (snd i) \<and> wa_key (h a) = fst i then insert a (of_range h W i) else of_range h W i)"
  by (auto simp: of_key_def of_range_def)

lemma of_remove: "of_key h (W - {a}) k = of_key h W k - {a}" "of_range h (W - {a}) i = of_range h W i - {a}"
  by (auto simp: of_key_def of_range_def)

lemma of_other:
  "\<not> (wa_end (h a) = None \<and> wa_key (h a) = k) \<Longrightarrow> a \<notin> of_key h W k"
  "\<not> (wa_end (h a) = Some (snd i) \<and> wa_key (h a) = fst i) \<Longrightarrow> a \<notin> of_range h W i"
  by (auto simp: of_key_def of_range_def)

lemma holds_set_add: "holds_set x A \<Longrightarrow> a \<notin> A \<Longrightarrow> wset_add a (lst x) = Some (lst x @ [a]) \<and> holds_set (Some (lst x @ [a])) (insert a A)"
  by (cases x) (auto simp: holds_set_def wset_add_def)

lemma holds_set_delete:
  "holds_set x A \<Longrightarrow> a \<in> A \<Longrightarrow>
    x = Some (lst x) \<and> a \<in> set (lst x) \<and> holds_set (if removeAll a (lst x) = [] then None else Some (removeAll a (lst x))) (A - {a})"
proof (cases x)
  case (Some s)
  assume "holds_set x A" "a \<in> A"
  then have s: "distinct s" "set s = A" "a \<in> A" using Some by (simp_all add: holds_set_def)
  then have "set (removeAll a s) = A - {a}" "distinct (removeAll a s)" by (simp_all add: distinct_removeAll)
  moreover have "removeAll a s = [] \<longleftrightarrow> A - {a} = {}" using calculation(1) by (metis set_empty)
  ultimately show ?thesis using s Some by (simp add: holds_set_def del: Diff_eq_empty_iff)
qed (simp add: holds_set_def)

text \<open>The list of proper ranges under the operations of the tree.\<close>

lemma filter_update:
  assumes "P k" "map_of t k \<noteq> None"
  shows "map fst (filter (P \<circ> fst) (AList.update k v t)) = map fst (filter (P \<circ> fst) t)"
  using assms by (induction t) (auto split: if_splits)

lemma filter_delete: "filter (P \<circ> fst) (AList.delete k t) = AList.delete k (filter (P \<circ> fst) t)"
  by (auto simp: AList.delete_eq filter_filter intro: filter_cong)

lemma map_of_filter_fst: "P k \<Longrightarrow> map_of (filter (P \<circ> fst) t) k = map_of t k"
  by (induction t) auto

lemma wg_add_ok:
  assumes inv: "wg_inv h wg" and a: "a \<notin> set (wg_watchers wg)"
  shows "\<exists>wg'. wg_add h a wg = Some wg' \<and> wg_inv h wg' \<and> set (wg_watchers wg') = insert a (set (wg_watchers wg))"
proof (cases "wa_end (h a)")
  case None
  let ?k = "wa_key (h a)" and ?kw = "wg_keyWatchers wg"
  let ?wg = "wg\<lparr>wg_watchers := wg_watchers wg @ [a], wg_keyWatchers := AList.update ?k (lst (map_of ?kw ?k) @ [a]) ?kw\<rparr>"
  have s: "wset_add a (lst (map_of ?kw ?k)) = Some (lst (map_of ?kw ?k) @ [a])"
    "holds_set (Some (lst (map_of ?kw ?k) @ [a])) (insert a (of_key h (set (wg_watchers wg)) ?k))"
    using holds_set_add [of "map_of ?kw ?k" "of_key h (set (wg_watchers wg)) ?k" a] inv a by (auto simp: wg_inv_def of_key_def)
  have "wg_add h a wg = Some ?wg" using a None s(1)
    by (simp add: wg_add_def wset_add_def [of a "wg_watchers wg"] wsk_add_def lst_def [symmetric] Let_def)
  moreover have "wg_inv h ?wg" using inv a s(2) None by (simp add: wg_inv_def of_insert update_conv')
  ultimately show ?thesis by auto
next
  case (Some e)
  let ?i = "(wa_key (h a), e)" and ?t = "wg_ranges wg" and ?W = "set (wg_watchers wg)"
  show ?thesis
  proof (cases "ivt_Find ?i ?t")
    case None
    let ?wg = "wg\<lparr>wg_watchers := wg_watchers wg @ [a], wg_ranges := (?i, [a]) # ?t\<rparr>"
    have "wg_add h a wg = Some ?wg" using a None Some by (simp add: wg_add_def wset_add_def ivt_Insert_def Let_def)
    moreover have "wg_inv h ?wg"
    proof (cases "iv_proper ?i")
      case True
      then have m: "map_of ?t ?i = None" using None by (simp add: ivt_Find_def iv_proper_def)
      then have "?i \<notin> fst ` set (filter (iv_proper \<circ> fst) ?t)" by (auto simp: map_of_eq_None_iff)
      moreover have "of_range h ?W ?i = {}" using wg_inv_range [OF inv True] m by (simp add: holds_set_def)
      then have "holds_set (Some [a]) (insert a (of_range h ?W ?i))" by (simp add: holds_set_def)
      ultimately show ?thesis using inv a Some True by (auto simp: wg_inv_def of_insert)
    next
      case False
      then show ?thesis using inv a Some by (auto simp: wg_inv_def of_insert)
    qed
    ultimately show ?thesis by auto
  next
    fix s assume f: "ivt_Find ?i ?t = Some s"
    then have p: "iv_proper ?i" and m: "map_of ?t ?i = Some s" by (auto simp: ivt_Find_def iv_proper_def split: if_splits)
    let ?wg = "wg\<lparr>wg_watchers := wg_watchers wg @ [a], wg_ranges := AList.update ?i (s @ [a]) ?t\<rparr>"
    have "holds_set (map_of ?t ?i) (of_range h ?W ?i)" by (rule wg_inv_range [OF inv p])
    from holds_set_add [OF this, of a] have s: "wset_add a s = Some (s @ [a])" "holds_set (Some (s @ [a])) (insert a (of_range h ?W ?i))"
      using a m by (auto simp: of_range_def)
    then have "wg_add h a wg = Some ?wg" using a f Some by (simp add: wg_add_def wset_add_def [of a "wg_watchers wg"] Let_def)
    moreover have "wg_inv h ?wg" using inv a m s(2) Some filter_update [of iv_proper, OF p, of ?t "s @ [a]"]
      by (auto simp: wg_inv_def of_insert update_conv')
    ultimately show ?thesis by auto
  qed
qed

lemma wg_delete_ok:
  assumes inv: "wg_inv h wg"
  shows "\<exists>b wg'. wg_delete h a wg = Some (b, wg') \<and> wg_inv h wg' \<and> set (wg_watchers wg') = set (wg_watchers wg) - {a} \<and>
    (b \<longrightarrow> a \<in> set (wg_watchers wg))"
proof (cases "a \<in> set (wg_watchers wg)")
  case False
  then show ?thesis using inv by (intro exI [of _ False] exI [of _ wg]) (auto simp: wg_delete_def)
next
  case a: True
  let ?L = "removeAll a (wg_watchers wg)" and ?W = "set (wg_watchers wg)"
  show ?thesis
  proof (cases "wa_end (h a)")
    case None
    let ?k = "wa_key (h a)" and ?kw = "wg_keyWatchers wg"
    let ?wg = "wg\<lparr>wg_watchers := ?L, wg_keyWatchers := wsk_delete ?k a ?kw\<rparr>"
    have "holds_set (map_of ?kw ?k) (of_key h ?W ?k)" by (rule wg_inv_key [OF inv])
    from holds_set_delete [OF this, of a] obtain v where
      v: "map_of ?kw ?k = Some v" "a \<in> set v" "holds_set (if removeAll a v = [] then None else Some (removeAll a v)) (of_key h ?W ?k - {a})"
      using a None by (auto simp: of_key_def)
    have d: "wg_delete h a wg = Some (True, ?wg)" using a None by (simp add: wg_delete_def wset_delete_def)
    have "map_of (wsk_delete ?k a ?kw) = (map_of ?kw)(?k := if removeAll a v = [] then None else Some (removeAll a v))"
      using v by (simp add: wsk_delete_def update_conv' delete_conv' Let_def)
    moreover have "of_range h ?W i - {a} = of_range h ?W i" for i using None of_other(2) [of h a i ?W] by simp
    moreover have "of_key h ?W k - {a} = of_key h ?W k" if "k \<noteq> ?k" for k using that of_other(1) [of h a k ?W] by simp
    ultimately have "wg_inv h ?wg" using inv v(3) by (simp add: wg_inv_def distinct_removeAll of_remove split: if_split_asm)
    with d a show ?thesis by auto
  next
    case (Some e)
    let ?i = "(wa_key (h a), e)" and ?t = "wg_ranges wg"
    have nk: "of_key h ?W k - {a} = of_key h ?W k" for k using Some of_other(1) [of h a k ?W] by simp
    have nr: "of_range h ?W i - {a} = of_range h ?W i" if "i \<noteq> ?i" for i
    proof -
      have "a \<notin> of_range h ?W i" using that Some by (intro of_other(2)) (auto simp: prod_eq_iff)
      then show ?thesis by simp
    qed
    have ai: "a \<in> of_range h ?W ?i" using a Some by (simp add: of_range_def)
    show ?thesis
    proof (cases "ivt_Find ?i ?t")
      case None
      let ?wg = "wg\<lparr>wg_watchers := ?L\<rparr>"
      have "\<not> iv_proper ?i"
      proof
        assume p: "iv_proper ?i"
        then have "map_of ?t ?i = None" using None by (simp add: ivt_Find_def iv_proper_def)
        moreover have "holds_set (map_of ?t ?i) (of_range h ?W ?i)" by (rule wg_inv_range [OF inv p])
        ultimately show False using ai by (simp add: holds_set_def)
      qed
      then have "of_range h ?W i - {a} = of_range h ?W i" if "iv_proper i" for i using that nr by metis
      then have "wg_inv h ?wg" using inv nk by (simp add: wg_inv_def distinct_removeAll of_remove)
      moreover have "wg_delete h a wg = Some (False, ?wg)" using a None Some by (simp add: wg_delete_def wset_delete_def Let_def)
      ultimately show ?thesis by auto
    next
      fix s assume f: "ivt_Find ?i ?t = Some s"
      then have p: "iv_proper ?i" and m: "map_of ?t ?i = Some s" by (auto simp: ivt_Find_def iv_proper_def split: if_splits)
      let ?t' = "if removeAll a s = [] then AList.delete ?i ?t else AList.update ?i (removeAll a s) ?t"
      let ?wg = "wg\<lparr>wg_watchers := ?L, wg_ranges := ?t'\<rparr>"
      have "holds_set (map_of ?t ?i) (of_range h ?W ?i)" by (rule wg_inv_range [OF inv p])
      from holds_set_delete [OF this ai] have
        s: "holds_set (if removeAll a s = [] then None else Some (removeAll a s)) (of_range h ?W ?i - {a})" unfolding m lst_simps by blast
      have d: "wg_delete h a wg = Some (True, ?wg)" using a f Some by (simp add: wg_delete_def wset_delete_def ivt_Delete_def Let_def)
      have "map_of ?t' = (map_of ?t)(?i := if removeAll a s = [] then None else Some (removeAll a s))"
        by (auto simp: update_conv' delete_conv')
      moreover have "distinct (map fst (filter (iv_proper \<circ> fst) ?t'))"
        using inv filter_update [of iv_proper, OF p, of ?t] m by (auto simp: wg_inv_def filter_delete distinct_delete)
      ultimately have "wg_inv h ?wg" using inv s nr nk by (simp add: wg_inv_def distinct_removeAll of_remove split: if_split_asm)
      with d a show ?thesis by auto
    qed
  qed
qed

section \<open>The watchers of a key\<close>

lemma wset_union_ok:
  "distinct ws \<Longrightarrow> distinct w \<Longrightarrow> set ws \<inter> set w = {} \<Longrightarrow> wset_union ws w = Some (w @ ws)"
  unfolding wset_union_def by (induction ws arbitrary: w) (auto simp: wset_add_def)

lemma union_items:
  assumes "\<forall>x \<in> set is. distinct (snd x)" "distinct w" "\<forall>x \<in> set is. set (snd x) \<inter> set w = {}"
    "sorted_wrt (\<lambda>x y. set (snd x) \<inter> set (snd y) = {}) is"
  shows "ofold (\<lambda>item ret. wset_union (snd item) ret) is w = Some (w @ concat (map snd is)) \<and> distinct (w @ concat (map snd is))"
  using assms
proof (induction "is" arbitrary: w)
  case (Cons x xs)
  have u: "wset_union (snd x) w = Some (w @ snd x)" using Cons.prems by (intro wset_union_ok) auto
  have "ofold (\<lambda>item ret. wset_union (snd item) ret) xs (w @ snd x) = Some ((w @ snd x) @ concat (map snd xs)) \<and> distinct ((w @ snd x) @ concat (map snd xs))"
    using Cons.prems by (intro Cons.IH) auto
  then show ?case using u by simp
qed auto

lemma of_range_disjoint: "i \<noteq> j \<Longrightarrow> of_range h W i \<inter> of_range h W j = {}"
  by (auto simp: of_range_def prod_eq_iff)

lemma stab_sets:
  assumes "wg_inv h wg" "is = ivt_Stab (affinePoint k) (wg_ranges wg)"
  shows "\<forall>x \<in> set is. distinct (snd x) \<and> set (snd x) = of_range h (set (wg_watchers wg)) (fst x) \<and> iv_Compare (affinePoint k) (fst x) = 0 \<and> snd x \<noteq> []"
    "sorted_wrt (\<lambda>x y. set (snd x) \<inter> set (snd y) = {}) is"
    "\<Union> (set ` snd ` set is) = {a \<in> set (wg_watchers wg). wa_end (h a) \<noteq> None \<and> watches (h a) k}"
proof -
  let ?R = "filter (iv_proper \<circ> fst) (wg_ranges wg)" and ?W = "set (wg_watchers wg)"
  have "is": "is = filter (\<lambda>x. iv_Compare (affinePoint k) (fst x) = 0) ?R"
    unfolding assms(2) ivt_Stab_def filter_filter using stab_proper by (intro filter_cong) auto
  have d: "distinct (map fst ?R)" using assms(1) by (simp add: wg_inv_def)
  have mR: "map_of (wg_ranges wg) i = Some s" if "(i, s) \<in> set ?R" for i s
  proof -
    have "map_of ?R i = Some s" using d that by simp
    moreover have "map_of ?R i = map_of (wg_ranges wg) i" using that by (intro map_of_filter_fst) auto
    ultimately show ?thesis by simp
  qed
  show A: "\<forall>x \<in> set is. distinct (snd x) \<and> set (snd x) = of_range h ?W (fst x) \<and> iv_Compare (affinePoint k) (fst x) = 0 \<and> snd x \<noteq> []"
  proof
    fix x assume x: "x \<in> set is"
    then have "x \<in> set ?R" "iv_proper (fst x)" "iv_Compare (affinePoint k) (fst x) = 0" by (auto simp: "is")
    moreover from this(1) have "map_of (wg_ranges wg) (fst x) = Some (snd x)" using mR [of "fst x" "snd x"] by simp
    ultimately show "distinct (snd x) \<and> set (snd x) = of_range h ?W (fst x) \<and> iv_Compare (affinePoint k) (fst x) = 0 \<and> snd x \<noteq> []"
      using wg_inv_range [OF assms(1), of "fst x"] by (auto simp: holds_set_def)
  qed
  have "distinct (map fst is)" using d unfolding "is" by (rule distinct_map_filter)
  then have "sorted_wrt (\<lambda>x y. fst x \<noteq> fst y) is" by (induction "is") auto
  then show "sorted_wrt (\<lambda>x y. set (snd x) \<inter> set (snd y) = {}) is"
    by (rule sorted_wrt_mono_rel [rotated]) (use A of_range_disjoint in metis)
  show "\<Union> (set ` snd ` set is) = {a \<in> ?W. wa_end (h a) \<noteq> None \<and> watches (h a) k}" (is "?A = ?B")
  proof (intro equalityI subsetI)
    fix a assume "a \<in> ?A"
    then obtain x where "x \<in> set is" "a \<in> set (snd x)" by auto
    with A have "a \<in> of_range h ?W (fst x)" "iv_Compare (affinePoint k) (fst x) = 0" by auto
    then show "a \<in> ?B" by (simp add: of_range_def watches_def)
  next
    fix a assume B: "a \<in> ?B"
    then obtain e where e: "wa_end (h a) = Some e" by auto
    let ?i = "(wa_key (h a), e)"
    have c: "iv_Compare (affinePoint k) ?i = 0" using B e by (simp add: watches_def)
    have a: "a \<in> of_range h ?W ?i" using B e by (simp add: of_range_def)
    have "holds_set (map_of (wg_ranges wg) ?i) (of_range h ?W ?i)" by (rule wg_inv_range [OF assms(1) stab_proper [OF c]])
    then obtain s where "map_of (wg_ranges wg) ?i = Some s" "a \<in> set s" using a by (auto simp: holds_set_def split: option.splits)
    moreover from this(1) have "(?i, s) \<in> set is" unfolding assms(2) ivt_Stab_def using c by (simp add: map_of_SomeD)
    ultimately show "a \<in> ?A" by force
  qed
qed

lemma watcherSetByKey_ok:
  assumes "wg_inv h wg"
  shows "\<exists>s. wg_watcherSetByKey k wg = Some s \<and> distinct s \<and> set s = {a \<in> set (wg_watchers wg). watches (h a) k}"
proof -
  let ?W = "set (wg_watchers wg)"
  define "is" where "is = ivt_Stab (affinePoint k) (wg_ranges wg)"
  define ks where "ks = lst (map_of (wg_keyWatchers wg) k)"
  note st = stab_sets [OF assms is_def]
  have ks: "distinct ks" "set ks = of_key h ?W k" using wg_inv_key [OF assms, of k] by (auto simp: ks_def holds_set_def split: option.splits)
  have disj: "\<forall>x \<in> set is. set (snd x) \<inter> set ks = {}" using st(1) ks(2) by (auto simp: of_key_def of_range_def)
  have "wset_union ks [] = Some ks" using wset_union_ok [OF ks(1), of "[]"] by simp
  moreover have u: "ofold (\<lambda>item ret. wset_union (snd item) ret) is ks = Some (ks @ concat (map snd is))" "distinct (ks @ concat (map snd is))"
    using union_items [OF _ ks(1) disj st(2)] st(1) by auto
  ultimately have "wg_watcherSetByKey k wg = Some (ks @ concat (map snd is))"
    unfolding wg_watcherSetByKey_def Let_def is_def [symmetric] ks_def [unfolded lst_def, symmetric]
    by (cases "is") auto
  moreover have "set (ks @ concat (map snd is)) = {a \<in> ?W. watches (h a) k}"
    using ks(2) st(3) by (auto simp: of_key_def watches_def)
  ultimately show ?thesis using u(2) by blast
qed

lemma wg_contains_iff:
  assumes "wg_inv h wg"
  shows "wg_contains k wg \<longleftrightarrow> (\<exists>a \<in> set (wg_watchers wg). watches (h a) k)"
proof -
  define "is" where "is = ivt_Stab (affinePoint k) (wg_ranges wg)"
  note st = stab_sets [OF assms is_def]
  have c1: "map_of (wg_keyWatchers wg) k \<noteq> None \<longleftrightarrow> of_key h (set (wg_watchers wg)) k \<noteq> {}"
    using wg_inv_key [OF assms, of k] by (auto simp: holds_set_def split: option.splits)
  have c2: "ivt_Contains (affinePoint k) (wg_ranges wg) \<longleftrightarrow> is \<noteq> []"
    by (auto simp: ivt_Contains_def is_def ivt_Stab_def list_ex_iff filter_empty_conv)
  have c3: "is \<noteq> [] \<longleftrightarrow> \<Union> (set ` snd ` set is) \<noteq> {}"
    using st(1) by (cases "is") auto
  have "wg_contains k wg \<longleftrightarrow> of_key h (set (wg_watchers wg)) k \<union> \<Union> (set ` snd ` set is) \<noteq> {}"
    unfolding wg_contains_def c1 c2 c3 by blast
  moreover have "of_key h (set (wg_watchers wg)) k = {a \<in> set (wg_watchers wg). wa_end (h a) = None \<and> watches (h a) k}"
    by (auto simp: of_key_def watches_def)
  ultimately show ?thesis unfolding st(3) by blast
qed

section \<open>Batches of events\<close>

abbreviation we_rev :: "event \<Rightarrow> int" where
  "we_rev ev \<equiv> kv_ModRevision (we_Kv ev)"

abbreviation we_key :: "event \<Rightarrow> bytes" where
  "we_key ev \<equiv> kv_Key (we_Kv ev)"

abbreviation eb_zero :: eventBatch where
  "eb_zero \<equiv> \<lparr>eb_evs = [], eb_revs = 0, eb_moreRev = 0\<rparr>"

text \<open>The events of a watcher among some events.\<close>

definition mine :: "(nat \<Rightarrow> watcher) \<Rightarrow> nat set \<Rightarrow> nat \<Rightarrow> event list \<Rightarrow> event list" where
  "mine h W a evs = filter (\<lambda>ev. a \<in> W \<and> watches (h a) (we_key ev) \<and> wa_cur (h a) \<le> we_rev ev) evs"

definition wb_of :: "event list \<Rightarrow> eventBatch option" where
  "wb_of es = (if es = [] then None else Some (fold eb_add es eb_zero))"

lemma wb_add_fold:
  assumes "distinct ws"
  shows "map_of (fold (\<lambda>w wb. if P w then wb_add w ev wb else wb) ws wb) a =
    (if a \<in> set ws \<and> P a then Some (eb_add ev (case map_of wb a of None \<Rightarrow> eb_zero | Some eb \<Rightarrow> eb)) else map_of wb a)"
  using assms by (induction ws arbitrary: wb) (auto simp: wb_add_def update_conv' Let_def)

lemma wb_add_distinct: "distinct (map fst wb) \<Longrightarrow> distinct (map fst (fold (\<lambda>w wb. if P w then wb_add w ev wb else wb) ws wb))"
  by (induction ws arbitrary: wb) (auto simp: wb_add_def distinct_update Let_def)

lemma newWatcherBatch_ok:
  assumes "wg_inv h wg"
  shows "\<exists>wb. newWatcherBatch h wg evs = Some wb \<and> distinct (map fst wb) \<and>
    (\<forall>a. map_of wb a = wb_of (mine h (set (wg_watchers wg)) a evs))"
proof -
  let ?W = "set (wg_watchers wg)"
  define f where "f = (\<lambda>ev wb. do {
       ws \<leftarrow> wg_watcherSetByKey (we_key ev) wg;
       Some (fold (\<lambda>w wb. if we_rev ev \<ge> wa_cur (h w) then wb_add w ev wb else wb) ws wb)
     })"
  have "\<exists>wb'. ofold f evs wb = Some wb' \<and> distinct (map fst wb') \<and> (\<forall>a. map_of wb' a = wb_of (mine h ?W a (pre @ evs)))"
    if "distinct (map fst wb)" "\<forall>a. map_of wb a = wb_of (mine h ?W a pre)" for pre wb
    using that
  proof (induction evs arbitrary: pre wb)
    case (Cons ev evs)
    from watcherSetByKey_ok [OF assms, of "we_key ev"] obtain s where
      s: "wg_watcherSetByKey (we_key ev) wg = Some s" "distinct s" "set s = {a \<in> ?W. watches (h a) (we_key ev)}" by blast
    let ?wb = "fold (\<lambda>w wb. if we_rev ev \<ge> wa_cur (h w) then wb_add w ev wb else wb) s wb"
    have "map_of ?wb a = wb_of (mine h ?W a (pre @ [ev]))" for a
      unfolding wb_add_fold [OF s(2)] using Cons.prems(2) s(3) by (auto simp: mine_def wb_of_def)
    moreover have "distinct (map fst ?wb)" by (rule wb_add_distinct [OF Cons.prems(1)])
    ultimately obtain wb' where "ofold f evs ?wb = Some wb'" "distinct (map fst wb')" "\<forall>a. map_of wb' a = wb_of (mine h ?W a ((pre @ [ev]) @ evs))"
      using Cons.IH by blast
    moreover have "f ev wb = Some ?wb" by (simp add: f_def s(1))
    ultimately show ?case by simp
  qed simp
  from this [of "[]" "[]"] show ?thesis unfolding newWatcherBatch_def f_def [symmetric] by (simp add: mine_def wb_of_def)
qed

text \<open>What a batch holds.\<close>

lemma batch_split:
  assumes "es \<noteq> []" "sorted (map we_rev es)" "\<forall>ev \<in> set es. 0 < we_rev ev"
  shows "let eb = fold eb_add es eb_zero in
    (eb_moreRev eb = 0 \<and> eb_evs eb = es \<and> 1 \<le> eb_revs eb \<and> eb_revs eb \<le> watchBatchMaxRevs) \<or>
    (eb_moreRev eb \<in> we_rev ` set es \<and> eb_evs eb = filter (\<lambda>ev. we_rev ev < eb_moreRev eb) es \<and>
       eb_revs eb > watchBatchMaxRevs)"
  using assms
proof (induction es rule: rev_induct)
  case (snoc ev es)
  show ?case
  proof (cases "es = []")
    case True
    then show ?thesis by (simp add: eb_add_def)
  next
    case False
    define eb where "eb = fold eb_add es eb_zero"
    have f: "fold eb_add (es @ [ev]) eb_zero = eb_add ev eb" by (simp add: eb_def)
    have srt: "sorted (map we_rev es)" and le: "\<forall>x \<in> set es. we_rev x \<le> we_rev ev" and pos: "0 < we_rev ev"
      using snoc.prems by (auto simp: sorted_append)
    have "let eb = eb in
      (eb_moreRev eb = 0 \<and> eb_evs eb = es \<and> 1 \<le> eb_revs eb \<and> eb_revs eb \<le> watchBatchMaxRevs) \<or>
      (eb_moreRev eb \<in> we_rev ` set es \<and> eb_evs eb = filter (\<lambda>ev. we_rev ev < eb_moreRev eb) es \<and> eb_revs eb > watchBatchMaxRevs)"
      unfolding eb_def using snoc.IH [OF False srt] snoc.prems(3) by simp
    then consider "eb_moreRev eb = 0" "eb_evs eb = es" "1 \<le> eb_revs eb" "eb_revs eb \<le> watchBatchMaxRevs"
      | "eb_moreRev eb \<in> we_rev ` set es" "eb_evs eb = filter (\<lambda>ev. we_rev ev < eb_moreRev eb) es" "eb_revs eb > watchBatchMaxRevs"
      by (auto simp: Let_def)
    then show ?thesis
    proof cases
      case 1
      show ?thesis
      proof (cases "we_rev ev > we_rev (last es) \<and> eb_revs eb + 1 > watchBatchMaxRevs")
        case True
        have "sorted (map we_rev (butlast es @ [last es]))" using srt False by simp
        then have "\<forall>x \<in> set (butlast es @ [last es]). we_rev x \<le> we_rev (last es)" by (auto simp: sorted_append)
        then have "\<forall>x \<in> set es. we_rev x \<le> we_rev (last es)" using False by simp
        then have "filter (\<lambda>x. we_rev x < we_rev ev) (es @ [ev]) = es" using True by (auto simp: filter_id_conv)
        then show ?thesis using 1 True \<open>es \<noteq> []\<close> unfolding f eb_add_def [of ev eb] Let_def by simp
      next
        case False
        then show ?thesis using 1 \<open>es \<noteq> []\<close> unfolding f eb_add_def [of ev eb] Let_def by auto
      qed
    next
      case 2
      then have "\<not> we_rev ev < eb_moreRev eb" using le by auto
      then show ?thesis using 2 unfolding f eb_add_def [of ev eb] Let_def by simp
    qed
  qed
qed simp

lemma batch_single:
  assumes "es \<noteq> []" "\<forall>ev \<in> set es. we_rev ev = r"
  shows "eb_evs (fold eb_add es eb_zero) = es \<and> eb_revs (fold eb_add es eb_zero) = 1 \<and> eb_moreRev (fold eb_add es eb_zero) = 0"
  using assms
proof (induction es rule: rev_induct)
  case (snoc ev es)
  then show ?case by (cases "es = []") (auto simp: eb_add_def)
qed simp

end
