(* ===== verification/Mvcc_Watch_Grow.thy ===== *)
theory Mvcc_Watch_Grow
  imports Mvcc_Watch_Group Mvcc_Store_Run
begin

text \<open>
  What a transaction adds to the bucket is what it records as changes, so the events that the
  watchable store builds from the changes are the events of the bucket.
\<close>

section \<open>Transactions append to the bucket\<close>

text \<open>A pair without a creation revision is a deletion.\<close>

definition cr_ok :: "bucket \<Rightarrow> bool" where
  "cr_ok b \<longleftrightarrow> (\<forall>x \<in> set b. snd (fst x) \<longleftrightarrow> kv_CreateRevision (snd x) = 0)"

definition grows :: "store \<Rightarrow> store \<Rightarrow> bucket \<Rightarrow> bool" where
  "grows st st' new \<longleftrightarrow> st_key st' = st_key st @ new \<and> st_changes st' = st_changes st @ map snd new \<and> cr_ok new \<and>
     (\<forall>x \<in> set new. rmain (fst (fst x)) = rmain (st_currentRev st) + 1) \<and> rmain (st_currentRev st') = rmain (st_currentRev st) \<and>
     rsub (st_currentRev st') = rsub (st_currentRev st) + int (length new)"

lemma cr_ok_append [simp]: "cr_ok (b @ b') \<longleftrightarrow> cr_ok b \<and> cr_ok b'"
  by (auto simp: cr_ok_def)

lemma cr_ok_filter: "cr_ok b \<Longrightarrow> cr_ok (filter P b)"
  by (simp add: cr_ok_def)

lemma grows_refl: "grows st st []"
  by (simp add: grows_def cr_ok_def)

lemma grows_trans: "grows st st1 a \<Longrightarrow> grows st1 st2 b \<Longrightarrow> grows st st2 (a @ b)"
  by (auto simp: grows_def)

lemma attach_le: "st_attach i k st = Some st' \<Longrightarrow> \<exists>le. st' = st\<lparr>st_le := le\<rparr>"
  by (cases "i = NoLease") (auto simp: st_attach_def bind_eq_Some_conv inr_Some intro: exI [of _ "st_le st"])

lemma detach_le: "st_detach i k st = Some st' \<Longrightarrow> \<exists>le. st' = st\<lparr>st_le := le\<rparr>"
  by (cases "i = NoLease") (auto simp: st_detach_def bind_eq_Some_conv inr_Some intro: exI [of _ "st_le st"])

lemma now_entry: "st_at st r k = Some kv \<Longrightarrow> \<exists>rv. ((rv, False), kv) \<in> set (st_key st)"
  using ev_latest_bound [of r "hist (st_key st) k"] hist_memD [of _ "Some kv" "st_key st" k]
  by (fastforce simp: st_at_def ev_at_Some)

lemma put_grows:
  assumes "st_inv st" "cr_ok (st_key st)" "st_put key val l st = Some st'"
  shows "grows st st' [((st_next st, False), put_kv key val l st)]"
proof -
  from put_written_inv [OF assms(1), of key val l] obtain t where
    p: "st_put key val l st = Option.bind (st_detach (lease_of (st_now st key)) key (put_written key val l t st)) (st_attach l key)" by blast
  with assms(3) obtain st1 where s: "st_detach (lease_of (st_now st key)) key (put_written key val l t st) = Some st1" "st_attach l key st1 = Some st'"
    by (auto simp: bind_eq_Some_conv)
  from attach_le [OF s(2)] detach_le [OF s(1)] obtain le where st': "st' = (put_written key val l t st)\<lparr>st_le := le\<rparr>" by auto
  have pos: "1 \<le> rmain (st_currentRev st)" using assms(1) by (simp add: st_inv_def)
  have "kv_CreateRevision (put_kv key val l st) \<noteq> 0"
  proof (cases "st_now st key")
    case None
    then show ?thesis using pos by (simp add: put_kv_def)
  next
    case (Some kv)
    from now_entry [OF Some] assms(2) have "kv_CreateRevision kv \<noteq> 0" by (fastforce simp: cr_ok_def)
    then show ?thesis using Some by (simp add: put_kv_def)
  qed
  then show ?thesis by (simp add: grows_def st' put_written_def cr_ok_def st_next_def)
qed

lemma delete_grows:
  assumes "st_inv st" "st_delete key rv st = Some st'"
  shows "grows st st' [((st_next st, True), zero_KeyValue\<lparr>kv_Key := key\<rparr>)]"
proof -
  let ?kv = "zero_KeyValue\<lparr>kv_Key := key\<rparr>"
  from assms(2) obtain t kv i k where
    s: "st_detach i k (st\<lparr>st_key := bk_put (st_next st, True) ?kv (st_key st), st_kvindex := t, st_changes := st_changes st @ [?kv],
          st_currentRev := Revision (rmain (st_currentRev st)) (rsub (st_currentRev st) + 1)\<rparr>) = Some st'"
    unfolding st_delete_def st_next_def [symmetric] Let_def by (auto simp: bind_eq_Some_conv inr_Some cons_Some)
  note s [unfolded bk_put_next [OF assms(1)]]
  from detach_le [OF this] show ?thesis by (auto simp: grows_def cr_ok_def zero_KeyValue_def st_next_def)
qed

lemma deletes_grow:
  assumes "st_inv st" "lease_inv st" "distinct (map fst krs)"
    "\<forall>x \<in> set krs. \<exists>kv. ev_at (rmain (st_currentRev st) + 1) (hist (st_key st) (fst x)) = Some (snd x, kv)"
    "ofold (\<lambda>(k, rv) st. st_delete k rv st) krs st = Some st'"
  shows "\<exists>new. grows st st' new"
  using assms
proof (induction krs arbitrary: st)
  case Nil
  then show ?case using grows_refl by auto
next
  case (Cons x krs)
  obtain k rv where x: "x = (k, rv)" by (cases x)
  from Cons.prems(4) x obtain kv where e: "ev_at (rmain (st_currentRev st) + 1) (hist (st_key st) k) = Some (rv, kv)" by auto
  from delete_ok [OF Cons.prems(1,2) e] obtain st1 where
    d: "st_delete k rv st = Some st1" "st_inv st1" "lease_inv st1" "st_same st st1" "\<forall>j. j \<noteq> k \<longrightarrow> hist (st_key st1) j = hist (st_key st) j" by blast
  have "ofold (\<lambda>(k, rv) st. st_delete k rv st) krs st1 = Some st'" using Cons.prems(5) d(1) by (simp add: x)
  moreover have "\<forall>y \<in> set krs. \<exists>kv. ev_at (rmain (st_currentRev st1) + 1) (hist (st_key st1) (fst y)) = Some (snd y, kv)"
  proof
    fix y assume y: "y \<in> set krs"
    then have "fst y \<noteq> k" using Cons.prems(3) x by force
    then show "\<exists>kv. ev_at (rmain (st_currentRev st1) + 1) (hist (st_key st1) (fst y)) = Some (snd y, kv)"
      using Cons.prems(4) y d(4,5) by (simp add: st_same_def)
  qed
  moreover have "distinct (map fst krs)" using Cons.prems(3) by simp
  ultimately obtain new where "grows st1 st' new" using Cons.IH [OF d(2,3)] by blast
  with delete_grows [OF Cons.prems(1) d(1)] show ?case using grows_trans by blast
qed

lemma deleteRange_grows:
  assumes "st_inv st" "lease_inv st" "st_deleteRange key end st = Some (st', n)"
  shows "\<exists>new. grows st st' new \<and> n = int (length new)"
proof -
  let ?m = "rmain (st_currentRev st)"
  define r where "r = ?m + (if rsub (st_currentRev st) > 0 then 1 else 0)"
  have q: "ev_at r (hist (st_key st) k) = ev_at (?m + 1) (hist (st_key st) k)" for k
    using at_quiet [OF assms(1), of k] assms(1) by (auto simp: r_def st_inv_def)
  have "st_compactMainRev st \<le> r" using assms(1) by (simp add: r_def st_inv_def)
  from range_view [OF assms(1) this, of key "end"] obtain ps where
    ps: "ti_Range key end r (st_kvindex st) = Some (map (kv_Key \<circ> snd) ps, map fst ps)" "st_view st key end r (map snd ps)"
    "\<forall>x \<in> set ps. ev_at r (hist (st_key st) (kv_Key (snd x))) = Some x" by blast
  let ?krs = "zip (map (kv_Key \<circ> snd) ps) (map fst ps)"
  have "map fst ?krs = map kv_Key (map snd ps)" by simp
  then have d: "distinct (map fst ?krs)" using ps(2) by (simp add: st_view_def strict_sorted_iff)
  have k: "\<forall>x \<in> set ?krs. \<exists>kv. ev_at (?m + 1) (hist (st_key st) (fst x)) = Some (snd x, kv)"
  proof
    fix x assume "x \<in> set ?krs"
    then obtain p where "p \<in> set ps" "x = (kv_Key (snd p), fst p)" by (auto simp: zip_map_map zip_same_conv_map)
    then show "\<exists>kv. ev_at (?m + 1) (hist (st_key st) (fst x)) = Some (snd x, kv)"
      using ps(3) q [of "kv_Key (snd p)"] by (auto intro: exI [of _ "snd p"])
  qed
  from assms(3) ps(1) have f: "ofold (\<lambda>(k, rv) st. st_delete k rv st) ?krs st = Some st'" and n: "n = int (length ps)"
    by (auto simp: st_deleteRange_def r_def [symmetric] bind_eq_Some_conv Let_def)
  from deletes_grow [OF assms(1,2) d k f] obtain new where g: "grows st st' new" by blast
  from delete_all_ok [OF assms(1,2) d k] f have "rsub (st_currentRev st') = rsub (st_currentRev st) + int (length ?krs)" by auto
  then have "length new = length ps" using g by (simp add: grows_def)
  with g n show ?thesis by metis
qed

lemma txn_exec_grows:
  assumes "txn_ok st0 st" "cr_ok (st_key st)" "txn_exec i op st = Some st'"
  shows "\<exists>new. grows st st' new"
proof (cases op)
  case (TPut key val l)
  with assms(3) have "st_put key val l st = Some st'" by (cases "st_put key val l st") (auto simp: st_TxnPut_def split: if_splits)
  moreover have "st_inv st" using assms(1) by (simp add: txn_ok_def)
  ultimately show ?thesis using put_grows assms(2) by blast
next
  case (TDeleteRange key e)
  with assms(3) obtain n where "st_deleteRange key e st = Some (st', n)"
    by (auto simp: st_TxnDeleteRange_def bind_eq_Some_conv Let_def split: if_splits option.splits sum.splits)
  then show ?thesis using assms(1) deleteRange_grows [of st key e st' n] by (auto simp: txn_ok_def)
qed

lemma txn_grows:
  assumes "txn_ok st0 st" "cr_ok (st_key st)" "ofold (txn_exec i) ops st = Some st'"
  shows "\<exists>new. grows st st' new"
  using assms
proof (induction ops arbitrary: st)
  case Nil
  then show ?case using grows_refl by auto
next
  case (Cons op ops)
  then obtain st1 where s: "txn_exec i op st = Some st1" "ofold (txn_exec i) ops st1 = Some st'" by (auto simp: bind_eq_Some_conv)
  from txn_exec_grows [OF Cons.prems(1,2) s(1)] obtain a where a: "grows st st1 a" by blast
  then have "cr_ok (st_key st1)" using Cons.prems(2) by (simp add: grows_def)
  with Cons.IH [OF txn_ok_exec [OF Cons.prems(1) s(1)] this s(2)] obtain b where "grows st1 st' b" by blast
  with a show ?case using grows_trans by blast
qed

section \<open>Events of the bucket\<close>

definition ent_event :: "rkey \<times> KeyValue \<Rightarrow> event" where
  "ent_event x = (if snd (fst x) then \<lparr>we_Type = DELETE, we_Kv = (snd x)\<lparr>kv_ModRevision := rmain (fst (fst x))\<rparr>\<rparr>
     else \<lparr>we_Type = PUT, we_Kv = snd x\<rparr>)"

text \<open>The changes from one revision to another that concern some keys, oldest first.\<close>

definition st_events :: "store \<Rightarrow> int \<Rightarrow> int \<Rightarrow> (bytes \<Rightarrow> bool) \<Rightarrow> event list" where
  "st_events st lo hi P =
     map ent_event (filter (\<lambda>x. lo \<le> rmain (fst (fst x)) \<and> rmain (fst (fst x)) \<le> hi \<and> P (kv_Key (snd x))) (st_key st))"

lemma ent_event_key [simp]: "we_key (ent_event x) = kv_Key (snd x)"
  by (simp add: ent_event_def)

lemma ent_event_rev: "entry_ok nr x \<Longrightarrow> we_rev (ent_event x) = rmain (fst (fst x))"
  by (simp add: ent_event_def entry_ok_def)

lemma change_events:
  assumes "cr_ok new" "\<forall>x \<in> set new. rmain (fst (fst x)) = rv"
  shows "map (change_event rv) (map snd new) = map ent_event new"
  using assms by (auto simp: change_event_def ent_event_def cr_ok_def)

lemma kvsToEvents_map: "kvsToEvents wg es = map ent_event (filter (\<lambda>x. wg_contains (kv_Key (snd x)) wg) es)"
  unfolding kvsToEvents_def by (auto simp: ent_event_def case_prod_beta intro!: map_cong filter_cong)

lemma filter_sorted_split:
  fixes g :: "'a \<Rightarrow> int"
  assumes "sorted (map g xs)"
  shows "filter Q xs = filter (\<lambda>x. g x \<le> m \<and> Q x) xs @ filter (\<lambda>x. m < g x \<and> Q x) xs"
  using assms
proof (induction xs)
  case (Cons x xs)
  show ?case
  proof (cases "g x \<le> m")
    case True
    then show ?thesis using Cons by auto
  next
    case False
    then have "filter (\<lambda>x. g x \<le> m \<and> Q x) (x # xs) = []" using Cons.prems by (auto simp: filter_empty_conv)
    moreover have "filter (\<lambda>x. m < g x \<and> Q x) (x # xs) = filter Q (x # xs)" using Cons.prems False by (auto intro!: filter_cong)
    ultimately show ?thesis by simp
  qed
qed simp

lemma bk_mains: "bk_ok b \<Longrightarrow> sorted (map (\<lambda>x. rmain (fst (fst x))) b)"
  unfolding bk_ok_def sorted_map by (rule sorted_wrt_mono_rel) (auto simp: less_revision_def)

lemma events_split:
  assumes "bk_ok (st_key st)" "m \<le> hi" "lo \<le> m + 1"
  shows "st_events st lo hi P = st_events st lo m P @ st_events st (m + 1) hi P"
proof -
  have a: "filter (\<lambda>x. lo \<le> rmain (fst (fst x)) \<and> rmain (fst (fst x)) \<le> hi \<and> P (kv_Key (snd x))) (st_key st) =
    filter (\<lambda>x. lo \<le> rmain (fst (fst x)) \<and> rmain (fst (fst x)) \<le> m \<and> P (kv_Key (snd x))) (st_key st) @
    filter (\<lambda>x. m + 1 \<le> rmain (fst (fst x)) \<and> rmain (fst (fst x)) \<le> hi \<and> P (kv_Key (snd x))) (st_key st)"
    unfolding filter_sorted_split [OF bk_mains [OF assms(1)], of "\<lambda>x. lo \<le> rmain (fst (fst x)) \<and> rmain (fst (fst x)) \<le> hi \<and> P (kv_Key (snd x))" m]
    using assms(2,3) by (intro arg_cong2 [of _ _ _ _ "(@)"] filter_cong) auto
  then show ?thesis by (simp only: st_events_def map_append)
qed

lemma events_empty: "hi < lo \<Longrightarrow> st_events st lo hi P = []"
  by (auto simp: st_events_def filter_empty_conv)

lemma events_revs:
  assumes "\<forall>x \<in> set (st_key st). entry_ok nr x" "bk_ok (st_key st)"
  shows "sorted (map we_rev (st_events st lo hi P))" "\<forall>ev \<in> set (st_events st lo hi P). 0 < we_rev ev \<and> lo \<le> we_rev ev \<and> we_rev ev \<le> hi"
    "filter (\<lambda>ev. we_rev ev < m) (st_events st lo hi P) = st_events st lo (min hi (m - 1)) P"
proof -
  let ?F = "filter (\<lambda>x. lo \<le> rmain (fst (fst x)) \<and> rmain (fst (fst x)) \<le> hi \<and> P (kv_Key (snd x))) (st_key st)"
  have e: "we_rev (ent_event x) = rmain (fst (fst x))" "2 \<le> rmain (fst (fst x))" if "x \<in> set (st_key st)" for x
    using ent_event_rev [of nr x] assms(1) that by (simp_all add: entry_ok_def)
  have "map we_rev (st_events st lo hi P) = map (\<lambda>x. rmain (fst (fst x))) ?F" using e(1) by (auto simp: st_events_def)
  moreover have "sorted (map (\<lambda>x. rmain (fst (fst x))) ?F)" using bk_mains [OF assms(2)] by (rule sorted_filter)
  ultimately show "sorted (map we_rev (st_events st lo hi P))" by simp
  show "\<forall>ev \<in> set (st_events st lo hi P). 0 < we_rev ev \<and> lo \<le> we_rev ev \<and> we_rev ev \<le> hi" using e by (force simp: st_events_def)
  show "filter (\<lambda>ev. we_rev ev < m) (st_events st lo hi P) = st_events st lo (min hi (m - 1)) P"
    unfolding st_events_def filter_map filter_filter o_def using e(1) by (intro arg_cong [of _ _ "map ent_event"] filter_cong) auto
qed

end
