(* ===== verification/Mvcc_Watch_Run.thy ===== *)
theory Mvcc_Watch_Run
  imports Mvcc_Watch_Grow "HOL-Library.Multiset"
begin

text \<open>
  The invariant of the watchable store and what its loops over the watchers do to each of them.
  No loop panics, and every watcher is looked at alone: what happens to the others does not matter.
\<close>

section \<open>The invariant\<close>

abbreviation unsynced :: "watchableStore \<Rightarrow> nat set" where
  "unsynced ws \<equiv> set (wg_watchers (w_unsynced ws))"

abbreviation synced :: "watchableStore \<Rightarrow> nat set" where
  "synced ws \<equiv> set (wg_watchers (w_synced ws))"

text \<open>The events in the responses with an identifier.\<close>

definition got :: "int \<Rightarrow> WatchResponse list \<Rightarrow> event list" where
  "got i rs = concat (map wr_Events (filter (\<lambda>r. wr_WatchID r = i) rs))"

definition w_got :: "nat \<Rightarrow> watchableStore \<Rightarrow> event list" where
  "w_got a ws = got (wa_id (w_heap ws a)) (ws_sent (w_streams ws (wa_ch (w_heap ws a))))"

definition w_ids :: "watchableStore \<Rightarrow> bool" where
  "w_ids ws \<longleftrightarrow> (\<forall>a \<in> unsynced ws \<union> synced ws. a < w_next ws) \<and>
     (\<forall>a < w_next ws. wa_ch (w_heap ws a) < w_nstreams ws \<and> wa_id (w_heap ws a) < ws_nextID (w_streams ws (wa_ch (w_heap ws a)))) \<and>
     (\<forall>a < w_next ws. \<forall>b < w_next ws. wa_ch (w_heap ws a) = wa_ch (w_heap ws b) \<and> wa_id (w_heap ws a) = wa_id (w_heap ws b) \<longrightarrow> a = b) \<and>
     (\<forall>c. \<forall>r \<in> set (ws_sent (w_streams ws c)). wr_WatchID r < ws_nextID (w_streams ws c)) \<and>
     (\<forall>a \<in> unsynced ws \<union> synced ws. \<not> ws_closed (w_streams ws (wa_ch (w_heap ws a))) \<and>
        map_of (ws_cancels (w_streams ws (wa_ch (w_heap ws a)))) (wa_id (w_heap ws a)) = Some a)"

definition w_inv :: "watchableStore \<Rightarrow> bool" where
  "w_inv ws \<longleftrightarrow> st_ok (w_store ws) \<and> cr_ok (st_key (w_store ws)) \<and> st_changes (w_store ws) = [] \<and>
     wg_inv (w_heap ws) (w_unsynced ws) \<and> wg_inv (w_heap ws) (w_synced ws) \<and> unsynced ws \<inter> synced ws = {} \<and>
     (\<forall>a \<in> unsynced ws. wa_cur (w_heap ws a) \<le> st_Rev (w_store ws)) \<and> w_ids ws"

text \<open>What concerns one watcher.\<close>

type_synonym lview = "store \<times> watcher \<times> bool \<times> bool \<times> event list"

definition lv :: "nat \<Rightarrow> watchableStore \<Rightarrow> lview" where
  "lv a ws = (w_store ws, w_heap ws a, a \<in> unsynced ws, a \<in> synced ws, w_got a ws)"

lemma got_append [simp]: "got i (rs @ [r]) = (if wr_WatchID r = i then got i rs @ wr_Events r else got i rs)"
  by (simp add: got_def)

lemma w_inv_member: "w_inv ws \<Longrightarrow> a \<in> unsynced ws \<or> a \<in> synced ws \<Longrightarrow> a < w_next ws"
  by (auto simp: w_inv_def w_ids_def)

lemma send_ok:
  assumes inv: "w_inv ws" and a: "a \<in> unsynced ws \<or> a \<in> synced ws" and r: "wr_WatchID r = wa_id (w_heap ws a)"
  shows "\<exists>b ws'. w_send (wa_ch (w_heap ws a)) r ws = Some (b, ws') \<and> w_inv ws' \<and> w_next ws' = w_next ws \<and> w_nstreams ws' = w_nstreams ws \<and>
    w_store ws' = w_store ws \<and> w_heap ws' = w_heap ws \<and> w_unsynced ws' = w_unsynced ws \<and> w_synced ws' = w_synced ws \<and>
    (\<forall>x < w_next ws. x \<noteq> a \<longrightarrow> lv x ws' = lv x ws) \<and>
    w_got a ws' = (if b then w_got a ws @ wr_Events r else w_got a ws) \<and>
    b = (\<not> ch_full (w_streams ws (wa_ch (w_heap ws a))))"
proof -
  let ?c = "wa_ch (w_heap ws a)"
  let ?ws = "upd_stream ?c (\<lambda>s. s\<lparr>ws_sent := ws_sent s @ [r]\<rparr>) ws"
  have an: "a < w_next ws" by (rule w_inv_member [OF inv a])
  have ids: "w_ids ws" using inv by (simp add: w_inv_def)
  have nc: "\<not> ws_closed (w_streams ws ?c)" using ids a by (auto simp: w_ids_def)
  show ?thesis
  proof (cases "ch_full (w_streams ws ?c)")
    case True
    then show ?thesis using inv nc by (intro exI [of _ False] exI [of _ ws]) (simp add: w_send_def)
  next
    case False
    have i: "wr_WatchID r < ws_nextID (w_streams ws ?c)" using ids an r by (simp add: w_ids_def)
    have sel: "\<And>c. ws_nextID (w_streams ?ws c) = ws_nextID (w_streams ws c)" "\<And>c. ws_closed (w_streams ?ws c) = ws_closed (w_streams ws c)"
      "\<And>c. ws_cancels (w_streams ?ws c) = ws_cancels (w_streams ws c)" "w_heap ?ws = w_heap ws" "w_next ?ws = w_next ws"
      "w_nstreams ?ws = w_nstreams ws" "w_unsynced ?ws = w_unsynced ws" "w_synced ?ws = w_synced ws"
      by (simp_all add: upd_stream_def)
    have "\<forall>q \<in> set (ws_sent (w_streams ?ws c)). wr_WatchID q < ws_nextID (w_streams ws c)" for c
      using ids i by (auto simp: w_ids_def upd_stream_def)
    then have "w_ids ?ws" using ids unfolding w_ids_def sel by blast
    then have "w_inv ?ws" using inv by (simp add: w_inv_def upd_stream_def)
    moreover have "w_got x ?ws = w_got x ws" if "x < w_next ws" "x \<noteq> a" for x
    proof -
      have "\<not> (wa_ch (w_heap ws x) = ?c \<and> wa_id (w_heap ws x) = wa_id (w_heap ws a))" using ids that an unfolding w_ids_def by blast
      then show ?thesis using r by (auto simp: w_got_def upd_stream_def)
    qed
    moreover have "w_got a ?ws = w_got a ws @ wr_Events r" using r by (simp add: w_got_def upd_stream_def)
    ultimately show ?thesis using nc False by (intro exI [of _ True] exI [of _ ?ws]) (simp add: w_send_def lv_def upd_stream_def)
  qed
qed

lemma setCur_sel [simp]:
  "w_store (w_setCur a r ws) = w_store ws" "w_unsynced (w_setCur a r ws) = w_unsynced ws" "w_synced (w_setCur a r ws) = w_synced ws"
  "w_streams (w_setCur a r ws) = w_streams ws" "w_next (w_setCur a r ws) = w_next ws" "w_nstreams (w_setCur a r ws) = w_nstreams ws"
  "w_heap (w_setCur a r ws) = (w_heap ws)(a := (w_heap ws a)\<lparr>wa_cur := r\<rparr>)"
  by (simp_all add: w_setCur_def)

lemma setCur_got [simp]: "w_got x (w_setCur a r ws) = w_got x ws"
  by (simp add: w_got_def)

lemma setCur_wg: "wg_inv h g \<Longrightarrow> wg_inv (h(a := (h a)\<lparr>wa_cur := r\<rparr>)) g"
  by (erule wg_inv_frame) simp

lemma w_ids_frame:
  assumes "w_ids ws" "unsynced ws' \<union> synced ws' \<subseteq> unsynced ws \<union> synced ws" "w_next ws' = w_next ws" "w_nstreams ws' = w_nstreams ws"
    "w_streams ws' = w_streams ws" "\<And>x. wa_ch (w_heap ws' x) = wa_ch (w_heap ws x)" "\<And>x. wa_id (w_heap ws' x) = wa_id (w_heap ws x)"
  shows "w_ids ws'"
  using assms(1,2) unfolding w_ids_def assms(3-7) by blast

lemma toSynced_ok:
  assumes inv: "w_inv ws" and a: "a \<in> unsynced ws"
  shows "\<exists>ws'. w_toSynced a (w_setCur a r ws) = Some ws' \<and> w_inv ws' \<and> w_next ws' = w_next ws \<and>
    (\<forall>x < w_next ws. x \<noteq> a \<longrightarrow> lv x ws' = lv x ws) \<and> lv a ws' = (w_store ws, (w_heap ws a)\<lparr>wa_cur := r\<rparr>, False, True, w_got a ws)"
proof -
  let ?w = "w_setCur a r ws"
  have g: "wg_inv (w_heap ?w) (w_unsynced ws)" "wg_inv (w_heap ?w) (w_synced ws)" and s: "a \<notin> synced ws"
    using inv a by (auto simp: w_inv_def intro: setCur_wg)
  from wg_add_ok [OF g(2) s] obtain g' where add: "wg_add (w_heap ?w) a (w_synced ws) = Some g'" "wg_inv (w_heap ?w) g'"
    "set (wg_watchers g') = insert a (synced ws)" by blast
  from wg_delete_ok [OF g(1), of a] obtain b u' where del: "wg_delete (w_heap ?w) a (w_unsynced ws) = Some (b, u')" "wg_inv (w_heap ?w) u'"
    "set (wg_watchers u') = unsynced ws - {a}" by blast
  let ?ws = "?w\<lparr>w_synced := g', w_unsynced := u'\<rparr>"
  have "w_toSynced a ?w = Some ?ws" using add(1) del(1) by (simp add: w_toSynced_def)
  moreover have ids: "w_ids ws" using inv by (simp add: w_inv_def)
  have "w_ids ?ws" by (rule w_ids_frame [OF ids]) (use a add(3) del(3) in auto)
  then have "w_inv ?ws" using inv a add(2,3) del(2,3) unfolding w_inv_def by auto
  moreover have "w_got x ?ws = w_got x ws" for x by (simp add: w_got_def)
  ultimately show ?thesis using add(3) del(3) a by (intro exI [of _ ?ws]) (auto simp: lv_def)
qed

lemma toUnsynced_ok:
  assumes inv: "w_inv ws" and a: "a \<in> synced ws" and r: "r \<le> st_Rev (w_store ws)"
  shows "\<exists>ws'. w_toUnsynced a (w_setCur a r ws) = Some ws' \<and> w_inv ws' \<and> w_next ws' = w_next ws \<and>
    (\<forall>x < w_next ws. x \<noteq> a \<longrightarrow> lv x ws' = lv x ws) \<and> lv a ws' = (w_store ws, (w_heap ws a)\<lparr>wa_cur := r\<rparr>, True, False, w_got a ws)"
proof -
  let ?w = "w_setCur a r ws"
  have g: "wg_inv (w_heap ?w) (w_unsynced ws)" "wg_inv (w_heap ?w) (w_synced ws)" and s: "a \<notin> unsynced ws"
    using inv a by (auto simp: w_inv_def intro: setCur_wg)
  from wg_add_ok [OF g(1) s] obtain u' where add: "wg_add (w_heap ?w) a (w_unsynced ws) = Some u'" "wg_inv (w_heap ?w) u'"
    "set (wg_watchers u') = insert a (unsynced ws)" by blast
  from wg_delete_ok [OF g(2), of a] obtain b g' where del: "wg_delete (w_heap ?w) a (w_synced ws) = Some (b, g')" "wg_inv (w_heap ?w) g'"
    "set (wg_watchers g') = synced ws - {a}" by blast
  let ?ws = "?w\<lparr>w_unsynced := u', w_synced := g'\<rparr>"
  have "w_toUnsynced a ?w = Some ?ws" using add(1) del(1) by (simp add: w_toUnsynced_def)
  moreover have ids: "w_ids ws" using inv by (simp add: w_inv_def)
  have "w_ids ?ws" by (rule w_ids_frame [OF ids]) (use a add(3) del(3) in auto)
  then have "w_inv ?ws" using inv a r add(2,3) del(2,3) unfolding w_inv_def by auto
  moreover have "w_got x ?ws = w_got x ws" for x by (simp add: w_got_def)
  ultimately show ?thesis using add(3) del(3) a by (intro exI [of _ ?ws]) (auto simp: lv_def)
qed

section \<open>Loops\<close>

definition ord_ok :: "(nat list \<Rightarrow> nat list) \<Rightarrow> bool" where
  "ord_ok ord \<longleftrightarrow> (\<forall>xs. mset (ord xs) = mset xs)"

lemma ord_okD: "ord_ok ord \<Longrightarrow> distinct xs \<Longrightarrow> distinct (ord xs) \<and> set (ord xs) = set xs"
  by (metis ord_ok_def mset_eq_imp_distinct_iff mset_eq_setD)

text \<open>A loop over distinct watchers, each step of which concerns only its watcher.\<close>

lemma loop_ok:
  fixes p :: "'s \<Rightarrow> watchableStore"
  assumes step: "\<And>x s. w_inv (p s) \<Longrightarrow> w_next (p s) = N \<Longrightarrow> x < N \<Longrightarrow> P x (lv x (p s)) \<Longrightarrow>
      \<exists>s'. f x s = Some s' \<and> w_inv (p s') \<and> w_next (p s') = N \<and> (\<forall>y < N. y \<noteq> x \<longrightarrow> lv y (p s') = lv y (p s)) \<and> Q x (lv x (p s)) (lv x (p s'))"
    and xs: "distinct xs" "\<forall>x \<in> set xs. x < N \<and> P x (lv x (p s))" and inv: "w_inv (p s)" "w_next (p s) = N"
  shows "\<exists>s'. ofold f xs s = Some s' \<and> w_inv (p s') \<and> w_next (p s') = N \<and>
    (\<forall>y < N. if y \<in> set xs then Q y (lv y (p s)) (lv y (p s')) else lv y (p s') = lv y (p s))"
  using xs inv
proof (induction xs arbitrary: s)
  case (Cons x xs)
  then have "x < N" "P x (lv x (p s))" by auto
  from step [OF Cons.prems(3,4) this] obtain s1 where
    s1: "f x s = Some s1" "w_inv (p s1)" "w_next (p s1) = N" "\<forall>y < N. y \<noteq> x \<longrightarrow> lv y (p s1) = lv y (p s)" "Q x (lv x (p s)) (lv x (p s1))" by blast
  have "\<forall>y \<in> set xs. y < N \<and> P y (lv y (p s1))" using Cons.prems(1,2) s1(4) by auto
  from Cons.IH [OF _ this s1(2,3)] Cons.prems(1) obtain s' where
    s': "ofold f xs s1 = Some s'" "w_inv (p s')" "w_next (p s') = N"
    "\<forall>y < N. if y \<in> set xs then Q y (lv y (p s1)) (lv y (p s')) else lv y (p s') = lv y (p s1)" by auto
  have "if y \<in> set (x # xs) then Q y (lv y (p s)) (lv y (p s')) else lv y (p s') = lv y (p s)" if "y < N" for y
    using s'(4) [rule_format, OF that] s1(4,5) Cons.prems(1) that by (auto split: if_splits)
  then show ?case using s1(1) s'(1-3) by auto
qed auto

section \<open>Notification\<close>

definition notified :: "int \<Rightarrow> event list \<Rightarrow> lview \<Rightarrow> lview \<Rightarrow> bool" where
  "notified rv es l l' \<longleftrightarrow> (case l of (st, w, u, s, g) \<Rightarrow> l' = (st, w, u, s, g @ es) \<or> l' = (st, w\<lparr>wa_cur := rv\<rparr>, True, False, g))"

lemma notify_one_ok:
  assumes inv: "w_inv ws" "w_next ws = N" and x: "x < N" and s: "x \<in> synced ws" and rv: "rv \<le> st_Rev (w_store ws)"
    and eb: "map_of wb x = Some eb" "eb_revs eb = 1"
  shows "\<exists>ws'. notify_one rv wb x ws = Some ws' \<and> w_inv ws' \<and> w_next ws' = N \<and> (\<forall>y < N. y \<noteq> x \<longrightarrow> lv y ws' = lv y ws) \<and>
    notified rv (eb_evs eb) (lv x ws) (lv x ws')"
proof -
  let ?r = "\<lparr>wr_WatchID = wa_id (w_heap ws x), wr_Events = eb_evs eb, wr_Revision = st_Rev (w_store ws), wr_CompactRevision = 0\<rparr>"
  from send_ok [OF inv(1) disjI2 [OF s], of ?r] obtain b ws1 where
    snd: "w_send (wa_ch (w_heap ws x)) ?r ws = Some (b, ws1)" "w_inv ws1" "w_next ws1 = N" "w_store ws1 = w_store ws" "w_heap ws1 = w_heap ws"
    "w_unsynced ws1 = w_unsynced ws" "w_synced ws1 = w_synced ws" "\<forall>y < N. y \<noteq> x \<longrightarrow> lv y ws1 = lv y ws"
    "w_got x ws1 = (if b then w_got x ws @ eb_evs eb else w_got x ws)" using inv(2) by auto
  show ?thesis
  proof (cases b)
    case True
    then have "notify_one rv wb x ws = Some ws1" using eb snd(1) by (simp add: notify_one_def Let_def)
    moreover have "notified rv (eb_evs eb) (lv x ws) (lv x ws1)" using snd True by (simp add: notified_def lv_def)
    ultimately show ?thesis using snd by blast
  next
    case False
    then have n: "notify_one rv wb x ws = w_toUnsynced x (w_setCur x rv ws1)" using eb snd(1) by (simp add: notify_one_def Let_def)
    from toUnsynced_ok [OF snd(2), of x rv] s rv snd(3,4,7) obtain ws' where
      t: "w_toUnsynced x (w_setCur x rv ws1) = Some ws'" "w_inv ws'" "w_next ws' = N" "\<forall>y < N. y \<noteq> x \<longrightarrow> lv y ws' = lv y ws1"
      "lv x ws' = (w_store ws1, (w_heap ws1 x)\<lparr>wa_cur := rv\<rparr>, True, False, w_got x ws1)" by auto
    have "notified rv (eb_evs eb) (lv x ws) (lv x ws')" using t(5) snd False by (simp add: notified_def lv_def)
    with n t snd(8) show ?thesis by auto
  qed
qed

lemma notify_ok:
  assumes inv: "w_inv ws" and ord: "ord_ok ord" and rv: "rv \<le> st_Rev (w_store ws)" and evs: "\<forall>ev \<in> set evs. we_rev ev = rv"
  shows "\<exists>ws'. w_notify ord rv evs ws = Some ws' \<and> w_inv ws' \<and> w_next ws' = w_next ws \<and>
    (\<forall>a < w_next ws. let es = mine (w_heap ws) (synced ws) a evs in if es = [] then lv a ws' = lv a ws else notified rv es (lv a ws) (lv a ws'))"
proof -
  let ?N = "w_next ws" and ?m = "\<lambda>a. mine (w_heap ws) (synced ws) a evs"
  have "wg_inv (w_heap ws) (w_synced ws)" using inv by (simp add: w_inv_def)
  from newWatcherBatch_ok [OF this, of evs] obtain wb where
    wb: "newWatcherBatch (w_heap ws) (w_synced ws) evs = Some wb" "distinct (map fst wb)" "\<And>a. map_of wb a = wb_of (?m a)" by blast
  have o: "distinct (ord (map fst wb))" "set (ord (map fst wb)) = set (map fst wb)" using ord_okD [OF ord wb(2)] by auto
  have dom: "a \<in> set (map fst wb) \<longleftrightarrow> ?m a \<noteq> []" for a
    using wb(3) [of a] map_of_eq_None_iff [of wb a] by (auto simp: wb_of_def split: if_splits)
  have eb: "map_of wb a = Some (fold eb_add (?m a) eb_zero)" "eb_revs (fold eb_add (?m a) eb_zero) = 1" "eb_evs (fold eb_add (?m a) eb_zero) = ?m a"
    "a \<in> synced ws" if "?m a \<noteq> []" for a
  proof -
    have "\<forall>ev \<in> set (?m a). we_rev ev = rv" using evs by (auto simp: mine_def)
    from batch_single [OF that this] show "map_of wb a = Some (fold eb_add (?m a) eb_zero)" "eb_revs (fold eb_add (?m a) eb_zero) = 1"
      "eb_evs (fold eb_add (?m a) eb_zero) = ?m a" using wb(3) that by (auto simp: wb_of_def)
    show "a \<in> synced ws" using that by (auto simp: mine_def filter_empty_conv)
  qed
  let ?P = "\<lambda>a (l :: lview). ?m a \<noteq> [] \<and> (case l of (st, w, u, s, g) \<Rightarrow> s \<and> rv \<le> st_Rev st)"
  let ?Q = "\<lambda>a. notified rv (?m a)"
  have st: "\<exists>s'. notify_one rv wb x s = Some s' \<and> w_inv s' \<and> w_next s' = ?N \<and> (\<forall>y < ?N. y \<noteq> x \<longrightarrow> lv y s' = lv y s) \<and> ?Q x (lv x s) (lv x s')"
    if "w_inv s" "w_next s = ?N" "x < ?N" "?P x (lv x s)" for x s
    using notify_one_ok [OF that(1-3), of rv wb "fold eb_add (?m x) eb_zero"] that(4) eb [of x] by (simp add: lv_def)
  have P: "\<forall>a \<in> set (ord (map fst wb)). a < ?N \<and> ?P a (lv a ws)"
    using o(2) dom eb(4) rv w_inv_member [OF inv] by (auto simp: lv_def)
  from loop_ok [of "\<lambda>ws. ws" ?N ?P "notify_one rv wb" ?Q, OF st o(1) P inv] obtain ws' where
    "ofold (notify_one rv wb) (ord (map fst wb)) ws = Some ws'" "w_inv ws'" "w_next ws' = ?N"
    "\<forall>y < ?N. if y \<in> set (ord (map fst wb)) then ?Q y (lv y ws) (lv y ws') else lv y ws' = lv y ws" by auto
  then show ?thesis unfolding w_notify_def wb(1) o(2) dom Let_def by auto
qed

end
