(* ===== verification/Mvcc_Watch_Sync.thy ===== *)
theory Mvcc_Watch_Sync
  imports Mvcc_Watch_Run
begin

text \<open>
  Synchronising the watchers that are behind: each gets the events from its revision on, at most
  a thousand revisions at a time, and joins the synced ones when nothing is left.
\<close>

section \<open>Changing one watcher\<close>

lemma dropU_ok:
  assumes inv: "w_inv ws"
  shows "\<exists>b u'. wg_delete (w_heap ws) a (w_unsynced ws) = Some (b, u') \<and> (b \<longrightarrow> a \<in> unsynced ws) \<and> w_inv (ws\<lparr>w_unsynced := u'\<rparr>) \<and>
    (\<forall>x. x \<noteq> a \<longrightarrow> lv x (ws\<lparr>w_unsynced := u'\<rparr>) = lv x ws) \<and>
    lv a (ws\<lparr>w_unsynced := u'\<rparr>) = (w_store ws, w_heap ws a, False, a \<in> synced ws, w_got a ws)"
proof -
  have "wg_inv (w_heap ws) (w_unsynced ws)" using inv by (simp add: w_inv_def)
  from wg_delete_ok [OF this, of a] obtain b u' where d: "wg_delete (w_heap ws) a (w_unsynced ws) = Some (b, u')" "wg_inv (w_heap ws) u'"
    "set (wg_watchers u') = unsynced ws - {a}" "b \<longrightarrow> a \<in> unsynced ws" by blast
  let ?ws = "ws\<lparr>w_unsynced := u'\<rparr>"
  have ids: "w_ids ws" using inv by (simp add: w_inv_def)
  have "w_ids ?ws" by (rule w_ids_frame [OF ids]) (use d(3) in auto)
  then have "w_inv ?ws" using inv d(2,3) unfolding w_inv_def by auto
  then show ?thesis using d by (auto simp: lv_def w_got_def)
qed

lemma dropS_ok:
  assumes inv: "w_inv ws"
  shows "\<exists>b g'. wg_delete (w_heap ws) a (w_synced ws) = Some (b, g') \<and> w_inv (ws\<lparr>w_synced := g'\<rparr>) \<and>
    (\<forall>x. x \<noteq> a \<longrightarrow> lv x (ws\<lparr>w_synced := g'\<rparr>) = lv x ws) \<and>
    lv a (ws\<lparr>w_synced := g'\<rparr>) = (w_store ws, w_heap ws a, a \<in> unsynced ws, False, w_got a ws)"
proof -
  have "wg_inv (w_heap ws) (w_synced ws)" using inv by (simp add: w_inv_def)
  from wg_delete_ok [OF this, of a] obtain b g' where d: "wg_delete (w_heap ws) a (w_synced ws) = Some (b, g')" "wg_inv (w_heap ws) g'"
    "set (wg_watchers g') = synced ws - {a}" by blast
  let ?ws = "ws\<lparr>w_synced := g'\<rparr>"
  have ids: "w_ids ws" using inv by (simp add: w_inv_def)
  have "w_ids ?ws" by (rule w_ids_frame [OF ids]) (use d(3) in auto)
  then have "w_inv ?ws" using inv d(2,3) unfolding w_inv_def by auto
  then show ?thesis using d by (auto simp: lv_def w_got_def)
qed

lemma setCurU_ok:
  assumes inv: "w_inv ws" and r: "r \<le> st_Rev (w_store ws)"
  shows "w_inv (w_setCur a r ws) \<and> (\<forall>x. x \<noteq> a \<longrightarrow> lv x (w_setCur a r ws) = lv x ws) \<and>
    lv a (w_setCur a r ws) = (w_store ws, (w_heap ws a)\<lparr>wa_cur := r\<rparr>, a \<in> unsynced ws, a \<in> synced ws, w_got a ws)"
proof -
  have ids: "w_ids ws" using inv by (simp add: w_inv_def)
  have "w_ids (w_setCur a r ws)" by (rule w_ids_frame [OF ids]) auto
  then have "w_inv (w_setCur a r ws)" using inv r unfolding w_inv_def by (auto intro: setCur_wg)
  then show ?thesis by (auto simp: lv_def)
qed

section \<open>The scan for the smallest revision\<close>

definition scanned :: "int \<Rightarrow> lview \<Rightarrow> lview \<Rightarrow> bool" where
  "scanned C l l' \<longleftrightarrow> (case l of (st, w, u, s, g) \<Rightarrow> l' = l \<or> wa_cur w < C \<and> l' = (st, w, False, s, g))"

lemma scan_one_ok:
  assumes inv: "w_inv ws" "w_next ws = N" and u: "x \<in> unsynced ws" and cr: "cr = st_Rev (w_store ws)"
  shows "\<exists>ws' m'. scan_one cr C x (ws, m) = Some (ws', m') \<and> w_inv ws' \<and> w_next ws' = N \<and> (\<forall>y < N. y \<noteq> x \<longrightarrow> lv y ws' = lv y ws) \<and>
    scanned C (lv x ws) (lv x ws')"
proof (cases "wa_cur (w_heap ws x) < C")
  case False
  moreover have "\<not> cr < wa_cur (w_heap ws x)" using inv(1) u cr by (auto simp: w_inv_def)
  ultimately show ?thesis using inv by (auto simp: scan_one_def scanned_def lv_def Let_def)
next
  case True
  have le: "\<not> cr < wa_cur (w_heap ws x)" using inv(1) u cr by (auto simp: w_inv_def)
  let ?r = "\<lparr>wr_WatchID = wa_id (w_heap ws x), wr_Events = [], wr_Revision = 0, wr_CompactRevision = C\<rparr>"
  from send_ok [OF inv(1) disjI1 [OF u], of ?r] obtain b ws1 where
    snd: "w_send (wa_ch (w_heap ws x)) ?r ws = Some (b, ws1)" "w_inv ws1" "w_next ws1 = N" "w_store ws1 = w_store ws" "w_heap ws1 = w_heap ws"
    "w_unsynced ws1 = w_unsynced ws" "w_synced ws1 = w_synced ws" "\<forall>y < N. y \<noteq> x \<longrightarrow> lv y ws1 = lv y ws"
    "w_got x ws1 = w_got x ws" using inv(2) by auto
  from dropU_ok [OF snd(2), of x] obtain b' u' where
    d: "wg_delete (w_heap ws1) x (w_unsynced ws1) = Some (b', u')" "w_inv (ws1\<lparr>w_unsynced := u'\<rparr>)"
    "\<forall>y. y \<noteq> x \<longrightarrow> lv y (ws1\<lparr>w_unsynced := u'\<rparr>) = lv y ws1"
    "lv x (ws1\<lparr>w_unsynced := u'\<rparr>) = (w_store ws1, w_heap ws1 x, False, x \<in> synced ws1, w_got x ws1)" by blast
  show ?thesis
  proof (cases b)
    case b: True
    then have "scan_one cr C x (ws, m) = Some (ws1\<lparr>w_unsynced := u'\<rparr>, m)" using True le snd(1) d(1) by (simp add: scan_one_def Let_def)
    moreover have "scanned C (lv x ws) (lv x (ws1\<lparr>w_unsynced := u'\<rparr>))" unfolding d(4) using snd True by (simp add: scanned_def lv_def)
    ultimately show ?thesis using d snd by auto
  next
    case False
    then have "scan_one cr C x (ws, m) = Some (ws1, m)" using True le snd(1) by (simp add: scan_one_def Let_def)
    moreover have "scanned C (lv x ws) (lv x ws1)" using snd by (simp add: scanned_def lv_def)
    ultimately show ?thesis using snd by auto
  qed
qed

lemma send_heap: "w_send c r ws = Some (b, ws') \<Longrightarrow> w_heap ws' = w_heap ws"
  by (auto simp: w_send_def upd_stream_def split: if_splits)

lemma scan_min:
  "ofold (scan_one cr C) xs (ws, m) = Some (ws', m') \<Longrightarrow>
    w_heap ws' = w_heap ws \<and> m' \<le> m \<and> (\<forall>x \<in> set xs. C \<le> wa_cur (w_heap ws x) \<longrightarrow> m' \<le> wa_cur (w_heap ws x))"
proof (induction xs arbitrary: ws m)
  case (Cons x xs)
  then obtain ws1 m1 where s: "scan_one cr C x (ws, m) = Some (ws1, m1)" "ofold (scan_one cr C) xs (ws1, m1) = Some (ws', m')"
    by (auto simp: bind_eq_Some_conv)
  have "w_heap ws1 = w_heap ws" "m1 \<le> m" "C \<le> wa_cur (w_heap ws x) \<Longrightarrow> m1 \<le> wa_cur (w_heap ws x)"
    using s(1) send_heap by (auto simp: scan_one_def Let_def bind_eq_Some_conv split: if_splits)
  with Cons.IH [OF s(2)] show ?case by auto
qed simp

lemma scan_ok:
  assumes inv: "w_inv ws" and ord: "ord_ok ord" and cr: "cr = st_Rev (w_store ws)"
  shows "\<exists>ws' m. scanMinRev ord cr C ws = Some (ws', m) \<and> w_inv ws' \<and> w_next ws' = w_next ws \<and> w_heap ws' = w_heap ws \<and>
    (\<forall>a < w_next ws. if a \<in> unsynced ws then scanned C (lv a ws) (lv a ws') else lv a ws' = lv a ws) \<and>
    (\<forall>a \<in> unsynced ws. C \<le> wa_cur (w_heap ws a) \<longrightarrow> m \<le> wa_cur (w_heap ws a))"
proof -
  let ?N = "w_next ws" and ?xs = "ord (wg_watchers (w_unsynced ws))"
  have "distinct (wg_watchers (w_unsynced ws))" using inv by (simp add: w_inv_def wg_inv_def)
  then have o: "distinct ?xs" "set ?xs = unsynced ws" using ord_okD [OF ord] by auto
  let ?P = "\<lambda>(a :: nat) (l :: lview). case l of (st, w, u, s, g) \<Rightarrow> u \<and> cr = st_Rev st"
  have st: "\<exists>s'. scan_one cr C x s = Some s' \<and> w_inv (fst s') \<and> w_next (fst s') = ?N \<and> (\<forall>y < ?N. y \<noteq> x \<longrightarrow> lv y (fst s') = lv y (fst s)) \<and>
      scanned C (lv x (fst s)) (lv x (fst s'))"
    if "w_inv (fst s)" "w_next (fst s) = ?N" "x < ?N" "?P x (lv x (fst s))" for x s
    using scan_one_ok [OF that(1,2), of x cr C "snd s"] that(4) by (auto simp: lv_def)
  have P: "\<forall>a \<in> set ?xs. a < ?N \<and> ?P a (lv a (fst (ws, max_int64)))" using o(2) cr w_inv_member [OF inv] by (auto simp: lv_def)
  from loop_ok [of fst ?N ?P "scan_one cr C" "\<lambda>_. scanned C", OF st o(1) P, unfolded fst_conv] inv obtain s' where
    f: "ofold (scan_one cr C) ?xs (ws, max_int64) = Some s'" "w_inv (fst s')" "w_next (fst s') = ?N"
    "\<forall>y < ?N. if y \<in> set ?xs then scanned C (lv y ws) (lv y (fst s')) else lv y (fst s') = lv y ws" by blast
  from scan_min [of cr C ?xs ws max_int64 "fst s'" "snd s'"] f(1) o(2) have
    "w_heap (fst s') = w_heap ws" "\<forall>a \<in> unsynced ws. C \<le> wa_cur (w_heap ws a) \<longrightarrow> snd s' \<le> wa_cur (w_heap ws a)" by auto
  with f show ?thesis unfolding scanMinRev_def o(2) by (intro exI [of _ "fst s'"] exI [of _ "snd s'"]) auto
qed

section \<open>Sending the missed events\<close>

definition caught_up :: "int \<Rightarrow> event list \<Rightarrow> lview \<Rightarrow> lview \<Rightarrow> bool" where
  "caught_up cr es l l' \<longleftrightarrow> (case l of (st, w, u, s, g) \<Rightarrow>
     l' = l \<or> (\<exists>m \<in> we_rev ` set es. l' = (st, w\<lparr>wa_cur := m\<rparr>, u, s, g @ filter (\<lambda>ev. we_rev ev < m) es)) \<or>
     l' = (st, w\<lparr>wa_cur := cr\<rparr>, False, True, g @ es))"

lemma sync_one_ok:
  assumes inv: "w_inv ws" "w_next ws = N" and u: "x \<in> unsynced ws" and cr: "cr = st_Rev (w_store ws)"
    and eb: "map_of wb x = Some (fold eb_add es eb_zero)" "es \<noteq> []" "sorted (map we_rev es)" "\<forall>ev \<in> set es. 0 < we_rev ev \<and> we_rev ev \<le> cr"
  shows "\<exists>ws'. sync_one cr wb x ws = Some ws' \<and> w_inv ws' \<and> w_next ws' = N \<and> (\<forall>y < N. y \<noteq> x \<longrightarrow> lv y ws' = lv y ws) \<and>
    caught_up cr es (lv x ws) (lv x ws')"
proof -
  define eb where "eb = fold eb_add es eb_zero"
  let ?r = "\<lparr>wr_WatchID = wa_id (w_heap ws x), wr_Events = eb_evs eb, wr_Revision = rmain (st_currentRev (w_store ws)), wr_CompactRevision = 0\<rparr>"
  from send_ok [OF inv(1) disjI1 [OF u], of ?r] obtain b ws1 where
    snd: "w_send (wa_ch (w_heap ws x)) ?r ws = Some (b, ws1)" "w_inv ws1" "w_next ws1 = N" "w_store ws1 = w_store ws" "w_heap ws1 = w_heap ws"
    "w_unsynced ws1 = w_unsynced ws" "w_synced ws1 = w_synced ws" "\<forall>y < N. y \<noteq> x \<longrightarrow> lv y ws1 = lv y ws"
    "w_got x ws1 = (if b then w_got x ws @ eb_evs eb else w_got x ws)" using inv(2) by auto
  have one: "sync_one cr wb x ws = (if \<not> b then Some ws1 else if eb_moreRev eb \<noteq> 0 then Some (w_setCur x (eb_moreRev eb) ws1)
      else w_toSynced x (w_setCur x cr ws1))"
    using eb(1) snd(1) by (simp add: sync_one_def Let_def eb_def)
  have spl: "(eb_moreRev eb = 0 \<and> eb_evs eb = es) \<or> (eb_moreRev eb \<in> we_rev ` set es \<and> eb_evs eb = filter (\<lambda>ev. we_rev ev < eb_moreRev eb) es)"
    using batch_split [OF eb(2,3)] eb(4) unfolding eb_def Let_def by blast
  show ?thesis
  proof (cases "b \<and> eb_moreRev eb = 0")
    case True
    have "0 \<notin> we_rev ` set es" using eb(4) by force
    then have e: "eb_evs eb = es" using spl True by auto
    from toSynced_ok [OF snd(2), of x cr] u snd(3,6) obtain ws' where
      t: "w_toSynced x (w_setCur x cr ws1) = Some ws'" "w_inv ws'" "w_next ws' = N" "\<forall>y < N. y \<noteq> x \<longrightarrow> lv y ws' = lv y ws1"
      "lv x ws' = (w_store ws1, (w_heap ws1 x)\<lparr>wa_cur := cr\<rparr>, False, True, w_got x ws1)" by auto
    have "caught_up cr es (lv x ws) (lv x ws')" unfolding t(5) using snd True e by (simp add: caught_up_def lv_def)
    then show ?thesis using one True t snd(8) by auto
  next
    case False
    show ?thesis
    proof (cases b)
      case b: True
      with False spl have m: "eb_moreRev eb \<in> we_rev ` set es" "eb_evs eb = filter (\<lambda>ev. we_rev ev < eb_moreRev eb) es" "eb_moreRev eb \<noteq> 0" by auto
      then have le: "eb_moreRev eb \<le> st_Rev (w_store ws1)" using eb(4) cr snd(4) by auto
      let ?ws = "w_setCur x (eb_moreRev eb) ws1"
      from setCurU_ok [OF snd(2) le, of x] have
        c: "w_inv ?ws" "\<forall>y. y \<noteq> x \<longrightarrow> lv y ?ws = lv y ws1"
        "lv x ?ws = (w_store ws1, (w_heap ws1 x)\<lparr>wa_cur := eb_moreRev eb\<rparr>, x \<in> unsynced ws1, x \<in> synced ws1, w_got x ws1)" by auto
      have "caught_up cr es (lv x ws) (lv x ?ws)" unfolding c(3) using snd b m by (auto simp: caught_up_def lv_def)
      moreover have "sync_one cr wb x ws = Some ?ws" using one b m(3) by simp
      ultimately show ?thesis using c(1,2) snd(3,8) by (intro exI [of _ ?ws]) simp
    next
      case nb: False
      then have "caught_up cr es (lv x ws) (lv x ws1)" using snd by (simp add: caught_up_def lv_def)
      then show ?thesis using one nb snd by auto
    qed
  qed
qed

definition moved :: "int \<Rightarrow> lview \<Rightarrow> lview" where
  "moved cr l = (fst l, (fst (snd l))\<lparr>wa_cur := cr\<rparr>, False, True, snd (snd (snd (snd l))))"

lemma moved_lv: "moved cr (lv a ws) = (w_store ws, (w_heap ws a)\<lparr>wa_cur := cr\<rparr>, False, True, w_got a ws)"
  by (simp add: moved_def lv_def)

lemma sync_rest_ok:
  assumes inv: "w_inv ws" "w_next ws = N" and u: "x \<in> unsynced ws"
  shows "\<exists>ws'. sync_rest cr wb x ws = Some ws' \<and> w_inv ws' \<and> w_next ws' = N \<and> (\<forall>y < N. y \<noteq> x \<longrightarrow> lv y ws' = lv y ws) \<and>
    lv x ws' = (if wb_contains x wb then lv x ws else moved cr (lv x ws))"
  using toSynced_ok [OF inv(1) u, of cr] inv by (auto simp: sync_rest_def moved_lv)

text \<open>What a round does to a watcher that is not behind the compaction.\<close>

definition sync_eff :: "lview \<Rightarrow> lview \<Rightarrow> bool" where
  "sync_eff l l' \<longleftrightarrow> (case l of (st, w, u, s, g) \<Rightarrow>
     if \<not> u then l' = l
     else wa_cur w < st_compactMainRev st \<and> (\<exists>r. fst (snd l') = w\<lparr>wa_cur := r\<rparr>) \<or>
       (let es = st_events st (wa_cur w) (st_Rev st) (watches w)
        in if es = [] then l' = (st, w\<lparr>wa_cur := st_Rev st\<rparr>, False, True, g) else caught_up (st_Rev st) es l l'))"

lemma rkey_bounds:
  assumes "0 \<le> rsub (fst x)"
  shows "(Revision m 0, False) \<le> x \<longleftrightarrow> m \<le> rmain (fst x)" "x < (Revision m 0, False) \<longleftrightarrow> rmain (fst x) < m"
  using assms by (cases x; cases "fst x"; auto simp: less_eq_prod_def less_prod_def less_eq_revision_def less_revision_def)+

lemma missed_events:
  assumes inv: "st_ok st" and wg: "wg_inv h wg" and a: "a \<in> set (wg_watchers wg)" and m: "m \<le> wa_cur (h a)"
  shows "mine h (set (wg_watchers wg)) a (kvsToEvents wg (bk_range (Revision m 0, False) (Some (Revision (st_Rev st + 1) 0, False)) 0 (st_key st))) =
    st_events st (wa_cur (h a)) (st_Rev st) (watches (h a))"
proof -
  have bi: "bucket_inv (Revision (st_Rev st + 1) 0) (st_key st)" using inv by (simp add: st_ok_def st_idle_def st_inv_def st_next_def st_Rev_def)
  then have bk: "bk_ok (st_key st)" and en: "\<And>x. x \<in> set (st_key st) \<Longrightarrow> entry_ok (Revision (st_Rev st + 1) 0) x" by (simp_all add: bucket_inv_def)
  have e: "we_rev (ent_event x) = rmain (fst (fst x))" "0 \<le> rsub (fst (fst x))" if "x \<in> set (st_key st)" for x
    using ent_event_rev [OF en [OF that]] en [OF that] by (simp_all add: entry_ok_def)
  have F: "bk_range (Revision m 0, False) (Some (Revision (st_Rev st + 1) 0, False)) 0 (st_key st) =
    filter (\<lambda>x. m \<le> rmain (fst (fst x)) \<and> rmain (fst (fst x)) \<le> st_Rev st) (st_key st)"
  proof -
    have "(Revision m 0, False) \<le> fst x \<and> fst x < (Revision (st_Rev st + 1) 0, False) \<longleftrightarrow> m \<le> rmain (fst (fst x)) \<and> rmain (fst (fst x)) \<le> st_Rev st"
      if "x \<in> set (st_key st)" for x
      unfolding rkey_bounds [OF e(2) [OF that]] by auto
    then show ?thesis by (simp add: bk_range_filter [OF bk] cong: filter_cong)
  qed
  have "a \<in> set (wg_watchers wg) \<and> watches (h a) (we_key (ent_event x)) \<and> wa_cur (h a) \<le> we_rev (ent_event x) \<and>
      wg_contains (kv_Key (snd x)) wg \<and> m \<le> rmain (fst (fst x)) \<and> rmain (fst (fst x)) \<le> st_Rev st \<longleftrightarrow>
      wa_cur (h a) \<le> rmain (fst (fst x)) \<and> rmain (fst (fst x)) \<le> st_Rev st \<and> watches (h a) (kv_Key (snd x))" if "x \<in> set (st_key st)" for x
    unfolding wg_contains_iff [OF wg] e(1) [OF that] ent_event_key using a m by auto
  then show ?thesis unfolding kvsToEvents_map F mine_def st_events_def filter_map filter_filter o_def
    by (intro arg_cong [of _ _ "map ent_event"] filter_cong) blast+
qed

lemma fetched_revs:
  assumes "st_ok st" "es = kvsToEvents wg (bk_range (Revision m 0, False) (Some (Revision (st_Rev st + 1) 0, False)) 0 (st_key st))"
  shows "sorted (map we_rev es)" "\<forall>ev \<in> set es. 0 < we_rev ev \<and> we_rev ev \<le> st_Rev st"
proof -
  have bi: "bucket_inv (Revision (st_Rev st + 1) 0) (st_key st)" using assms(1) by (simp add: st_ok_def st_idle_def st_inv_def st_next_def st_Rev_def)
  then have bk: "bk_ok (st_key st)" and en: "\<And>x. x \<in> set (st_key st) \<Longrightarrow> entry_ok (Revision (st_Rev st + 1) 0) x" by (simp_all add: bucket_inv_def)
  define F where "F = filter (\<lambda>x. wg_contains (kv_Key (snd x)) wg) (bk_range (Revision m 0, False) (Some (Revision (st_Rev st + 1) 0, False)) 0 (st_key st))"
  have es: "es = map ent_event F" by (simp add: assms(2) kvsToEvents_map F_def)
  have sub: "x \<in> set F \<Longrightarrow> x \<in> set (st_key st)" for x by (auto simp: F_def bk_range_filter [OF bk])
  have e: "we_rev (ent_event x) = rmain (fst (fst x))" "2 \<le> rmain (fst (fst x))" "rmain (fst (fst x)) \<le> st_Rev st" if "x \<in> set F" for x
    using ent_event_rev [OF en [OF sub [OF that]]] en [OF sub [OF that]] by (auto simp: entry_ok_def less_revision_def)
  show "\<forall>ev \<in> set es. 0 < we_rev ev \<and> we_rev ev \<le> st_Rev st" using e by (force simp: es)
  have "map we_rev es = map (\<lambda>x. rmain (fst (fst x))) F" using e(1) by (simp add: es)
  moreover have "sorted (map (\<lambda>x. rmain (fst (fst x))) F)" using bk_mains [OF bk] by (simp add: F_def bk_range_filter [OF bk] sorted_filter)
  ultimately show "sorted (map we_rev es)" by simp
qed

lemma send_all_ok:
  assumes inv: "w_inv ws" and ord: "ord_ok ord" and cr: "cr = st_Rev (w_store ws)"
    and wb: "distinct (map fst wb)" "\<And>a. map_of wb a = wb_of (E a)"
    and E: "\<And>a. E a \<noteq> [] \<Longrightarrow> a \<in> unsynced ws \<and> sorted (map we_rev (E a)) \<and> (\<forall>ev \<in> set (E a). 0 < we_rev ev \<and> we_rev ev \<le> cr)"
  shows "\<exists>ws'. ofold (sync_one cr wb) (ord (map fst wb)) ws = Some ws' \<and> w_inv ws' \<and> w_next ws' = w_next ws \<and>
    (\<forall>a < w_next ws. if E a = [] then lv a ws' = lv a ws else caught_up cr (E a) (lv a ws) (lv a ws'))"
proof -
  let ?N = "w_next ws" and ?xs = "ord (map fst wb)"
  have o: "distinct ?xs" "set ?xs = set (map fst wb)" using ord_okD [OF ord wb(1)] by auto
  have dom: "a \<in> set ?xs \<longleftrightarrow> E a \<noteq> []" for a
    using wb(2) [of a] map_of_eq_None_iff [of wb a] unfolding o(2) by (auto simp: wb_of_def split: if_splits)
  let ?P = "\<lambda>a (l :: lview). E a \<noteq> [] \<and> (case l of (st, w, u, s, g) \<Rightarrow> u \<and> cr = st_Rev st)"
  have st: "\<exists>s'. sync_one cr wb x s = Some s' \<and> w_inv s' \<and> w_next s' = ?N \<and> (\<forall>y < ?N. y \<noteq> x \<longrightarrow> lv y s' = lv y s) \<and> caught_up cr (E x) (lv x s) (lv x s')"
    if "w_inv s" "w_next s = ?N" "x < ?N" "?P x (lv x s)" for x s
    using sync_one_ok [OF that(1,2), of x cr wb "E x"] that(4) E [of x] wb(2) [of x] by (simp add: lv_def wb_of_def)
  have P: "\<forall>a \<in> set ?xs. a < ?N \<and> ?P a (lv a ws)" using dom E cr w_inv_member [OF inv] by (auto simp: lv_def)
  from loop_ok [of "\<lambda>ws. ws" ?N ?P "sync_one cr wb" "\<lambda>a. caught_up cr (E a)", OF st o(1) P inv] show ?thesis unfolding dom by auto
qed

lemma rest_ok:
  assumes inv: "w_inv ws" and ord: "ord_ok ord"
  shows "\<exists>ws'. ofold (sync_rest cr wb) (ord (wg_watchers (w_unsynced ws))) ws = Some ws' \<and> w_inv ws' \<and> w_next ws' = w_next ws \<and>
    (\<forall>a < w_next ws. lv a ws' = (if a \<in> unsynced ws \<and> \<not> wb_contains a wb then moved cr (lv a ws) else lv a ws))"
proof -
  let ?N = "w_next ws" and ?xs = "ord (wg_watchers (w_unsynced ws))"
  have "distinct (wg_watchers (w_unsynced ws))" using inv by (simp add: w_inv_def wg_inv_def)
  then have o: "distinct ?xs" "set ?xs = unsynced ws" using ord_okD [OF ord] by auto
  let ?P = "\<lambda>(a :: nat) (l :: lview). fst (snd (snd l))"
  let ?Q = "\<lambda>a l l'. l' = (if wb_contains a wb then l else moved cr l)"
  have st: "\<exists>s'. sync_rest cr wb x s = Some s' \<and> w_inv s' \<and> w_next s' = ?N \<and> (\<forall>y < ?N. y \<noteq> x \<longrightarrow> lv y s' = lv y s) \<and> ?Q x (lv x s) (lv x s')"
    if "w_inv s" "w_next s = ?N" "x < ?N" "?P x (lv x s)" for x s
    using sync_rest_ok [OF that(1,2), of x cr wb] that(4) by (auto simp: lv_def [of x s])
  have P: "\<forall>a \<in> set ?xs. a < ?N \<and> ?P a (lv a ws)" using o(2) w_inv_member [OF inv] by (auto simp: lv_def)
  from loop_ok [of "\<lambda>ws. ws" ?N ?P "sync_rest cr wb" ?Q, OF st o(1) P inv] obtain ws' where
    f: "ofold (sync_rest cr wb) ?xs ws = Some ws'" "w_inv ws'" "w_next ws' = ?N"
    "\<forall>y < ?N. if y \<in> set ?xs then ?Q y (lv y ws) (lv y ws') else lv y ws' = lv y ws" by auto
  have "lv a ws' = (if a \<in> unsynced ws \<and> \<not> wb_contains a wb then moved cr (lv a ws) else lv a ws)" if "a < ?N" for a
    using f(4) [rule_format, OF that] unfolding o(2) by (auto split: if_splits)
  with f(1-3) show ?thesis by blast
qed

lemma sync_ok:
  assumes inv: "w_inv ws" and ord: "ord_ok ord"
  shows "\<exists>ws'. syncWatchers ord ws = Some ws' \<and> w_inv ws' \<and> w_next ws' = w_next ws \<and> w_store ws' = w_store ws \<and>
    (\<forall>a < w_next ws. sync_eff (lv a ws) (lv a ws'))"
proof (cases "wg_size (w_unsynced ws) = 0")
  case True
  then have "unsynced ws = {}" by (simp add: wg_size_def)
  then show ?thesis using True inv by (intro exI [of _ ws]) (simp add: syncWatchers_def sync_eff_def lv_def)
next
  case False
  define st where "st = w_store ws"
  let ?N = "w_next ws" and ?cr = "st_Rev st" and ?C = "st_compactMainRev st"
  from False obtain a0 where a0: "a0 \<in> unsynced ws" by (cases "wg_watchers (w_unsynced ws)") (auto simp: wg_size_def)
  then have n0: "a0 < ?N" using w_inv_member [OF inv] by blast
  from scan_ok [OF inv ord, of ?cr ?C] obtain ws1 m where
    sc: "scanMinRev ord ?cr ?C ws = Some (ws1, m)" "w_inv ws1" "w_next ws1 = ?N" "w_heap ws1 = w_heap ws"
    "\<forall>a < ?N. if a \<in> unsynced ws then scanned ?C (lv a ws) (lv a ws1) else lv a ws1 = lv a ws"
    "\<forall>a \<in> unsynced ws. ?C \<le> wa_cur (w_heap ws a) \<longrightarrow> m \<le> wa_cur (w_heap ws a)" unfolding st_def by blast
  have st1: "w_store ws1 = st" using sc(5) [rule_format, OF n0] a0 by (auto simp: scanned_def lv_def st_def)
  have sub: "unsynced ws1 \<subseteq> unsynced ws"
  proof
    fix a assume a: "a \<in> unsynced ws1"
    then have "a < ?N" using w_inv_member [OF sc(2)] sc(3) by auto
    then show "a \<in> unsynced ws" using sc(5) [rule_format, of a] a by (auto simp: lv_def split: if_splits)
  qed
  define es where "es = kvsToEvents (w_unsynced ws1) (bk_range (Revision m 0, False) (Some (Revision (?cr + 1) 0, False)) 0 (st_key st))"
  define E where "E = (\<lambda>a. mine (w_heap ws) (unsynced ws1) a es)"
  have wg: "wg_inv (w_heap ws) (w_unsynced ws1)" using sc(2,4) by (simp add: w_inv_def)
  from newWatcherBatch_ok [OF wg, of es] obtain wb where
    wb: "newWatcherBatch (w_heap ws) (w_unsynced ws1) es = Some wb" "distinct (map fst wb)" "\<And>a. map_of wb a = wb_of (E a)" unfolding E_def by blast
  have ok: "st_ok st" using inv by (simp add: w_inv_def st_def)
  have Ein: "E a \<noteq> [] \<Longrightarrow> a \<in> unsynced ws1" for a by (auto simp: E_def mine_def filter_empty_conv)
  have Eok: "a \<in> unsynced ws1 \<and> sorted (map we_rev (E a)) \<and> (\<forall>ev \<in> set (E a). 0 < we_rev ev \<and> we_rev ev \<le> ?cr)" if "E a \<noteq> []" for a
    using Ein [OF that] fetched_revs [OF ok es_def] by (auto simp: E_def mine_def sorted_filter)
  have c1: "?cr = st_Rev (w_store ws1)" by (simp add: st1)
  from send_all_ok [OF sc(2) ord c1 wb(2,3) Eok] sc(3) obtain ws2 where
    s2: "ofold (sync_one ?cr wb) (ord (map fst wb)) ws1 = Some ws2" "w_inv ws2" "w_next ws2 = ?N"
    "\<forall>a < ?N. if E a = [] then lv a ws2 = lv a ws1 else caught_up ?cr (E a) (lv a ws1) (lv a ws2)" by auto
  from rest_ok [OF s2(2) ord, of ?cr wb] s2(3) obtain ws3 where
    s3: "ofold (sync_rest ?cr wb) (ord (wg_watchers (w_unsynced ws2))) ws2 = Some ws3" "w_inv ws3" "w_next ws3 = ?N"
    "\<forall>a < ?N. lv a ws3 = (if a \<in> unsynced ws2 \<and> \<not> wb_contains a wb then moved ?cr (lv a ws2) else lv a ws2)"
    by auto
  have "syncWatchers ord ws = Some ws3" using False sc(1,4) wb(1) s2(1) s3(1)
    by (simp add: syncWatchers_def Let_def st_def [symmetric] st_Rev_def [symmetric] st1 es_def)
  moreover have eff: "sync_eff (lv a ws) (lv a ws3)" if a: "a < ?N" for a
  proof -
    have c: "wb_contains a wb \<longleftrightarrow> E a \<noteq> []" by (simp add: wb_contains_def wb(3) wb_of_def)
    have l3: "E a \<noteq> [] \<Longrightarrow> caught_up ?cr (E a) (lv a ws1) (lv a ws3)"
      "E a = [] \<Longrightarrow> lv a ws3 = (if a \<in> unsynced ws1 then moved ?cr (lv a ws1) else lv a ws1)"
      using s2(4) [rule_format, OF a] s3(4) [rule_format, OF a] c by (auto simp: lv_def split: if_splits)
    show ?thesis
    proof (cases "a \<in> unsynced ws")
      case False
      then have "lv a ws1 = lv a ws" "E a = []" using sc(5) a sub Ein by auto
      then show ?thesis using l3(2) False sub by (auto simp: sync_eff_def lv_def)
    next
      case u: True
      show ?thesis
      proof (cases "wa_cur (w_heap ws a) < ?C")
        case True
        have h: "fst (snd (lv a ws1)) = w_heap ws a" using sc(4) by (simp add: lv_def)
        have same: "\<exists>r. w_heap ws a = (w_heap ws a)\<lparr>wa_cur := r\<rparr>" by (intro exI [of _ "wa_cur (w_heap ws a)"]) simp
        have "\<exists>r. fst (snd (lv a ws3)) = (w_heap ws a)\<lparr>wa_cur := r\<rparr>"
          using l3 h same by (cases "E a = []") (auto simp: caught_up_def moved_def split: prod.splits if_splits)
        then show ?thesis using u True unfolding sync_eff_def lv_def [of a ws] st_def [symmetric] by simp
      next
        case False
        then have l1: "lv a ws1 = lv a ws" using sc(5) [rule_format, OF a] u by (auto simp: scanned_def lv_def)
        then have u1: "a \<in> unsynced ws1" using u by (auto simp: lv_def)
        have "E a = st_events st (wa_cur (w_heap ws a)) ?cr (watches (w_heap ws a))"
          unfolding E_def es_def using missed_events [OF ok wg u1] sc(6) u False by simp
        then show ?thesis using l3 l1 u u1 by (auto simp: sync_eff_def Let_def moved_def lv_def [of a ws] st_def [symmetric])
      qed
    qed
  qed
  moreover have "w_store ws3 = w_store ws"
    using s2(4) [rule_format, OF n0] s3(4) [rule_format, OF n0] st1 by (auto simp: lv_def caught_up_def moved_def st_def split: if_splits)
  ultimately show ?thesis using s3(2,3) by blast
qed

end
