(* ===== verification/Mvcc_Watch_Steps.thy ===== *)
theory Mvcc_Watch_Steps
  imports Mvcc_Watch_Sync
begin

text \<open>
  The watchable store as a state machine.  Every step keeps the invariant, and for every watcher
  that it has received the events from its first revision on, without a gap and in order.
\<close>

section \<open>What a watcher has received\<close>

definition tracks :: "int \<Rightarrow> lview \<Rightarrow> bool" where
  "tracks f l \<longleftrightarrow> (case l of (st, w, u, s, g) \<Rightarrow> f \<le> wa_cur w \<and>
     (if s then wa_cur w \<le> max f (st_Rev st + 1) \<and> g = st_events st f (st_Rev st) (watches w)
      else if u then g = st_events st f (wa_cur w - 1) (watches w)
      else \<exists>n. (n \<le> st_Rev st \<or> n < f) \<and> g = st_events st f n (watches w)))"

lemma watches_cur [simp]: "watches (w\<lparr>wa_cur := r\<rparr>) = watches w"
  by (simp add: watches_def fun_eq_iff split: option.split)

lemma st_ok_bucket: "st_ok st \<Longrightarrow> bucket_inv (Revision (st_Rev st + 1) 0) (st_key st)"
  by (simp add: st_ok_def st_idle_def st_inv_def st_next_def st_Rev_def)

lemma st_ok_revs:
  assumes "st_ok st"
  shows "bk_ok (st_key st)" "\<forall>x \<in> set (st_key st). entry_ok (Revision (st_Rev st + 1) 0) x"
    "\<forall>x \<in> set (st_key st). rmain (fst (fst x)) \<le> st_Rev st"
  using st_ok_bucket [OF assms] by (auto simp: bucket_inv_def entry_ok_def less_revision_def)

lemma tracks_sync:
  assumes "sync_eff (st, w, u, s, g) l'" "tracks f (st, w, u, s, g)" "st_ok st" "st_compactMainRev st < f" "u \<longrightarrow> wa_cur w \<le> st_Rev st" "\<not> (u \<and> s)"
  shows "tracks f l'"
proof (cases u)
  case False
  then show ?thesis using assms(1,2) by (simp add: sync_eff_def)
next
  case True
  let ?E = "\<lambda>lo hi. st_events st lo hi (watches w)"
  note r = st_ok_revs [OF assms(3)]
  have g: "g = ?E f (wa_cur w - 1)" and f: "f \<le> wa_cur w" and le: "wa_cur w \<le> st_Rev st" and s: "\<not> s"
    using assms(2,5,6) True by (auto simp: tracks_def)
  have all: "?E f (st_Rev st) = g @ ?E (wa_cur w) (st_Rev st)"
    using events_split [OF r(1), of "wa_cur w - 1" "st_Rev st" f "watches w"] f le g by simp
  have eff: "if ?E (wa_cur w) (st_Rev st) = [] then l' = (st, w\<lparr>wa_cur := st_Rev st\<rparr>, False, True, g)
      else caught_up (st_Rev st) (?E (wa_cur w) (st_Rev st)) (st, w, u, s, g) l'"
    using assms(1,4) f True by (auto simp: sync_eff_def Let_def)
  show ?thesis
  proof (cases "?E (wa_cur w) (st_Rev st) = []")
    case True
    then show ?thesis using eff all f le by (auto simp: tracks_def)
  next
    case False
    then consider "l' = (st, w, u, s, g)"
      | m where "m \<in> we_rev ` set (?E (wa_cur w) (st_Rev st))"
          "l' = (st, w\<lparr>wa_cur := m\<rparr>, u, s, g @ filter (\<lambda>ev. we_rev ev < m) (?E (wa_cur w) (st_Rev st)))"
      | "l' = (st, w\<lparr>wa_cur := st_Rev st\<rparr>, False, True, g @ ?E (wa_cur w) (st_Rev st))"
      using eff by (auto simp: caught_up_def)
    then show ?thesis
    proof cases
      case 1
      then show ?thesis using assms(2) by simp
    next
      case 2
      then have m: "wa_cur w \<le> m" "m \<le> st_Rev st" using events_revs(2) [OF r(2,1)] by auto
      have "filter (\<lambda>ev. we_rev ev < m) (?E (wa_cur w) (st_Rev st)) = ?E (wa_cur w) (m - 1)"
        unfolding events_revs(3) [OF r(2,1)] using m by (simp add: min_def)
      moreover have "?E f (m - 1) = g @ ?E (wa_cur w) (m - 1)"
        using events_split [OF r(1), of "wa_cur w - 1" "m - 1" f "watches w"] f m g by simp
      ultimately show ?thesis using 2(2) True s f m by (simp add: tracks_def)
    next
      case 3
      then show ?thesis using all f le by (simp add: tracks_def)
    qed
  qed
qed

text \<open>New changes at the next revision.\<close>

lemma events_grow:
  assumes "st_key st' = st_key st @ new" "\<forall>x \<in> set new. rmain (fst (fst x)) = rv"
  shows "st_events st' lo hi P = st_events st lo hi P @ (if lo \<le> rv \<and> rv \<le> hi then map ent_event (filter (\<lambda>x. P (kv_Key (snd x))) new) else [])"
proof -
  have "filter (\<lambda>x. lo \<le> rmain (fst (fst x)) \<and> rmain (fst (fst x)) \<le> hi \<and> P (kv_Key (snd x))) new =
    (if lo \<le> rv \<and> rv \<le> hi then filter (\<lambda>x. P (kv_Key (snd x))) new else [])"
    using assms(2) by (auto simp: filter_empty_conv intro: filter_cong)
  then show ?thesis by (simp add: st_events_def assms(1))
qed

lemma events_beyond: "st_ok st \<Longrightarrow> st_Rev st \<le> hi \<Longrightarrow> st_events st lo hi P = st_events st lo (st_Rev st) P"
  unfolding st_events_def using st_ok_revs(3) [of st] by (intro arg_cong [of _ _ "map ent_event"] filter_cong) force+

lemma tracks_notify:
  assumes t: "tracks f (st, w, u, s, g)" and ok: "st_ok st" and u: "u \<longrightarrow> wa_cur w \<le> st_Rev st" "\<not> (u \<and> s)"
    and st': "st_key st' = st_key st @ new" "\<forall>x \<in> set new. rmain (fst (fst x)) = st_Rev st + 1" "st_Rev st' = st_Rev st + 1" "st_ok st'"
    and es: "es = filter (\<lambda>ev. s \<and> watches w (we_key ev) \<and> wa_cur w \<le> we_rev ev) (map ent_event new)"
    and l': "if es = [] then l' = (st', w, u, s, g) else notified (st_Rev st + 1) es (st', w, u, s, g) l'"
  shows "tracks f l'"
proof -
  let ?rv = "st_Rev st + 1" and ?E = "st_events st'"
  let ?N = "map ent_event (filter (\<lambda>x. watches w (kv_Key (snd x))) new)"
  note gr = events_grow [OF st'(1,2)]
  have f: "f \<le> wa_cur w" using t by (simp add: tracks_def)
  show ?thesis
  proof (cases s)
    case False
    then have l: "l' = (st', w, u, s, g)" using l' es by simp
    show ?thesis
    proof (cases u)
      case True
      then have "g = ?E f (wa_cur w - 1) (watches w)" using t False u(1) gr by (simp add: tracks_def)
      then show ?thesis using l False True f by (simp add: tracks_def)
    next
      case u: False
      then obtain n where n: "n \<le> st_Rev st \<or> n < f" "g = st_events st f n (watches w)" using t False by (auto simp: tracks_def)
      then have "g = ?E f n (watches w)" by (auto simp: gr)
      then show ?thesis using l False u f n(1) st'(3) by (auto simp: tracks_def intro!: exI [of _ n])
    qed
  next
    case s: True
    then have c: "wa_cur w \<le> max f ?rv" "g = st_events st f (st_Rev st) (watches w)" and nu: "\<not> u" using t u(2) by (auto simp: tracks_def)
    have e: "we_rev (ent_event x) = ?rv" if "x \<in> set new" for x
      using that st'(1,2) st_ok_revs(2) [OF st'(4)] ent_event_rev by fastforce
    have es': "es = (if wa_cur w \<le> ?rv then ?N else [])"
      unfolding es filter_map o_def using s e by (auto intro!: arg_cong [of _ _ "map ent_event"] filter_cong simp: filter_empty_conv)
    have old: "st_events st f ?rv (watches w) = g" using c(2) events_beyond [OF ok, of ?rv] by simp
    show ?thesis
    proof (cases "wa_cur w \<le> ?rv")
      case True
      then have all: "?E f ?rv (watches w) = g @ es" using f old es' by (simp add: gr)
      have before: "?E f (?rv - 1) (watches w) = g" using c(2) by (simp add: gr)
      from l' have "l' = (st', w, u, s, g @ es) \<or> l' = (st', w\<lparr>wa_cur := ?rv\<rparr>, True, False, g)"
        by (auto simp: notified_def split: if_splits)
      then show ?thesis using all before f True s nu st'(3) by (auto simp: tracks_def)
    next
      case False
      then have "wa_cur w \<le> f" "f \<noteq> wa_cur w \<longrightarrow> False" using c(1) f by auto
      then have "?E f ?rv (watches w) = g" using False old by (simp add: gr)
      moreover have "l' = (st', w, u, s, g)" using l' es' False by simp
      ultimately show ?thesis using s f c(1) st'(3) False by (simp add: tracks_def)
    qed
  qed
qed

section \<open>Changing the store\<close>

text \<open>What is kept from one state to a later one.\<close>

definition w_later :: "watchableStore \<Rightarrow> watchableStore \<Rightarrow> bool" where
  "w_later ws ws' \<longleftrightarrow> w_next ws \<le> w_next ws' \<and> st_compactMainRev (w_store ws) \<le> st_compactMainRev (w_store ws') \<and>
     (\<forall>a < w_next ws. wa_ch (w_heap ws' a) = wa_ch (w_heap ws a) \<and> wa_id (w_heap ws' a) = wa_id (w_heap ws a) \<and>
        watches (w_heap ws' a) = watches (w_heap ws a) \<and>
        (\<forall>f. st_compactMainRev (w_store ws') < f \<longrightarrow> tracks f (lv a ws) \<longrightarrow> tracks f (lv a ws')))"

lemma w_later_refl: "w_later ws ws"
  by (simp add: w_later_def)

lemma w_later_trans:
  assumes "w_later ws ws1" "w_later ws1 ws2"
  shows "w_later ws ws2"
  unfolding w_later_def
proof (intro conjI allI impI)
  show "w_next ws \<le> w_next ws2" "st_compactMainRev (w_store ws) \<le> st_compactMainRev (w_store ws2)" using assms by (auto simp: w_later_def)
  fix a assume a: "a < w_next ws"
  then have "a < w_next ws1" using assms(1) by (simp add: w_later_def)
  with a assms show "wa_ch (w_heap ws2 a) = wa_ch (w_heap ws a)" "wa_id (w_heap ws2 a) = wa_id (w_heap ws a)"
    "watches (w_heap ws2 a) = watches (w_heap ws a)" by (auto simp: w_later_def)
  fix f assume "st_compactMainRev (w_store ws2) < f" "tracks f (lv a ws)"
  with a \<open>a < w_next ws1\<close> assms show "tracks f (lv a ws2)" unfolding w_later_def by (metis le_less_trans)
qed

lemma changes_keys [simp]: "st_keys (st\<lparr>st_changes := c\<rparr>) = st_keys st" "st_at (st\<lparr>st_changes := c\<rparr>) = st_at st"
  by (simp_all add: st_keys_def st_at_def fun_eq_iff)

lemma changes_irrelevant [simp]:
  "st_ok (st\<lparr>st_changes := c\<rparr>) = st_ok st" "st_Rev (st\<lparr>st_changes := c\<rparr>) = st_Rev st" "st_events (st\<lparr>st_changes := c\<rparr>) = st_events st"
  by (simp_all add: st_ok_def st_idle_def st_inv_def st_next_def lease_inv_def st_Rev_def st_events_def fun_eq_iff)

lemma store_inv:
  assumes "w_inv ws" "st_ok st" "cr_ok (st_key st)" "st_changes st = []" "st_Rev (w_store ws) \<le> st_Rev st"
  shows "w_inv (ws\<lparr>w_store := st\<rparr>)"
proof -
  have ids: "w_ids ws" using assms(1) by (simp add: w_inv_def)
  have "w_ids (ws\<lparr>w_store := st\<rparr>)" by (rule w_ids_frame [OF ids]) auto
  then show ?thesis using assms by (auto simp: w_inv_def)
qed

lemma lv_store: "lv a (ws\<lparr>w_store := st\<rparr>) = (st, snd (lv a ws))"
  by (simp add: lv_def w_got_def)

lemma lv_ident:
  "lv a ws' = (st, w, u, s, g) \<Longrightarrow> w_heap ws' a = w"
  by (simp add: lv_def)

lemma w_inv_lv:
  assumes "w_inv ws" "lv a ws = (st, w, u, s, g)"
  shows "st = w_store ws" "w = w_heap ws a" "u \<longrightarrow> wa_cur w \<le> st_Rev st" "\<not> (u \<and> s)" "s = (a \<in> synced ws)"
  using assms by (auto simp: w_inv_def lv_def)

lemma notify_store: "w_notify ord rv evs ws = Some ws' \<Longrightarrow> w_store ws' = w_store ws"
proof -
  assume "w_notify ord rv evs ws = Some ws'"
  then obtain wb where "ofold (notify_one rv wb) (ord (map fst wb)) ws = Some ws'" by (auto simp: w_notify_def bind_eq_Some_conv)
  then show ?thesis
    by (rule ofold_invariant [where P = "\<lambda>w. w_store w = w_store ws"])
      (auto simp: notify_one_def w_send_def upd_stream_def w_toUnsynced_def bind_eq_Some_conv Let_def split: if_splits)
qed

text \<open>The end of a transaction that has changed something.\<close>

lemma notify_later:
  assumes inv: "w_inv ws" and ord: "ord_ok ord"
    and st': "st_key st' = st_key (w_store ws) @ new" "\<forall>x \<in> set new. rmain (fst (fst x)) = st_Rev (w_store ws) + 1" "cr_ok new"
      "st_Rev st' = st_Rev (w_store ws) + 1" "st_ok st'" "st_changes st' = []" "st_compactMainRev st' = st_compactMainRev (w_store ws)"
  shows "\<exists>ws'. w_notify ord (st_Rev st') (map ent_event new) (ws\<lparr>w_store := st'\<rparr>) = Some ws' \<and> w_inv ws' \<and> w_later ws ws' \<and> w_store ws' = st'"
proof -
  let ?w = "ws\<lparr>w_store := st'\<rparr>" and ?rv = "st_Rev st'"
  have wi: "w_inv ?w" using inv st' by (intro store_inv [OF inv]) (auto simp: w_inv_def)
  have "we_rev (ent_event x) = ?rv" if "x \<in> set new" for x
    using that st'(1,2,4) st_ok_revs(2) [OF st'(5)] ent_event_rev by fastforce
  then have evs: "\<forall>ev \<in> set (map ent_event new). we_rev ev = ?rv" by auto
  from notify_ok [OF wi ord _ evs] obtain ws' where
    n: "w_notify ord ?rv (map ent_event new) ?w = Some ws'" "w_inv ws'" "w_next ws' = w_next ws"
    and e: "\<And>a. a < w_next ws \<Longrightarrow> (let es = mine (w_heap ws) (synced ws) a (map ent_event new) in
      if es = [] then lv a ws' = lv a ?w else notified ?rv es (lv a ?w) (lv a ws'))" by auto
  have st0: "st_ok (w_store ws)" using inv by (simp add: w_inv_def)
  have "wa_ch (w_heap ws' a) = wa_ch (w_heap ws a) \<and> wa_id (w_heap ws' a) = wa_id (w_heap ws a) \<and> watches (w_heap ws' a) = watches (w_heap ws a) \<and>
      (tracks f (lv a ws) \<longrightarrow> tracks f (lv a ws'))" if a: "a < w_next ws" for a f
  proof -
    obtain st w u s g where l: "lv a ws = (st, w, u, s, g)" by (cases "lv a ws") auto
    note li = w_inv_lv [OF inv l]
    let ?es = "filter (\<lambda>ev. s \<and> watches w (we_key ev) \<and> wa_cur w \<le> we_rev ev) (map ent_event new)"
    have es: "mine (w_heap ws) (synced ws) a (map ent_event new) = ?es" by (simp add: mine_def li(2,5))
    have l': "if ?es = [] then lv a ws' = (st', w, u, s, g) else notified ?rv ?es (st', w, u, s, g) (lv a ws')"
      using e [OF a] unfolding es Let_def lv_store l snd_conv .
    then have "w_heap ws' a = w \<or> w_heap ws' a = w\<lparr>wa_cur := ?rv\<rparr>" by (auto simp: notified_def lv_def split: if_splits)
    moreover have k: "st_key st' = st_key st @ new" "\<forall>x \<in> set new. rmain (fst (fst x)) = st_Rev st + 1" "st_Rev st' = st_Rev st + 1" "st_ok st"
      unfolding li(1) using st' st0 by blast+
    have "tracks f (lv a ws')" if "tracks f (lv a ws)"
      by (rule tracks_notify [OF that [unfolded l] k(4) li(3,4) k(1-3) st'(5) refl l' [unfolded k(3)]])
    ultimately show ?thesis using li(2) by auto
  qed
  then have "w_later ws ws'" using n(3) st'(7) notify_store [OF n(1)] by (simp add: w_later_def)
  with n notify_store [OF n(1)] show ?thesis by auto
qed

text \<open>A transaction that has been executed and ended.\<close>

lemma commit_later:
  assumes inv: "w_inv ws" and ord: "ord_ok ord" and t: "txn_ok (st_TxnBegin i (w_store ws)) st1" and g: "grows (st_TxnBegin i (w_store ws)) st1 new"
  shows "\<exists>st2. st_txnEnd i st1 = Inr st2 \<and> st_end i st1 = st2 \<and> st_changes st2 = map snd new \<and>
    st_Rev st2 = st_Rev (w_store ws) + (if new = [] then 0 else 1) \<and> map (change_event (st_Rev st2)) (map snd new) = map ent_event new \<and>
    (if new = [] then w_inv (ws\<lparr>w_store := st2\<lparr>st_changes := []\<rparr>\<rparr>) \<and> w_later ws (ws\<lparr>w_store := st2\<lparr>st_changes := []\<rparr>\<rparr>)
     else \<exists>ws'. w_notify ord (st_Rev st2) (map ent_event new) (ws\<lparr>w_store := st2\<lparr>st_changes := []\<rparr>\<rparr>) = Some ws' \<and> w_inv ws' \<and> w_later ws ws' \<and>
       w_store ws' = st2\<lparr>st_changes := []\<rparr>)"
proof -
  let ?st = "w_store ws"
  have ok: "st_ok ?st" and ch: "st_changes ?st = []" and cr: "cr_ok (st_key ?st)" using inv by (auto simp: w_inv_def)
  have i: "st_inv st1" "lease_inv st1" "st_txnID st1 = i" "st_compactMainRev st1 = st_compactMainRev ?st" using t by (auto simp: txn_ok_def st_same_def)
  from txnEnd_ok [OF i(1-3)] obtain st2 where
    e: "st_txnEnd i st1 = Inr st2" "st_end i st1 = st2" "st_ok st2" "st_changes st2 = st_changes st1" "st_key st2 = st_key st1"
      "st_currentRev st2 = Revision (rmain (st_currentRev st1) + (if rsub (st_currentRev st1) \<noteq> 0 then 1 else 0)) 0"
      "st_compactMainRev st2 = st_compactMainRev st1" by blast
  have gr: "st_key st1 = st_key ?st @ new" "st_changes st1 = map snd new" "cr_ok new" "\<forall>x \<in> set new. rmain (fst (fst x)) = st_Rev ?st + 1"
    "rmain (st_currentRev st1) = st_Rev ?st" "rsub (st_currentRev st1) = int (length new)"
    using g ch by (auto simp: grows_def st_Rev_def)
  have rev: "st_Rev st2 = st_Rev ?st + (if new = [] then 0 else 1)" using e(6) gr(5,6) by (simp add: st_Rev_def)
  have ev: "map (change_event (st_Rev st2)) (map snd new) = map ent_event new"
    using change_events [OF gr(3), of "st_Rev st2"] gr(4) rev by (cases "new = []") auto
  let ?st' = "st2\<lparr>st_changes := []\<rparr>"
  have "if new = [] then w_inv (ws\<lparr>w_store := ?st'\<rparr>) \<and> w_later ws (ws\<lparr>w_store := ?st'\<rparr>)
     else \<exists>ws'. w_notify ord (st_Rev st2) (map ent_event new) (ws\<lparr>w_store := ?st'\<rparr>) = Some ws' \<and> w_inv ws' \<and> w_later ws ws' \<and> w_store ws' = ?st'"
  proof (cases "new = []")
    case True
    then have k: "st_key st2 = st_key ?st" "st_Rev st2 = st_Rev ?st" "st_compactMainRev st2 = st_compactMainRev ?st" using e(5,7) gr(1) rev i(4) by auto
    then have ev: "st_events st2 = st_events ?st" by (simp add: st_events_def fun_eq_iff)
    have "w_inv (ws\<lparr>w_store := ?st'\<rparr>)" using e(3) cr k by (intro store_inv [OF inv]) auto
    moreover have "tracks f (lv a (ws\<lparr>w_store := ?st'\<rparr>)) \<longleftrightarrow> tracks f (lv a ws)" for f a
      by (simp add: tracks_def lv_def w_got_def ev k)
    ultimately show ?thesis using True k by (simp add: w_later_def)
  next
    case False
    then show ?thesis using notify_later [OF inv ord, of ?st' new] gr e(3,5,7) rev i(4) by simp
  qed
  with e(1,2,4) gr(2) rev ev show ?thesis by auto
qed

lemma TxnEnd_later:
  assumes inv: "w_inv ws" and ord: "ord_ok ord" and x: "ofold (txn_exec i) ops (st_TxnBegin i (w_store ws)) = Some st1"
  shows "\<exists>ws'. w_TxnEnd ord i (ws\<lparr>w_store := st1\<rparr>) = Some (Inr ws') \<and> w_inv ws' \<and> w_later ws ws'"
proof -
  have ok: "st_ok (w_store ws)" and cr: "cr_ok (st_key (w_store ws))" using inv by (auto simp: w_inv_def)
  have b: "txn_ok (st_TxnBegin i (w_store ws)) (st_TxnBegin i (w_store ws))" by (rule begin_txn_ok [OF ok])
  from txn_grows [OF b _ x] cr obtain new where g: "grows (st_TxnBegin i (w_store ws)) st1 new" by auto
  from commit_later [OF inv ord txn_ok_all [OF b x] g] obtain st2 where
    c: "st_txnEnd i st1 = Inr st2" "st_changes st2 = map snd new" "map (change_event (st_Rev st2)) (map snd new) = map ent_event new"
    "if new = [] then w_inv (ws\<lparr>w_store := st2\<lparr>st_changes := []\<rparr>\<rparr>) \<and> w_later ws (ws\<lparr>w_store := st2\<lparr>st_changes := []\<rparr>\<rparr>)
     else \<exists>ws'. w_notify ord (st_Rev st2) (map ent_event new) (ws\<lparr>w_store := st2\<lparr>st_changes := []\<rparr>\<rparr>) = Some ws' \<and> w_inv ws' \<and> w_later ws ws'"
    by (auto split: if_splits)
  have "w_TxnEnd ord i (ws\<lparr>w_store := st1\<rparr>) = (if new = [] then Some (Inr (ws\<lparr>w_store := st2\<lparr>st_changes := []\<rparr>\<rparr>))
      else map_option Inr (w_notify ord (st_Rev st2) (map (change_event (st_Rev st2)) (map snd new)) (ws\<lparr>w_store := st2\<lparr>st_changes := []\<rparr>\<rparr>)))"
    by (simp add: w_TxnEnd_def st_TxnEnd_def st_getChanges_def Let_def c(1,2) map_conv_bind_option comp_def del: map_map)
  then show ?thesis using c(4) unfolding c(3) by (cases "new = []") auto
qed

lemma Put_watch:
  assumes inv: "w_inv ws" and ord: "ord_ok ord" and l: "l = NoLease \<or> st_keys (w_store ws) l \<noteq> None"
  shows "\<exists>ws'. w_Put ord i key val l ws = Some (ws', st_Rev (w_store ws) + 1) \<and> w_inv ws' \<and> w_later ws ws'"
proof -
  let ?b = "st_TxnBegin i (w_store ws)"
  have ok: "st_ok (w_store ws)" and cr: "cr_ok (st_key (w_store ws))" using inv by (auto simp: w_inv_def)
  have b: "txn_ok ?b ?b" by (rule begin_txn_ok [OF ok])
  then have bi: "st_inv ?b" "lease_inv ?b" by (auto simp: txn_ok_def)
  from put_ok [OF bi, of l key val] l obtain st1 where p: "st_put key val l ?b = Some st1" by auto
  have g: "grows ?b st1 [((st_next ?b, False), put_kv key val l ?b)]" using put_grows [OF bi(1) _ p] cr by simp
  from commit_later [OF inv ord txn_ok_put [OF b p] g] obtain st2 ws' where
    c: "st_end i st1 = st2" "st_changes st2 = [put_kv key val l ?b]" "st_Rev st2 = st_Rev (w_store ws) + 1"
    "w_notify ord (st_Rev st2) [ent_event ((st_next ?b, False), put_kv key val l ?b)] (ws\<lparr>w_store := st2\<lparr>st_changes := []\<rparr>\<rparr>) = Some ws'" "w_inv ws'" "w_later ws ws'"
    by auto
  have "w_Put ord i key val l ws = Some (ws', st_Rev (w_store ws) + 1)"
    using c(1-4) p by (simp add: w_Put_def Put_txn [OF ok] st_getChanges_def Let_def ent_event_def)
  with c show ?thesis by blast
qed

lemma view_single: "st_view st key None r kvs \<Longrightarrow> length kvs \<le> 1"
proof -
  assume "st_view st key None r kvs"
  then have "sorted_wrt (<) (map kv_Key kvs)" "\<forall>kv \<in> set kvs. kv_Key kv = key" by (auto simp: st_view_def range_of_def)
  then show ?thesis by (cases kvs; cases "tl kvs") auto
qed

lemma DeleteKey_watch:
  assumes inv: "w_inv ws" and ord: "ord_ok ord"
  shows "\<exists>ws' n r st'. w_DeleteRange ord i key None ws = Some (ws', n, r) \<and> w_inv ws' \<and> w_later ws ws' \<and>
    st_DeleteRange i key None (w_store ws) = Some (st', n, r) \<and> w_store ws' = st'\<lparr>st_changes := []\<rparr>"
proof -
  let ?b = "st_TxnBegin i (w_store ws)"
  have ok: "st_ok (w_store ws)" and cr: "cr_ok (st_key (w_store ws))" and ch: "st_changes (w_store ws) = []" using inv by (auto simp: w_inv_def)
  have b: "txn_ok ?b ?b" by (rule begin_txn_ok [OF ok])
  then have bi: "st_inv ?b" "lease_inv ?b" by (auto simp: txn_ok_def)
  from deleteRange_ok [OF bi, of key None] obtain st1 kvs where
    d: "st_deleteRange key None ?b = Some (st1, int (length kvs))" "st_view ?b key None (rmain (st_currentRev ?b) + 1) kvs"
    "st_changes st1 = map (\<lambda>kv. zero_KeyValue\<lparr>kv_Key := kv_Key kv\<rparr>) kvs" using ch by auto
  from deleteRange_grows [OF bi d(1)] obtain new where g: "grows ?b st1 new" "length new = length kvs" by auto
  then have one: "length new \<le> 1" using view_single [OF d(2)] by simp
  from commit_later [OF inv ord txn_ok_delete [OF b d(1), THEN conjunct1] g(1)] obtain st2 where
    c: "st_end i st1 = st2" "st_changes st2 = map snd new" "st_Rev st2 = st_Rev (w_store ws) + (if new = [] then 0 else 1)"
    "map (change_event (st_Rev st2)) (map snd new) = map ent_event new"
    "if new = [] then w_inv (ws\<lparr>w_store := st2\<lparr>st_changes := []\<rparr>\<rparr>) \<and> w_later ws (ws\<lparr>w_store := st2\<lparr>st_changes := []\<rparr>\<rparr>)
     else \<exists>ws'. w_notify ord (st_Rev st2) (map ent_event new) (ws\<lparr>w_store := st2\<lparr>st_changes := []\<rparr>\<rparr>) = Some ws' \<and> w_inv ws' \<and> w_later ws ws' \<and>
       w_store ws' = st2\<lparr>st_changes := []\<rparr>" by blast
  have sd: "st_DeleteRange i key None (w_store ws) = Some (st2, int (length new), st_Rev st2)"
    using d(1) c(1) g(2) by (simp add: st_DeleteRange_def st_Rev_def Let_def)
  let ?w = "ws\<lparr>w_store := st2\<lparr>st_changes := []\<rparr>\<rparr>"
  show ?thesis
  proof (cases "new = []")
    case True
    then have "w_DeleteRange ord i key None ws = Some (?w, 0, st_Rev st2)" using c(2) by (simp add: w_DeleteRange_def sd st_getChanges_def Let_def)
    then show ?thesis using sd c(5) True by (intro exI [of _ ?w] exI [of _ 0] exI [of _ "st_Rev st2"] exI [of _ st2]) simp
  next
    case False
    then obtain x where x: "new = [x]" using one by (cases new) auto
    have "st_changes st1 = [snd x]" using g(1) ch x by (simp add: grows_def)
    then obtain k where "snd x = zero_KeyValue\<lparr>kv_Key := k\<rparr>" unfolding d(3) by (auto dest: sym)
    then have z: "kv_CreateRevision (snd x) = 0" by (simp add: zero_KeyValue_def)
    have ch2: "st_changes st2 = [snd x]" using c(2) x by simp
    have "ent_event x = \<lparr>we_Type = DELETE, we_Kv = (snd x)\<lparr>kv_ModRevision := st_Rev st2\<rparr>\<rparr>" using c(4) x z by (simp add: change_event_def)
    then have "w_DeleteRange ord i key None ws = map_option (\<lambda>ws. (ws, 1, st_Rev st2)) (w_notify ord (st_Rev st2) (map ent_event new) ?w)"
      using x ch2 by (simp add: w_DeleteRange_def sd st_getChanges_def Let_def map_conv_bind_option comp_def)
    then show ?thesis using sd c(5) x by auto
  qed
qed

lemma DeleteKey_now:
  assumes inv: "w_inv ws" and ord: "ord_ok ord"
  shows "\<exists>ws' n r. w_DeleteRange ord i key None ws = Some (ws', n, r) \<and> w_inv ws' \<and> w_later ws ws' \<and>
    st_now (w_store ws') = (st_now (w_store ws))(key := None) \<and> (\<forall>l. st_keys (w_store ws') l = None \<longleftrightarrow> st_keys (w_store ws) l = None)"
proof -
  have ok: "st_ok (w_store ws)" using inv by (simp add: w_inv_def)
  from DeleteKey_watch [OF inv ord, of i key] obtain ws' n r st' where
    d: "w_DeleteRange ord i key None ws = Some (ws', n, r)" "w_inv ws'" "w_later ws ws'"
    "st_DeleteRange i key None (w_store ws) = Some (st', n, r)" "w_store ws' = st'\<lparr>st_changes := []\<rparr>" by blast
  from DeleteRange_one [OF ok, of i key] d(4) have
    "st_now st' = (st_now (w_store ws))(key := None)" "\<forall>l. st_keys st' l = None \<longleftrightarrow> st_keys (w_store ws) l = None" by auto
  then show ?thesis using d(1-3) by (simp add: d(5))
qed

lemma delete_items_watch:
  assumes "w_inv ws" "ord_ok ord"
  shows "\<exists>ws'. ofold (\<lambda>k ws. map_option fst (w_DeleteRange ord i k None ws)) items ws = Some ws' \<and> w_inv ws' \<and> w_later ws ws' \<and>
    st_now (w_store ws') = (\<lambda>k. if k \<in> set items then None else st_now (w_store ws) k) \<and>
    (\<forall>l. st_keys (w_store ws') l = None \<longleftrightarrow> st_keys (w_store ws) l = None)"
  using assms(1)
proof (induction items arbitrary: ws)
  case Nil
  then show ?case using w_later_refl by auto
next
  case (Cons k items)
  from DeleteKey_now [OF Cons.prems assms(2), of i k] obtain ws1 n r where
    d: "w_DeleteRange ord i k None ws = Some (ws1, n, r)" "w_inv ws1" "w_later ws ws1"
    "st_now (w_store ws1) = (st_now (w_store ws))(k := None)" "\<forall>l. st_keys (w_store ws1) l = None \<longleftrightarrow> st_keys (w_store ws) l = None" by blast
  from Cons.IH [OF d(2)] obtain ws' where
    e: "ofold (\<lambda>k ws. map_option fst (w_DeleteRange ord i k None ws)) items ws1 = Some ws'" "w_inv ws'" "w_later ws1 ws'"
    "st_now (w_store ws') = (\<lambda>k. if k \<in> set items then None else st_now (w_store ws1) k)"
    "\<forall>l. st_keys (w_store ws') l = None \<longleftrightarrow> st_keys (w_store ws1) l = None" by blast
  have "st_now (w_store ws') = (\<lambda>j. if j \<in> set (k # items) then None else st_now (w_store ws) j)" unfolding e(4) d(4) by auto
  then show ?case using d(1,5) e(1,2,5) w_later_trans [OF d(3) e(3)] by simp
qed

text \<open>Changes of the store that concern no event after the compaction.\<close>

definition st_calm :: "store \<Rightarrow> store \<Rightarrow> bool" where
  "st_calm st st' \<longleftrightarrow> st_ok st' \<and> st_Rev st' = st_Rev st \<and> st_compactMainRev st \<le> st_compactMainRev st' \<and> st_changes st' = st_changes st \<and>
     (\<exists>P. st_key st' = filter P (st_key st) \<and> (\<forall>x \<in> set (st_key st). st_compactMainRev st' < rmain (fst (fst x)) \<longrightarrow> P x))"

lemma calm_later:
  assumes inv: "w_inv ws" and c: "st_calm (w_store ws) st'"
  shows "w_inv (ws\<lparr>w_store := st'\<rparr>) \<and> w_later ws (ws\<lparr>w_store := st'\<rparr>)"
proof -
  let ?st = "w_store ws"
  from c obtain P where P: "st_ok st'" "st_Rev st' = st_Rev ?st" "st_compactMainRev ?st \<le> st_compactMainRev st'" "st_changes st' = st_changes ?st"
    "st_key st' = filter P (st_key ?st)" "\<forall>x \<in> set (st_key ?st). st_compactMainRev st' < rmain (fst (fst x)) \<longrightarrow> P x" by (auto simp: st_calm_def)
  have "w_inv (ws\<lparr>w_store := st'\<rparr>)" using inv P by (intro store_inv [OF inv]) (auto simp: w_inv_def intro: cr_ok_filter)
  moreover have "st_events st' f hi Q = st_events ?st f hi Q" if "st_compactMainRev st' < f" for f hi Q
    unfolding st_events_def P(5) filter_filter using P(6) that by (intro arg_cong [of _ _ "map ent_event"] filter_cong) auto
  then have "tracks f (lv a (ws\<lparr>w_store := st'\<rparr>)) \<longleftrightarrow> tracks f (lv a ws)" if "st_compactMainRev st' < f" for f a
    using that by (simp add: tracks_def lv_def w_got_def P(2))
  ultimately show ?thesis using P(3) by (simp add: w_later_def)
qed

lemma calm_same: "st_ok st' \<Longrightarrow> st_Rev st' = st_Rev st \<Longrightarrow> st_compactMainRev st \<le> st_compactMainRev st' \<Longrightarrow> st_changes st' = st_changes st \<Longrightarrow>
    st_key st' = st_key st \<Longrightarrow> st_calm st st'"
  unfolding st_calm_def by (auto intro!: exI [of _ "\<lambda>_. True"])

lemma Revoke_watch:
  assumes inv: "w_inv ws" and ord: "ord_ok ord" and l: "st_keys (w_store ws) l = Some ks"
  shows "\<exists>ws'. w_Revoke ord i l ws = Some (Inr ws') \<and> w_inv ws' \<and> w_later ws ws'"
proof -
  have ok: "st_ok (w_store ws)" using inv by (simp add: w_inv_def)
  from l obtain le x where le: "st_le (w_store ws) = Some le" "map_of (le_leaseMap le) l = Some x" "ks = set (ls_itemSet x)"
    by (auto simp: st_keys_def split: option.splits)
  have ks: "set (ls_itemSet x) = {k. lease_of (st_now (w_store ws) k) = l}" "l \<noteq> NoLease"
    using ok l le(3) by (auto simp: st_ok_def lease_inv_def lease_ok_def)
  from delete_items_watch [OF inv ord, of i "ls_itemSet x"] obtain ws1 where
    s: "ofold (\<lambda>k ws. map_option fst (w_DeleteRange ord i k None ws)) (ls_itemSet x) ws = Some ws1" "w_inv ws1" "w_later ws ws1"
    "st_now (w_store ws1) = (\<lambda>k. if k \<in> set (ls_itemSet x) then None else st_now (w_store ws) k)"
    "\<forall>l. st_keys (w_store ws1) l = None \<longleftrightarrow> st_keys (w_store ws) l = None" by blast
  let ?st = "w_store ws1"
  have "st_keys ?st l \<noteq> None" using s(5) l by simp
  then obtain le1 where le1: "st_le ?st = Some le1" by (auto simp: st_keys_def split: option.splits)
  let ?s = "?st\<lparr>st_le := Some (le_remove l le1)\<rparr>"
  have ok1: "st_ok ?st" using s(2) by (simp add: w_inv_def)
  have K: "st_keys ?s = (st_keys ?st)(l := None)" using le1 by (auto simp: st_keys_def le_remove_def delete_conv' fun_eq_iff)
  have "lease_of (st_now ?st k) \<noteq> l" for k using ks by (auto simp: s(4) lease_of_def)
  then have "lease_ok (st_keys ?s) (st_now ?st)" using ok1 unfolding K by (auto simp: st_ok_def lease_inv_def lease_ok_def)
  from le_later [OF ok1 this] have "st_calm ?st ?s" by (intro calm_same) (auto simp: st_Rev_def)
  from calm_later [OF s(2) this] have "w_inv (ws1\<lparr>w_store := ?s\<rparr>)" "w_later ws1 (ws1\<lparr>w_store := ?s\<rparr>)" by auto
  moreover have "w_Revoke ord i l ws = Some (Inr (ws1\<lparr>w_store := ?s\<rparr>))" using le s(1) le1 by (simp add: w_Revoke_def le_items_def)
  ultimately show ?thesis using w_later_trans [OF s(3)] by blast
qed

end
