(* ===== verification/Mvcc_Watch_Stream.thy ===== *)
theory Mvcc_Watch_Stream
  imports Mvcc_Watch_Steps
begin

text \<open>
  Streams of watches: creating and cancelling watchers, and closing a stream.
\<close>

section \<open>Streams\<close>

lemma upd_sel [simp]:
  "w_store (upd_stream c f ws) = w_store ws" "w_unsynced (upd_stream c f ws) = w_unsynced ws" "w_synced (upd_stream c f ws) = w_synced ws"
  "w_heap (upd_stream c f ws) = w_heap ws" "w_next (upd_stream c f ws) = w_next ws" "w_nstreams (upd_stream c f ws) = w_nstreams ws"
  "w_streams (upd_stream c f ws) = (w_streams ws)(c := f (w_streams ws c))"
  by (simp_all add: upd_stream_def)

lemma same_later:
  assumes "w_next ws \<le> w_next ws'" "w_store ws' = w_store ws" "\<forall>a < w_next ws. lv a ws' = lv a ws"
  shows "w_later ws ws'"
  using assms by (auto simp: w_later_def lv_def)

lemma recv_ok:
  assumes inv: "w_inv ws" and r: "ws_recvOne c ws = Some (r, ws')"
  shows "w_inv ws' \<and> w_later ws ws'"
proof -
  have ws': "ws' = upd_stream c (\<lambda>s. s\<lparr>ws_recv := ws_recv s + 1\<rparr>) ws" using r by (auto simp: ws_recvOne_def Let_def split: if_splits)
  have sel: "\<And>d. ws_nextID (w_streams ws' d) = ws_nextID (w_streams ws d)" "\<And>d. ws_closed (w_streams ws' d) = ws_closed (w_streams ws d)"
    "\<And>d. ws_cancels (w_streams ws' d) = ws_cancels (w_streams ws d)" "\<And>d. ws_sent (w_streams ws' d) = ws_sent (w_streams ws d)"
    "w_heap ws' = w_heap ws" "w_next ws' = w_next ws" "w_nstreams ws' = w_nstreams ws" "w_unsynced ws' = w_unsynced ws" "w_synced ws' = w_synced ws" "w_store ws' = w_store ws"
    by (simp_all add: ws')
  have "w_inv ws'" using inv unfolding w_inv_def w_ids_def sel by blast
  moreover have "lv a ws' = lv a ws" for a by (simp add: lv_def w_got_def sel)
  ultimately show ?thesis by (auto intro!: same_later simp: sel)
qed

lemma NewWatchStream_ok:
  assumes inv: "w_inv ws"
  shows "w_inv (snd (w_NewWatchStream ws)) \<and> w_later ws (snd (w_NewWatchStream ws))"
proof -
  let ?ws = "snd (w_NewWatchStream ws)" and ?n = "w_nstreams ws"
  have ids: "w_ids ws" using inv by (simp add: w_inv_def)
  have sel: "w_heap ?ws = w_heap ws" "w_next ?ws = w_next ws" "w_unsynced ?ws = w_unsynced ws" "w_synced ?ws = w_synced ws" "w_store ?ws = w_store ws"
    "w_nstreams ?ws = ?n + 1" "ws_sent (w_streams ?ws ?n) = []" "\<And>d. d \<noteq> ?n \<Longrightarrow> w_streams ?ws d = w_streams ws d" by (simp_all add: w_NewWatchStream_def)
  have ch: "w_streams ?ws (wa_ch (w_heap ws a)) = w_streams ws (wa_ch (w_heap ws a))" "wa_ch (w_heap ws a) < ?n" if "a < w_next ws" for a
    using ids that sel(8) [of "wa_ch (w_heap ws a)"] by (auto simp: w_ids_def)
  have lt: "a < w_next ws" if "a \<in> unsynced ws \<union> synced ws" for a using ids that by (auto simp: w_ids_def)
  have "w_ids ?ws"
    unfolding w_ids_def sel(1-4,6)
  proof (intro conjI)
    show "\<forall>a \<in> unsynced ws \<union> synced ws. a < w_next ws" using lt by blast
    show "\<forall>a < w_next ws. wa_ch (w_heap ws a) < ?n + 1 \<and> wa_id (w_heap ws a) < ws_nextID (w_streams ?ws (wa_ch (w_heap ws a)))"
      using ids ch by (force simp: w_ids_def)
    show "\<forall>a < w_next ws. \<forall>b < w_next ws. wa_ch (w_heap ws a) = wa_ch (w_heap ws b) \<and> wa_id (w_heap ws a) = wa_id (w_heap ws b) \<longrightarrow> a = b"
      using ids by (simp add: w_ids_def)
    show "\<forall>c. \<forall>r \<in> set (ws_sent (w_streams ?ws c)). wr_WatchID r < ws_nextID (w_streams ?ws c)"
    proof (intro allI ballI)
      fix c r assume "r \<in> set (ws_sent (w_streams ?ws c))"
      then have "c \<noteq> ?n" using sel(7) by auto
      with sel(8) ids \<open>r \<in> _\<close> show "wr_WatchID r < ws_nextID (w_streams ?ws c)" by (simp add: w_ids_def)
    qed
    show "\<forall>a \<in> unsynced ws \<union> synced ws. \<not> ws_closed (w_streams ?ws (wa_ch (w_heap ws a))) \<and>
        map_of (ws_cancels (w_streams ?ws (wa_ch (w_heap ws a)))) (wa_id (w_heap ws a)) = Some a"
      using ids ch(1) lt by (simp add: w_ids_def)
  qed
  then have "w_inv ?ws" using inv by (simp add: w_inv_def sel)
  moreover have "\<forall>a < w_next ws. lv a ?ws = lv a ws" using ch(1) by (simp add: lv_def w_got_def sel)
  ultimately show ?thesis by (auto intro!: same_later simp: sel)
qed

lemma progress_ok:
  assumes inv: "w_inv ws"
  shows "\<exists>ws'. ws_RequestProgress c i ws = Some ws' \<and> w_inv ws' \<and> w_later ws ws'"
proof (cases "map_of (ws_watchers (w_streams ws c)) i")
  case None
  then show ?thesis using inv w_later_refl by (auto simp: ws_RequestProgress_def)
next
  case (Some wa)
  show ?thesis
  proof (cases "wa \<in> synced ws")
    case False
    then show ?thesis using inv Some w_later_refl by (auto simp: ws_RequestProgress_def w_progress_def Let_def)
  next
    case True
    let ?r = "\<lparr>wr_WatchID = wa_id (w_heap ws wa), wr_Events = [], wr_Revision = st_Rev (w_store ws), wr_CompactRevision = 0\<rparr>"
    from send_ok [OF inv disjI2 [OF True], of ?r] obtain b ws' where
      s: "w_send (wa_ch (w_heap ws wa)) ?r ws = Some (b, ws')" "w_inv ws'" "w_next ws' = w_next ws" "w_store ws' = w_store ws" "w_heap ws' = w_heap ws"
      "w_unsynced ws' = w_unsynced ws" "w_synced ws' = w_synced ws" "\<forall>x < w_next ws. x \<noteq> wa \<longrightarrow> lv x ws' = lv x ws" "w_got wa ws' = w_got wa ws" by auto
    then have "\<forall>x < w_next ws. lv x ws' = lv x ws" by (auto simp: lv_def)
    then have "w_later ws ws'" using s(3,4) by (intro same_later) auto
    then show ?thesis using s True Some by (auto simp: ws_RequestProgress_def w_progress_def Let_def)
  qed
qed

text \<open>A watcher that is taken out of both groups keeps what it has received.\<close>

lemma tracks_dropped:
  assumes "tracks f (st, w, u, s, g)" "u \<longrightarrow> wa_cur w \<le> st_Rev st"
  shows "tracks f (st, w, False, False, g)"
proof (cases s)
  case True
  then show ?thesis using assms(1) by (auto simp: tracks_def intro: exI [of _ "st_Rev st"])
next
  case False
  then show ?thesis using assms by (cases u) (auto simp: tracks_def intro: exI [of _ "wa_cur w - 1"])
qed

lemma cancel_ok:
  assumes inv: "w_inv ws"
  shows "\<exists>ws'. w_cancel wa ws = Some ws' \<and> w_inv ws' \<and> w_later ws ws' \<and> w_next ws' = w_next ws \<and> w_store ws' = w_store ws \<and> w_heap ws' = w_heap ws \<and>
    w_streams ws' = w_streams ws \<and> w_nstreams ws' = w_nstreams ws \<and> unsynced ws' = unsynced ws - {wa} \<and> synced ws' = synced ws - {wa}"
proof -
  from dropU_ok [OF inv, of wa] obtain b u' where
    u: "wg_delete (w_heap ws) wa (w_unsynced ws) = Some (b, u')" "b \<longrightarrow> wa \<in> unsynced ws" "w_inv (ws\<lparr>w_unsynced := u'\<rparr>)"
    "\<forall>x. x \<noteq> wa \<longrightarrow> lv x (ws\<lparr>w_unsynced := u'\<rparr>) = lv x ws"
    "lv wa (ws\<lparr>w_unsynced := u'\<rparr>) = (w_store ws, w_heap ws wa, False, wa \<in> synced ws, w_got wa ws)" by blast
  let ?w = "ws\<lparr>w_unsynced := u'\<rparr>"
  from dropS_ok [OF u(3), of wa] obtain b' g' where
    s: "wg_delete (w_heap ?w) wa (w_synced ?w) = Some (b', g')" "w_inv (?w\<lparr>w_synced := g'\<rparr>)"
    "\<forall>x. x \<noteq> wa \<longrightarrow> lv x (?w\<lparr>w_synced := g'\<rparr>) = lv x ?w"
    "lv wa (?w\<lparr>w_synced := g'\<rparr>) = (w_store ?w, w_heap ?w wa, wa \<in> unsynced ?w, False, w_got wa ?w)" by blast
  define ws' where "ws' = (if b then ?w else ?w\<lparr>w_synced := g'\<rparr>)"
  have c: "w_cancel wa ws = Some ws'" using u(1) s(1) by (simp add: w_cancel_def ws'_def)
  have d: "wa \<in> unsynced ws \<longrightarrow> wa \<notin> synced ws" using inv by (auto simp: w_inv_def)
  have U: "unsynced ?w = unsynced ws - {wa}"
  proof (rule set_eqI)
    fix x show "x \<in> unsynced ?w \<longleftrightarrow> x \<in> unsynced ws - {wa}" using u(4,5) by (cases "x = wa") (auto simp: lv_def)
  qed
  have S: "synced (?w\<lparr>w_synced := g'\<rparr>) = synced ws - {wa}"
  proof (rule set_eqI)
    fix x show "x \<in> synced (?w\<lparr>w_synced := g'\<rparr>) \<longleftrightarrow> x \<in> synced ws - {wa}" using s(3,4) by (cases "x = wa") (auto simp: lv_def)
  qed
  have us: "unsynced ws' = unsynced ws - {wa}" "synced ws' = synced ws - {wa}"
    unfolding ws'_def using U S u(2) d by auto
  have sel: "w_next ws' = w_next ws" "w_store ws' = w_store ws" "w_heap ws' = w_heap ws" "w_streams ws' = w_streams ws" "w_nstreams ws' = w_nstreams ws"
    by (simp_all add: ws'_def)
  have "w_inv ws'" using u(3) s(2) by (simp add: ws'_def)
  moreover have "tracks f (lv a ws')" if "tracks f (lv a ws)" for f a
  proof (cases "a = wa")
    case True
    have l: "lv a ws' = (w_store ws, w_heap ws a, False, False, w_got a ws)" by (simp add: lv_def us sel True w_got_def)
    have "tracks f (w_store ws, w_heap ws a, a \<in> unsynced ws, a \<in> synced ws, w_got a ws)" using that by (simp add: lv_def)
    from tracks_dropped [OF this] show ?thesis using inv unfolding l by (simp add: w_inv_def)
  next
    case False
    then have "lv a ws' = lv a ws" by (simp add: lv_def us sel w_got_def)
    then show ?thesis using that by simp
  qed
  ultimately show ?thesis using c us sel by (auto simp: w_later_def)
qed

lemma w_ids_streams:
  assumes "w_ids ws" "unsynced ws' = unsynced ws" "synced ws' = synced ws" "w_next ws' = w_next ws" "w_nstreams ws' = w_nstreams ws" "w_heap ws' = w_heap ws"
    "\<And>c. ws_nextID (w_streams ws' c) = ws_nextID (w_streams ws c)" "\<And>c. ws_sent (w_streams ws' c) = ws_sent (w_streams ws c)"
    "\<And>a. a \<in> unsynced ws \<union> synced ws \<Longrightarrow> \<not> ws_closed (w_streams ws' (wa_ch (w_heap ws a))) \<and>
       map_of (ws_cancels (w_streams ws' (wa_ch (w_heap ws a)))) (wa_id (w_heap ws a)) = Some a"
  shows "w_ids ws'"
  using assms(1,9) unfolding w_ids_def assms(2-8) by blast

lemma Cancel_ok:
  assumes inv: "w_inv ws"
  shows "\<exists>b ws'. ws_Cancel c i ws = Some (b, ws') \<and> w_inv ws' \<and> w_later ws ws'"
proof (cases "map_of (ws_cancels (w_streams ws c)) i")
  case None
  then show ?thesis using inv w_later_refl by (auto simp: ws_Cancel_def)
next
  case (Some wa)
  from cancel_ok [OF inv, of wa] obtain ws1 where
    d: "w_cancel wa ws = Some ws1" "w_inv ws1" "w_later ws ws1" "w_heap ws1 = w_heap ws" "w_streams ws1 = w_streams ws"
    "unsynced ws1 = unsynced ws - {wa}" "synced ws1 = synced ws - {wa}" by blast
  let ?ws = "upd_stream c (\<lambda>s. s\<lparr>ws_cancels := AList.delete i (ws_cancels s), ws_watchers := AList.delete i (ws_watchers s)\<rparr>) ws1"
  have ids: "w_ids ws1" using d(2) by (simp add: w_inv_def)
  have "w_ids ?ws"
  proof (rule w_ids_streams [OF ids])
    fix a assume a: "a \<in> unsynced ws1 \<union> synced ws1"
    then have m: "\<not> ws_closed (w_streams ws1 (wa_ch (w_heap ws1 a)))" "map_of (ws_cancels (w_streams ws1 (wa_ch (w_heap ws1 a)))) (wa_id (w_heap ws1 a)) = Some a"
      using ids by (auto simp: w_ids_def)
    have "\<not> (wa_ch (w_heap ws1 a) = c \<and> wa_id (w_heap ws1 a) = i)"
    proof
      assume "wa_ch (w_heap ws1 a) = c \<and> wa_id (w_heap ws1 a) = i"
      then have "a = wa" using m(2) Some d(5) by simp
      then show False using a d(6,7) by simp
    qed
    then show "\<not> ws_closed (w_streams ?ws (wa_ch (w_heap ws1 a))) \<and>
       map_of (ws_cancels (w_streams ?ws (wa_ch (w_heap ws1 a)))) (wa_id (w_heap ws1 a)) = Some a"
      using m by (auto simp: delete_conv')
  qed auto
  then have "w_inv ?ws" using d(2) by (simp add: w_inv_def)
  moreover have "lv a ?ws = lv a ws1" for a by (simp add: lv_def w_got_def)
  then have "w_later ws1 ?ws" by (intro same_later) auto
  ultimately show ?thesis using d(1) Some w_later_trans [OF d(3)] by (auto simp: ws_Cancel_def)
qed

lemma cancel_all_ok:
  assumes "w_inv ws"
  shows "\<exists>ws'. ofold w_cancel was ws = Some ws' \<and> w_inv ws' \<and> w_later ws ws' \<and> w_heap ws' = w_heap ws \<and> w_streams ws' = w_streams ws \<and>
    unsynced ws' = unsynced ws - set was \<and> synced ws' = synced ws - set was"
  using assms
proof (induction was arbitrary: ws)
  case Nil
  then show ?case using w_later_refl by auto
next
  case (Cons wa was)
  from cancel_ok [OF Cons.prems, of wa] obtain ws1 where
    d: "w_cancel wa ws = Some ws1" "w_inv ws1" "w_later ws ws1" "w_heap ws1 = w_heap ws" "w_streams ws1 = w_streams ws"
    "unsynced ws1 = unsynced ws - {wa}" "synced ws1 = synced ws - {wa}" by blast
  from Cons.IH [OF d(2)] obtain ws' where
    e: "ofold w_cancel was ws1 = Some ws'" "w_inv ws'" "w_later ws1 ws'" "w_heap ws' = w_heap ws1" "w_streams ws' = w_streams ws1"
    "unsynced ws' = unsynced ws1 - set was" "synced ws' = synced ws1 - set was" by blast
  show ?case using d e w_later_trans [OF d(3) e(3)] by (intro exI [of _ ws']) auto
qed

lemma Close_ok:
  assumes inv: "w_inv ws" and o: "\<not> ws_closed (w_streams ws c)"
  shows "\<exists>ws'. ws_Close c ws = Some ws' \<and> w_inv ws' \<and> w_later ws ws'"
proof -
  let ?was = "map snd (ws_cancels (w_streams ws c))"
  from cancel_all_ok [OF inv, of ?was] obtain ws1 where
    d: "ofold w_cancel ?was ws = Some ws1" "w_inv ws1" "w_later ws ws1" "w_heap ws1 = w_heap ws" "w_streams ws1 = w_streams ws"
    "unsynced ws1 = unsynced ws - set ?was" "synced ws1 = synced ws - set ?was" by blast
  let ?ws = "upd_stream c (\<lambda>s. s\<lparr>ws_closed := True\<rparr>) ws1"
  have ids: "w_ids ws1" using d(2) by (simp add: w_inv_def)
  have "w_ids ?ws"
  proof (rule w_ids_streams [OF ids])
    fix a assume a: "a \<in> unsynced ws1 \<union> synced ws1"
    then have m: "\<not> ws_closed (w_streams ws1 (wa_ch (w_heap ws1 a)))" "map_of (ws_cancels (w_streams ws1 (wa_ch (w_heap ws1 a)))) (wa_id (w_heap ws1 a)) = Some a"
      using ids by (auto simp: w_ids_def)
    have "wa_ch (w_heap ws1 a) \<noteq> c"
    proof
      assume "wa_ch (w_heap ws1 a) = c"
      then have "a \<in> set ?was" using m(2) d(5) by (force dest: map_of_SomeD)
      then show False using a d(6,7) by simp
    qed
    then show "\<not> ws_closed (w_streams ?ws (wa_ch (w_heap ws1 a))) \<and>
       map_of (ws_cancels (w_streams ?ws (wa_ch (w_heap ws1 a)))) (wa_id (w_heap ws1 a)) = Some a"
      using m by auto
  qed auto
  then have "w_inv ?ws" using d(2) by (simp add: w_inv_def)
  moreover have "lv a ?ws = lv a ws1" for a by (simp add: lv_def w_got_def)
  then have "w_later ws1 ?ws" by (intro same_later) auto
  ultimately show ?thesis using d(1,5) o w_later_trans [OF d(3)] by (auto simp: ws_Close_def)
qed

text \<open>A new watcher.\<close>

definition start_rev :: "int \<Rightarrow> store \<Rightarrow> int" where
  "start_rev startRev st = (if startRev = 0 then st_Rev st + 1 else startRev)"

lemma Watch_ok:
  assumes inv: "w_inv ws" and c: "c < w_nstreams ws" "\<not> ws_closed (w_streams ws c)"
  shows "\<exists>ws'. ws_Watch c key end startRev ws = Some (ws_nextID (w_streams ws c), ws') \<and> w_inv ws' \<and> w_later ws ws' \<and> w_store ws' = w_store ws \<and>
    w_next ws' = w_next ws + 1 \<and> wa_ch (w_heap ws' (w_next ws)) = c \<and> wa_id (w_heap ws' (w_next ws)) = ws_nextID (w_streams ws c) \<and>
    wa_key (w_heap ws' (w_next ws)) = key \<and> wa_end (w_heap ws' (w_next ws)) = end \<and>
    tracks (start_rev startRev (w_store ws)) (lv (w_next ws) ws')"
proof -
  let ?wa = "w_next ws" and ?i = "ws_nextID (w_streams ws c)" and ?R = "st_Rev (w_store ws)"
  let ?sy = "startRev > ?R \<or> startRev = 0"
  let ?cur = "if ?sy then (if startRev > ?R + 1 then startRev else ?R + 1) else startRev"
  define w where "w = \<lparr>wa_key = key, wa_end = end, wa_cur = ?cur, wa_id = ?i, wa_ch = c\<rparr>"
  let ?h = "(w_heap ws)(?wa := w)"
  have ids: "w_ids ws" using inv by (simp add: w_inv_def)
  have nin: "?wa \<notin> unsynced ws" "?wa \<notin> synced ws" using w_inv_member [OF inv, of ?wa] by auto
  have U: "wg_inv ?h (w_unsynced ws)" and S: "wg_inv ?h (w_synced ws)"
    using inv nin by (auto simp: w_inv_def intro!: wg_inv_frame [of "w_heap ws"])
  from wg_add_ok [OF U nin(1)] obtain u' where u: "wg_add ?h ?wa (w_unsynced ws) = Some u'" "wg_inv ?h u'" "set (wg_watchers u') = insert ?wa (unsynced ws)" by blast
  from wg_add_ok [OF S nin(2)] obtain s' where s: "wg_add ?h ?wa (w_synced ws) = Some s'" "wg_inv ?h s'" "set (wg_watchers s') = insert ?wa (synced ws)" by blast
  let ?f = "\<lambda>s. s\<lparr>ws_nextID := ?i + 1, ws_cancels := AList.update ?i ?wa (ws_cancels s), ws_watchers := AList.update ?i ?wa (ws_watchers s)\<rparr>"
  let ?st = "(w_streams ws)(c := ?f (w_streams ws c))"
  define ws' where "ws' = (if ?sy then ws\<lparr>w_next := ?wa + 1, w_heap := ?h, w_synced := s', w_streams := ?st\<rparr>
     else ws\<lparr>w_next := ?wa + 1, w_heap := ?h, w_unsynced := u', w_streams := ?st\<rparr>)"
  have run: "ws_Watch c key end startRev ws = Some (?i, ws')"
  proof -
    define cu where "cu = ?cur"
    have w': "w = \<lparr>wa_key = key, wa_end = end, wa_cur = cu, wa_id = ?i, wa_ch = c\<rparr>" by (simp add: w_def cu_def)
    have "w_watch key end startRev ?i c (upd_stream c (\<lambda>s. s\<lparr>ws_nextID := ?i + 1\<rparr>) ws) =
      Some (?wa, if ?sy then ws\<lparr>w_streams := (w_streams ws)(c := (w_streams ws c)\<lparr>ws_nextID := ?i + 1\<rparr>), w_next := ?wa + 1, w_heap := ?h, w_synced := s'\<rparr>
        else ws\<lparr>w_streams := (w_streams ws)(c := (w_streams ws c)\<lparr>ws_nextID := ?i + 1\<rparr>), w_next := ?wa + 1, w_heap := ?h, w_unsynced := u'\<rparr>)"
    proof (cases ?sy)
      case True
      note s(1) [unfolded w']
      then show ?thesis unfolding w_watch_def Let_def upd_sel st_Rev_def [symmetric] cu_def [symmetric] w'
        unfolding if_P [OF True] by (simp add: upd_stream_def)
    next
      case False
      note u(1) [unfolded w']
      then show ?thesis unfolding w_watch_def Let_def upd_sel st_Rev_def [symmetric] cu_def [symmetric] w'
        unfolding if_not_P [OF False] by (simp add: upd_stream_def)
    qed
    then show ?thesis using c(2) by (auto simp: ws_Watch_def Let_def ws'_def upd_stream_def)
  qed
  have sel: "w_next ws' = ?wa + 1" "w_heap ws' = ?h" "w_streams ws' = ?st" "w_store ws' = w_store ws" "w_nstreams ws' = w_nstreams ws"
    "w_unsynced ws' = (if ?sy then w_unsynced ws else u')" "w_synced ws' = (if ?sy then s' else w_synced ws)" by (simp_all add: ws'_def)
  have us: "unsynced ws' = (if ?sy then unsynced ws else insert ?wa (unsynced ws))" "synced ws' = (if ?sy then insert ?wa (synced ws) else synced ws)"
    using u(3) s(3) by (simp_all add: sel)
  have lt: "a < ?wa" if "a \<in> unsynced ws \<union> synced ws" for a using that w_inv_member [OF inv] by blast
  have old: "wa_ch (w_heap ws a) < w_nstreams ws" "wa_id (w_heap ws a) < ws_nextID (w_streams ws (wa_ch (w_heap ws a)))" if "a < ?wa" for a
    using ids that by (auto simp: w_ids_def)
  have nid: "ws_nextID (w_streams ws d) \<le> ws_nextID (w_streams ws' d)" for d by (simp add: sel(3))
  have "w_ids ws'"
    unfolding w_ids_def
  proof (intro conjI)
    show "\<forall>a \<in> unsynced ws' \<union> synced ws'. a < w_next ws'" using lt by (auto simp: us sel(1-5) less_Suc_eq split: if_splits)
    show "\<forall>a < w_next ws'. wa_ch (w_heap ws' a) < w_nstreams ws' \<and> wa_id (w_heap ws' a) < ws_nextID (w_streams ws' (wa_ch (w_heap ws' a)))"
    proof (intro allI impI)
      fix a assume a: "a < w_next ws'"
      show "wa_ch (w_heap ws' a) < w_nstreams ws' \<and> wa_id (w_heap ws' a) < ws_nextID (w_streams ws' (wa_ch (w_heap ws' a)))"
      proof (cases "a = ?wa")
        case True
        then show ?thesis using c(1) by (simp add: sel(2,3,5) w_def)
      next
        case False
        then have "a < ?wa" using a by (simp add: sel(1))
        from old [OF this] nid [of "wa_ch (w_heap ws a)"] False show ?thesis by (simp add: sel(2,5))
      qed
    qed
    show "\<forall>a < w_next ws'. \<forall>b < w_next ws'. wa_ch (w_heap ws' a) = wa_ch (w_heap ws' b) \<and> wa_id (w_heap ws' a) = wa_id (w_heap ws' b) \<longrightarrow> a = b"
    proof (intro allI impI)
      fix a b assume ab: "a < w_next ws'" "b < w_next ws'" "wa_ch (w_heap ws' a) = wa_ch (w_heap ws' b) \<and> wa_id (w_heap ws' a) = wa_id (w_heap ws' b)"
      have new: False if "x < ?wa" "wa_ch (w_heap ws x) = c" "wa_id (w_heap ws x) = ?i" for x using old(2) [OF that(1)] that(2,3) by simp
      consider "a = ?wa" "b = ?wa" | "a = ?wa" "b < ?wa" | "a < ?wa" "b = ?wa" | "a < ?wa" "b < ?wa" using ab(1,2) sel(1) by linarith
      then show "a = b"
      proof cases
        case 2
        then show ?thesis using new [of b] ab(3) by (auto simp: sel(2) w_def)
      next
        case 3
        then show ?thesis using new [of a] ab(3) by (auto simp: sel(2) w_def)
      next
        case 4
        then show ?thesis using ids ab(3) by (simp add: sel(2) w_ids_def)
      qed simp
    qed
    show "\<forall>c. \<forall>r \<in> set (ws_sent (w_streams ws' c)). wr_WatchID r < ws_nextID (w_streams ws' c)"
    proof (intro allI ballI)
      fix d r assume "r \<in> set (ws_sent (w_streams ws' d))"
      then have "r \<in> set (ws_sent (w_streams ws d))" by (simp add: sel(3) split: if_splits)
      then have "wr_WatchID r < ws_nextID (w_streams ws d)" using ids by (simp add: w_ids_def)
      then show "wr_WatchID r < ws_nextID (w_streams ws' d)" using nid [of d] by simp
    qed
    have g: "\<not> ws_closed (w_streams ws (wa_ch (w_heap ws a))) \<and> map_of (ws_cancels (w_streams ws (wa_ch (w_heap ws a)))) (wa_id (w_heap ws a)) = Some a"
      if "a \<in> unsynced ws \<union> synced ws" for a using ids that by (auto simp: w_ids_def)
    show "\<forall>a \<in> unsynced ws' \<union> synced ws'. \<not> ws_closed (w_streams ws' (wa_ch (w_heap ws' a))) \<and>
        map_of (ws_cancels (w_streams ws' (wa_ch (w_heap ws' a)))) (wa_id (w_heap ws' a)) = Some a"
    proof
      fix a assume a: "a \<in> unsynced ws' \<union> synced ws'"
      show "\<not> ws_closed (w_streams ws' (wa_ch (w_heap ws' a))) \<and>
        map_of (ws_cancels (w_streams ws' (wa_ch (w_heap ws' a)))) (wa_id (w_heap ws' a)) = Some a"
      proof (cases "a = ?wa")
        case True
        then show ?thesis using c(2) by (simp add: sel w_def update_conv')
      next
        case False
        then have a': "a \<in> unsynced ws \<union> synced ws" using a by (auto simp: us split: if_splits)
        then have "wa_id (w_heap ws a) < ws_nextID (w_streams ws (wa_ch (w_heap ws a)))" using old(2) lt by blast
        then show ?thesis using g [OF a'] False by (auto simp: sel update_conv')
      qed
    qed
  qed
  moreover have "unsynced ws' \<inter> synced ws' = {}" using inv nin by (auto simp: us w_inv_def)
  moreover have "\<forall>a \<in> unsynced ws'. wa_cur (w_heap ws' a) \<le> ?R" using inv nin by (auto simp: us sel(1-5) w_inv_def w_def)
  ultimately have inv': "w_inv ws'" using inv u(2) s(2) U S by (auto simp: w_inv_def sel)
  have "w_got a ws' = w_got a ws" if "a < ?wa" for a using that by (auto simp: w_got_def sel)
  then have l: "lv a ws' = lv a ws" if "a < ?wa" for a using that by (auto simp: lv_def us sel(1-5))
  then have later: "w_later ws ws'" by (intro same_later) (auto simp: sel)
  have "got ?i (ws_sent (w_streams ws c)) = []" using ids by (fastforce simp: got_def w_ids_def filter_empty_conv)
  then have "lv ?wa ws' = (w_store ws, w, \<not> ?sy, ?sy, [])" using nin by (auto simp: lv_def us sel(1-5) w_got_def w_def)
  moreover have "1 \<le> ?R" using inv by (simp add: w_inv_def st_ok_def st_idle_def st_inv_def st_Rev_def)
  ultimately have "tracks (start_rev startRev (w_store ws)) (lv ?wa ws')"
    by (auto simp: tracks_def w_def start_rev_def events_empty)
  then show ?thesis using run inv' later by (simp add: sel w_def)
qed

end
