(* ===== verification/Mvcc_Watch_Props.thy ===== *)
theory Mvcc_Watch_Props
  imports Mvcc_Watch_Stream Mvcc_Props
begin

text \<open>
  The runs of the watchable store, what a client that watches receives, and where a client is
  not told that it has missed events.
\<close>

section \<open>Runs\<close>

text \<open>The operations of the store that change no pair.\<close>

inductive st_quiet :: "store \<Rightarrow> store \<Rightarrow> bool" where
  quiet_Range: "st_Range i key end limit rangeRev st = Some (st', res) \<Longrightarrow> st_quiet st st'"
| quiet_Compact: "st_Compact c st = Some (Inr st') \<Longrightarrow> st_quiet st st'"
| quiet_Batch: "st_quiet st (st_compactBatch st)"
| quiet_Grant: "st_le st = Some le \<Longrightarrow> le_Grant now i ttl le = Inr (l, le') \<Longrightarrow> st_quiet st (st\<lparr>st_le := Some le'\<rparr>)"
| quiet_Renew: "st_le st = Some le \<Longrightarrow> le_Renew now i le = Inr (ttl, le') \<Longrightarrow> st_quiet st (st\<lparr>st_le := Some le'\<rparr>)"
| quiet_Promote: "st_le st = Some le \<Longrightarrow> st_quiet st (st\<lparr>st_le := Some (le_Promote now ext le)\<rparr>)"
| quiet_Demote: "st_le st = Some le \<Longrightarrow> st_quiet st (st\<lparr>st_le := Some (le_Demote le)\<rparr>)"

inductive w_step :: "watchableStore \<Rightarrow> watchableStore \<Rightarrow> bool" where
  on_Txn: "ord_ok ord \<Longrightarrow> ofold (txn_exec i) ops (w_store (w_TxnBegin i ws)) = Some st \<Longrightarrow>
    w_TxnEnd ord i (ws\<lparr>w_store := st\<rparr>) = Some (Inr ws') \<Longrightarrow> w_step ws ws'"
| on_Put: "ord_ok ord \<Longrightarrow> w_Put ord i key val l ws = Some (ws', r) \<Longrightarrow> w_step ws ws'"
| on_Delete: "ord_ok ord \<Longrightarrow> w_DeleteRange ord i key None ws = Some (ws', n, r) \<Longrightarrow> w_step ws ws'"
| on_Revoke: "ord_ok ord \<Longrightarrow> w_Revoke ord i l ws = Some (Inr ws') \<Longrightarrow> w_step ws ws'"
| on_Quiet: "st_quiet (w_store ws) st \<Longrightarrow> w_step ws (ws\<lparr>w_store := st\<rparr>)"
| on_Stream: "w_step ws (snd (w_NewWatchStream ws))"
| on_Watch: "c < w_nstreams ws \<Longrightarrow> ws_Watch c key end startRev ws = Some (i, ws') \<Longrightarrow> w_step ws ws'"
| on_Cancel: "ws_Cancel c i ws = Some (b, ws') \<Longrightarrow> w_step ws ws'"
| on_Close: "ws_Close c ws = Some ws' \<Longrightarrow> w_step ws ws'"
| on_Progress: "ws_RequestProgress c i ws = Some ws' \<Longrightarrow> w_step ws ws'"
| on_Recv: "ws_recvOne c ws = Some (r, ws') \<Longrightarrow> w_step ws ws'"
| on_Sync: "ord_ok ord \<Longrightarrow> syncWatchers ord ws = Some ws' \<Longrightarrow> w_step ws ws'"

definition empty_watch :: "lessor option \<Rightarrow> watchableStore" where
  "empty_watch le = fst (the (newWatchableStore ([], None, None) le))"

definition w_reach :: "watchableStore \<Rightarrow> bool" where
  "w_reach ws \<longleftrightarrow> (\<exists>le. (le = None \<or> le = Some (newLessor [])) \<and> w_step\<^sup>*\<^sup>* (empty_watch le) ws)"

lemma batch_calm:
  assumes "st_ok st"
  shows "st_calm st (st_compactBatch st)"
proof (cases "st_jobs st")
  case Nil
  then show ?thesis using assms by (intro calm_same) (auto simp: st_compactBatch_def)
next
  case (Cons j js)
  let ?b = "st_key st" and ?e = "(Revision (cj_rev j + 1) 0, False) :: rkey"
  have bk: "bk_ok ?b" by (rule st_ok_revs [OF assms])
  have j: "cj_rev j \<le> st_compactMainRev st" using assms Cons by (simp add: st_ok_def st_idle_def st_inv_def job_ok_def)
  let ?ks = "map fst (bk_range (cj_last j) (Some ?e) batchsize ?b)"
  have k: "st_key (st_compactBatch st) = filter (\<lambda>x. \<not> (fst x \<in> set ?ks \<and> fst (fst x) \<notin> cj_keep j)) ?b"
    using Cons by (auto simp: st_compactBatch_def Let_def fold_delete)
  have "fst x \<notin> set ?ks" if "x \<in> set ?b" "st_compactMainRev st < rmain (fst (fst x))" for x
  proof
    assume "fst x \<in> set ?ks"
    then have "fst x < ?e" by (auto simp: bk_range_filter [OF bk] Let_def dest!: in_set_takeD split: if_splits)
    moreover have "0 \<le> rsub (fst (fst x))" using st_ok_revs(2) [OF assms] that(1) by (auto simp: entry_ok_def)
    ultimately show False using rkey_bounds(2) [of "fst x" "cj_rev j + 1"] that(2) j by simp
  qed
  moreover have "st_changes (st_compactBatch st) = st_changes st" using Cons by (simp add: st_compactBatch_def Let_def)
  moreover have "st_ok (st_compactBatch st)" using Batch_later [OF assms] by simp
  ultimately show ?thesis unfolding st_calm_def
    by (intro conjI exI [of _ "\<lambda>x. \<not> (fst x \<in> set ?ks \<and> fst (fst x) \<notin> cj_keep j)"] k) (auto simp: st_Rev_def)
qed

lemma quiet_calm: "st_quiet st st' \<Longrightarrow> st_ok st \<Longrightarrow> st_calm st st'"
proof (induction rule: st_quiet.induct)
  case (quiet_Range i key e limit rangeRev st st' res)
  have "st' = st_end i (st_TxnBegin i st)" using quiet_Range(1) by (auto simp: st_Range_def bind_eq_Some_conv Let_def)
  then show ?case using Range_later [OF quiet_Range(2,1)]
    by (intro calm_same) (auto simp: st_end_def st_txnEnd_def st_TxnBegin_def Let_def)
next
  case (quiet_Compact c st st')
  from quiet_Compact(1) have "st_changes st' = st_changes st \<and> st_key st' = st_key st"
    by (auto simp: st_Compact_def bind_eq_Some_conv Let_def split: if_splits)
  then show ?case using Compact_later [OF quiet_Compact(2,1)] by (intro calm_same) auto
next
  case (quiet_Batch st)
  then show ?case by (rule batch_calm)
next
  case (quiet_Grant st le now i ttl l le')
  then show ?case using step_later [OF step_Grant] by (intro calm_same) (auto simp: st_Rev_def)
next
  case (quiet_Renew st le now i ttl le')
  then show ?case using step_later [OF step_Renew] by (intro calm_same) (auto simp: st_Rev_def)
next
  case (quiet_Promote st le now ext)
  then show ?case using step_later [OF step_Promote] by (intro calm_same) (auto simp: st_Rev_def)
next
  case (quiet_Demote st le)
  then show ?case using step_later [OF step_Demote] by (intro calm_same) (auto simp: st_Rev_def)
qed

lemma sync_later:
  assumes inv: "w_inv ws" and ord: "ord_ok ord"
  shows "\<exists>ws'. syncWatchers ord ws = Some ws' \<and> w_inv ws' \<and> w_later ws ws'"
proof -
  from sync_ok [OF inv ord] obtain ws' where
    s: "syncWatchers ord ws = Some ws'" "w_inv ws'" "w_next ws' = w_next ws" "w_store ws' = w_store ws" "\<forall>a < w_next ws. sync_eff (lv a ws) (lv a ws')" by blast
  have ok: "st_ok (w_store ws)" using inv by (simp add: w_inv_def)
  have "wa_ch (w_heap ws' a) = wa_ch (w_heap ws a) \<and> wa_id (w_heap ws' a) = wa_id (w_heap ws a) \<and> watches (w_heap ws' a) = watches (w_heap ws a) \<and>
      (\<forall>f. st_compactMainRev (w_store ws') < f \<longrightarrow> tracks f (lv a ws) \<longrightarrow> tracks f (lv a ws'))" if a: "a < w_next ws" for a
  proof -
    obtain st w u sy g where l: "lv a ws = (st, w, u, sy, g)" by (cases "lv a ws") auto
    note li = w_inv_lv [OF inv l]
    have eff: "sync_eff (st, w, u, sy, g) (lv a ws')" using s(5) a l by metis
    have same: "\<exists>r. w = w\<lparr>wa_cur := r\<rparr>" by (intro exI [of _ "wa_cur w"]) simp
    have "\<exists>r. fst (snd (lv a ws')) = w\<lparr>wa_cur := r\<rparr>"
      using eff same by (auto simp: sync_eff_def caught_up_def Let_def split: if_splits)
    then obtain r where "w_heap ws' a = w\<lparr>wa_cur := r\<rparr>" by (auto simp: lv_def)
    moreover have "tracks f (lv a ws')" if "st_compactMainRev (w_store ws') < f" "tracks f (lv a ws)" for f
      using tracks_sync [OF eff that(2) [unfolded l]] li ok that(1) s(4) by simp
    ultimately show ?thesis using li(2) by simp
  qed
  then show ?thesis using s by (auto simp: w_later_def)
qed

lemma put_has_lease:
  assumes "st_ok st" "st_put key val l (st_TxnBegin i st) \<noteq> None"
  shows "l = NoLease \<or> st_keys st l \<noteq> None"
  using put_no_lease [of "st_TxnBegin i st" l key val] begin_txn_ok [OF assms(1), of i] assms(2) by (auto simp: txn_ok_def)

lemma w_step_later: "w_step ws ws' \<Longrightarrow> w_inv ws \<Longrightarrow> w_inv ws' \<and> w_later ws ws'"
proof (induction rule: w_step.induct)
  case (on_Txn ord i ops ws st ws')
  from TxnEnd_later [OF on_Txn(4,1), of i ops st] on_Txn(2,3) show ?case by (auto simp: w_TxnBegin_def)
next
  case (on_Put ord i key val l ws ws' r)
  have ok: "st_ok (w_store ws)" using on_Put(3) by (simp add: w_inv_def)
  have "st_put key val l (st_TxnBegin i (w_store ws)) \<noteq> None" using on_Put(2) by (auto simp: w_Put_def Put_txn [OF ok] bind_eq_Some_conv)
  from Put_watch [OF on_Put(3,1) put_has_lease [OF ok this], of i key val] on_Put(2) show ?case by auto
next
  case (on_Delete ord i key ws ws' n r)
  from DeleteKey_watch [OF on_Delete(3,1), of i key] on_Delete(2) show ?case by auto
next
  case (on_Revoke ord i l ws ws')
  then obtain le x where "st_le (w_store ws) = Some le" "map_of (le_leaseMap le) l = Some x"
    by (auto simp: w_Revoke_def le_items_def bind_eq_Some_conv split: option.splits)
  then have "st_keys (w_store ws) l = Some (set (ls_itemSet x))" by (simp add: st_keys_def)
  from Revoke_watch [OF on_Revoke(3,1) this, of i] on_Revoke(2) show ?case by auto
next
  case (on_Quiet ws st)
  then have "st_calm (w_store ws) st" using quiet_calm by (auto simp: w_inv_def)
  then show ?case using calm_later [OF on_Quiet(2)] by blast
next
  case (on_Stream ws)
  then show ?case by (rule NewWatchStream_ok)
next
  case (on_Watch c ws key e startRev i ws')
  then show ?case using Watch_ok [OF on_Watch(3,1), of key e startRev] w_later_refl
    by (cases "ws_closed (w_streams ws c)") (auto simp: ws_Watch_def)
next
  case (on_Cancel c i ws b ws')
  then show ?case using Cancel_ok [of ws c i] by auto
next
  case (on_Close c ws ws')
  have "\<not> ws_closed (w_streams ws c)"
    using on_Close(1) cancel_all_ok [OF on_Close(2), of "map snd (ws_cancels (w_streams ws c))"] by (auto simp: ws_Close_def)
  from Close_ok [OF on_Close(2) this] on_Close(1) show ?case by auto
next
  case (on_Progress c i ws ws')
  then show ?case using progress_ok [of ws c i] by auto
next
  case (on_Recv c ws r ws')
  then show ?case using recv_ok by blast
next
  case (on_Sync ord ws ws')
  then show ?case using sync_later [of ws ord] by auto
qed

lemma w_run_later: "w_step\<^sup>*\<^sup>* ws ws' \<Longrightarrow> w_inv ws \<Longrightarrow> w_inv ws' \<and> w_later ws ws'"
proof (induction rule: rtranclp_induct)
  case base
  then show ?case using w_later_refl by auto
next
  case (step ws1 ws2)
  then show ?case using w_step_later w_later_trans by blast
qed

lemma empty_watch_inv:
  assumes "le = None \<or> le = Some (newLessor [])"
  shows "w_inv (empty_watch le)"
  using empty_ok [OF assms] wg_inv_new
  by (simp add: empty_watch_def newWatchableStore_def NewStore_empty w_inv_def w_ids_def cr_ok_def)
    (simp add: empty_store_def newWatcherGroup_def)

lemma w_reach_inv: "w_reach ws \<Longrightarrow> w_inv ws"
  using w_run_later empty_watch_inv unfolding w_reach_def by blast

section \<open>What a client receives\<close>

text \<open>The keys of a watch: one key, or the keys from the first up to the end, which is open when it is empty.\<close>

definition watch_range :: "bytes \<Rightarrow> bytes option \<Rightarrow> bytes \<Rightarrow> bool" where
  "watch_range key end k \<longleftrightarrow>
     (case end of None \<Rightarrow> k = key | Some e \<Rightarrow> k \<noteq> [] \<and> key \<noteq> [] \<and> key \<le> k \<and> (e = [] \<or> k < e))"

lemma watches_range: "watches w = watch_range (wa_key w) (wa_end w)"
  by (auto simp: fun_eq_iff watches_def watch_range_def stab_range stab_empty split: option.split)
    (metis stab_empty stab_range)+

definition is_synced :: "nat \<Rightarrow> int \<Rightarrow> watchableStore \<Rightarrow> bool" where
  "is_synced c i ws \<longleftrightarrow> (\<exists>a \<in> synced ws. wa_ch (w_heap ws a) = c \<and> wa_id (w_heap ws a) = i)"


text \<open>A state for the examples: one stream, and a key that was put once.\<close>

definition wrun1 :: "watchableStore option" where
  "wrun1 = map_option fst (w_Put id 11 ''a'' ''x'' NoLease (snd (w_NewWatchStream (empty_watch None))))"

definition wstore1 :: watchableStore where
  "wstore1 = the wrun1"

lemma wrun1_Some: "wrun1 = Some wstore1"
proof -
  have "wrun1 \<noteq> None" by code_simp
  then show ?thesis by (simp add: wstore1_def)
qed

lemma ord_id: "ord_ok id"
  by (simp add: ord_ok_def)

lemma w_reach_step: "w_reach ws \<Longrightarrow> w_step ws ws' \<Longrightarrow> w_reach ws'"
  unfolding w_reach_def by (auto intro: rtranclp.rtrancl_into_rtrancl)

lemma wreach1: "w_reach wstore1"
proof -
  have "w_reach (snd (w_NewWatchStream (empty_watch None)))"
    by (rule w_reach_step [OF _ on_Stream]) (auto simp: w_reach_def)
  then show ?thesis using wrun1_Some w_reach_step on_Put [OF ord_id] by (fastforce simp: wrun1_def)
qed

lemma wstore1_sel: "w_nstreams wstore1 = 1" "ws_closed (w_streams wstore1 0) = False" "st_Rev (w_store wstore1) = 2"
  by code_simp+

text \<open>The key is watched from its first revision, changed, and the watchers are synchronised.\<close>

definition wrun2 :: "(int \<times> watchableStore \<times> watchableStore) option" where
  "wrun2 = do {
     (i, ws1) \<leftarrow> ws_Watch 0 ''a'' None 2 wstore1;
     (ws, _) \<leftarrow> w_Put id 12 ''a'' ''y'' NoLease ws1;
     ws2 \<leftarrow> syncWatchers id ws;
     Some (i, ws1, ws2)
   }"

lemma wrun2_facts:
  "map_option (\<lambda>(i, ws1, ws2). (st_compactMainRev (w_store ws2), wg_watchers (w_synced ws2), length (got i (ws_sent (w_streams ws2 0))))) wrun2 = Some (- 1, [0], 2)"
  by code_simp




end
