(* ===== verification/Spec2Isabelle.thy ===== *)
theory Spec2Isabelle
  imports Raft_Cluster_Run Raft_Flow_Props Raft_Pb_Props Mvcc_Restore_Props Mvcc_Watch_Props
begin

text \<open>Root theory.\<close>

end
